(* ===== verification/Prelude.thy ===== *)
theory Prelude
  imports Main "HOL-Library.Word" "HOL-Library.Monad_Syntax"
begin

text \<open>
  Shared vocabulary of the development: the machine types of the RV64 target, the
  panicking computations of the kernel, the integer primitives of Rust's core library
  that the sources call, and the generic facts on words, lists and options that the
  component theories share.

  Conventions.
  \<^item> \<open>usize\<close> and \<open>u64\<close> are 64-bit words. The kernel is built by \<open>xtask/src/build.rs\<close> with
    \<open>--release\<close>, so \<open>+\<close>, \<open>-\<close>, \<open>*\<close> wrap around and a shift uses the low six bits of its
    amount, which is what word arithmetic and \<open>shl\<close>/\<open>shr\<close> below compute.
  \<^item> a computation that can panic (\<open>assert!\<close>, \<open>unwrap\<close>, \<open>unreachable!\<close>, \<open>todo!\<close>, a slice
    index out of bounds) has an \<open>option\<close> type whose \<open>None\<close> is the panic; such
    computations are sequenced in the option monad.
  \<^item> \<open>Result<T, E>\<close> is the sum \<open>'e + 't\<close> with the error on the left; Rust's own
    \<open>Option<T>\<close> is \<open>'t option\<close>.
\<close>

unbundle bit_operations_syntax

section \<open>Machine types and panics\<close>

type_synonym u8 = "8 word"
type_synonym u16 = "16 word"
type_synonym u32 = "32 word"
type_synonym u64 = "64 word"
type_synonym usize = "64 word"
type_synonym 'a panics = "'a option"

abbreviation panic :: "'a panics" where
  "panic \<equiv> None"

definition ensure :: "bool \<Rightarrow> unit panics" where
  "ensure b = (if b then Some () else panic)"

named_theorems rust_prim \<open>definitions of the modelled integer primitives\<close>
named_theorems panic_simps \<open>rules that open panicking computations\<close>

section \<open>Integer primitives\<close>

definition usize_max :: usize where
  "usize_max = - 1"

definition shl :: "u64 \<Rightarrow> nat \<Rightarrow> u64" where
  [rust_prim]: "shl w n = push_bit (n mod 64) w"

definition shr :: "u64 \<Rightarrow> nat \<Rightarrow> u64" where
  [rust_prim]: "shr w n = drop_bit (n mod 64) w"

definition checked_add :: "usize \<Rightarrow> usize \<Rightarrow> usize option" where
  [rust_prim]: "checked_add a b = (if unat a + unat b < 2 ^ 64 then Some (a + b) else None)"

definition checked_sub :: "usize \<Rightarrow> usize \<Rightarrow> usize option" where
  [rust_prim]: "checked_sub a b = (if b \<le> a then Some (a - b) else None)"

text \<open>\<open>u64::count_ones\<close>, \<open>count_zeros\<close>, \<open>trailing_ones\<close> and \<open>leading_zeros\<close>, by their bits.\<close>

definition count_ones :: "u64 \<Rightarrow> nat" where
  [rust_prim]: "count_ones w = length (filter (bit w) [0..<64])"

definition count_zeros :: "u64 \<Rightarrow> nat" where
  [rust_prim]: "count_zeros w = length (filter (\<lambda>i. \<not> bit w i) [0..<64])"

definition trailing_ones :: "u64 \<Rightarrow> nat" where
  [rust_prim]: "trailing_ones w = length (takeWhile (bit w) [0..<64])"

definition leading_zeros :: "u64 \<Rightarrow> nat" where
  [rust_prim]: "leading_zeros w = length (takeWhile (\<lambda>i. \<not> bit w i) (rev [0..<64]))"

definition is_power_of_two :: "usize \<Rightarrow> bool" where
  [rust_prim]: "is_power_of_two n \<longleftrightarrow> count_ones n = 1"

text \<open>\<open>Option::flatten\<close>, and a \<open>for\<close> loop whose body may panic.\<close>

fun opt_flatten :: "'a option option \<Rightarrow> 'a option" where
  "opt_flatten None = None"
| "opt_flatten (Some x) = x"

fun for_loop :: "('a \<Rightarrow> 's \<Rightarrow> 's panics) \<Rightarrow> 'a list \<Rightarrow> 's \<Rightarrow> 's panics" where
  "for_loop f [] s = Some s"
| "for_loop f (x # xs) s = do { s' \<leftarrow> f x s; for_loop f xs s' }"

section \<open>Panicking computations\<close>

lemma ensure_simps [simp]:
  "ensure True = Some ()" "ensure False = panic"
  by (simp_all add: ensure_def)

lemma ensure_eq_Some [simp]: "ensure b = Some u \<longleftrightarrow> b"
  by (simp add: ensure_def)

lemma ensure_eq_None [simp]: "ensure b = None \<longleftrightarrow> \<not> b"
  by (simp add: ensure_def)

lemma ensure_bind_eq_Some [simp, panic_simps]:
  "Option.bind (ensure b) f = Some x \<longleftrightarrow> b \<and> f () = Some x"
  by (simp add: ensure_def)

lemma ensure_bind_True [simp]: "b \<Longrightarrow> Option.bind (ensure b) f = f ()"
  by (simp add: ensure_def)

lemma bind_eq_SomeE:
  assumes "Option.bind x f = Some y"
  obtains a where "x = Some a" "f a = Some y"
  using assms by (cases x) auto

lemmas [panic_simps] = bind_eq_Some_conv

section \<open>Words\<close>

lemma checked_add_Some_iff:
  "checked_add a b = Some c \<longleftrightarrow> c = a + b \<and> unat c = unat a + unat b"
proof -
  have "unat (a + b) = unat a + unat b \<longleftrightarrow> unat a + unat b < 2 ^ 64"
    using unat_add_lem [of a b] by simp
  then show ?thesis
    by (auto simp: checked_add_def)
qed

lemma checked_add_code [code]: "checked_add a b = (if a \<le> a + b then Some (a + b) else None)"
  using no_olen_add_nat [of a b] by (simp add: checked_add_def)

lemma checked_add_le: "checked_add a b = Some c \<Longrightarrow> a \<le> c"
  unfolding checked_add_Some_iff word_le_nat_alt by linarith

lemma checked_sub_Some_iff:
  "checked_sub a b = Some c \<longleftrightarrow> b \<le> a \<and> c = a - b"
  by (auto simp: checked_sub_def)

lemma checked_sub_unat: "checked_sub a b = Some c \<Longrightarrow> unat c = unat a - unat b"
  by (auto simp: checked_sub_Some_iff unat_sub word_le_nat_alt)

lemma unat_pred: "0 < (x :: 'a::len word) \<Longrightarrow> unat (x - 1) = unat x - 1"
  by (simp add: unat_minus_one word_gt_0)

lemma word_pred_less: "0 < (x :: 'a::len word) \<Longrightarrow> x - 1 < x"
  by (simp add: word_less_nat_alt unat_pred unat_gt_0 word_gt_0)

lemma word_less_imp_le_pred: "(x :: 'a::len word) < y \<Longrightarrow> x \<le> y - 1"
proof -
  assume xy: "x < y"
  then have "0 < y"
    by (rule le_less_trans [OF word_zero_le])
  then show ?thesis
    using xy by (simp add: word_le_nat_alt word_less_nat_alt unat_pred)
qed

lemma word_le_pred_imp_less: "0 < (y :: 'a::len word) \<Longrightarrow> x \<le> y - 1 \<Longrightarrow> x < y"
  using word_pred_less [of y] by (meson le_less_trans)

lemma word_le_pred_iff: "0 < (y :: 'a::len word) \<Longrightarrow> x \<le> y - 1 \<longleftrightarrow> x < y"
  using word_le_pred_imp_less word_less_imp_le_pred by blast

section \<open>Bits\<close>

lemma bit_shl: "k < 64 \<Longrightarrow> bit (shl w k) n \<longleftrightarrow> k \<le> n \<and> n < 64 \<and> bit w (n - k)"
  by (auto simp: shl_def bit_push_bit_iff)

lemma bit_shr: "k < 64 \<Longrightarrow> bit (shr w k) n \<longleftrightarrow> bit w (k + n)"
  by (simp add: shr_def bit_drop_bit_eq)

lemma bit_word_bound: "bit (w :: u64) n \<Longrightarrow> n < 64"
  by (drule bit_imp_le_length) simp

lemma and_pow2_eq_iff:
  fixes w :: "'a::len word"
  assumes "n < LENGTH('a)"
  shows "w AND 2 ^ n = 2 ^ n \<longleftrightarrow> bit w n"
proof
  assume "w AND 2 ^ n = 2 ^ n"
  then have "bit (w AND 2 ^ n) n \<longleftrightarrow> bit (2 ^ n :: 'a word) n"
    by (rule arg_cong)
  then show "bit w n"
    using assms by (simp add: bit_and_iff bit_exp_iff)
next
  assume w: "bit w n"
  show "w AND 2 ^ n = 2 ^ n"
  proof (rule bit_word_eqI)
    fix m
    show "bit (w AND 2 ^ n) m \<longleftrightarrow> bit (2 ^ n :: 'a word) m"
      using w by (cases "m = n") (simp_all add: bit_and_iff bit_exp_iff)
  qed
qed

section \<open>Counting bits\<close>

lemma takeWhile_upt_hit:
  assumes "k < n" "\<And>i. i < k \<Longrightarrow> P i" "\<not> P k"
  shows "takeWhile P [0..<n] = [0..<k]"
proof -
  have "[0..<n] = [0..<k] @ [k..<n]"
    using assms(1) by (metis le_add1 less_imp_add_positive upt_add_eq_append zero_le)
  moreover have "[k..<n] = k # [Suc k..<n]"
    using assms(1) by (simp add: upt_conv_Cons)
  ultimately have "takeWhile P [0..<n] = takeWhile P ([0..<k] @ k # [Suc k..<n])"
    by simp
  also have "\<dots> = [0..<k] @ takeWhile P (k # [Suc k..<n])"
    using assms(2) by (intro takeWhile_append2) simp
  finally show ?thesis
    using assms(3) by simp
qed

lemma trailing_ones_props:
  assumes "w \<noteq> - 1"
  shows "trailing_ones w < 64" and "\<not> bit w (trailing_ones w)"
    and "\<And>i. i < trailing_ones w \<Longrightarrow> bit w i"
proof -
  have ex: "\<exists>k. k < 64 \<and> \<not> bit w k"
  proof (rule ccontr)
    assume "\<nexists>k. k < 64 \<and> \<not> bit w k"
    then have "w = - 1"
      by (intro bit_word_eqI) auto
    with assms show False ..
  qed
  define k where "k = (LEAST k. k < 64 \<and> \<not> bit w k)"
  have k: "k < 64" "\<not> bit w k"
    using LeastI_ex [OF ex] by (simp_all add: k_def)
  have below: "bit w i" if "i < k" for i
    using not_less_Least [of i "\<lambda>k. k < 64 \<and> \<not> bit w k"] that k(1) by (simp add: k_def)
  have "trailing_ones w = k"
    using takeWhile_upt_hit [of k 64 "bit w"] k below by (simp add: trailing_ones_def)
  then show "trailing_ones w < 64" "\<not> bit w (trailing_ones w)"
      "\<And>i. i < trailing_ones w \<Longrightarrow> bit w i"
    using k below by simp_all
qed

lemma filter_eq_upt: "k < n \<Longrightarrow> filter (\<lambda>i. i = k) [0..<n] = [k]" for n :: nat
  by (induction n) (auto simp: less_Suc_eq filter_empty_conv)

lemma is_power_of_two_iff: "is_power_of_two w \<longleftrightarrow> (\<exists>k < 64. w = 2 ^ k)"
proof
  assume "is_power_of_two w"
  then obtain k where k: "filter (bit w) [0..<64] = [k]"
    by (auto simp: is_power_of_two_def count_ones_def length_Suc_conv)
  then have "set (filter (bit w) [0..<64]) = {k}"
    by simp
  then have bits: "{i. i < 64 \<and> bit w i} = {k}"
    by auto
  then have "bit w i \<longleftrightarrow> i = k" if "i < 64" for i
    using that by blast
  then have "w = 2 ^ k"
    by (intro bit_word_eqI) (auto simp: bit_simps)
  moreover have "k < 64"
    using bits by blast
  ultimately show "\<exists>k < 64. w = 2 ^ k"
    by blast
next
  assume "\<exists>k < 64. w = 2 ^ k"
  then obtain k where k: "k < 64" "w = 2 ^ k"
    by blast
  have "filter (bit w) [0..<64] = filter (\<lambda>i. i = k) [0..<64]"
    using k by (intro filter_cong) (auto simp: bit_simps)
  also have "\<dots> = [k]"
    using k(1) by (rule filter_eq_upt)
  finally show "is_power_of_two w"
    by (simp add: is_power_of_two_def count_ones_def)
qed

lemma and_not_mask_push_drop:
  "w AND NOT (mask k) = push_bit k (drop_bit k w)" for w :: "'a::len word"
  by (intro bit_word_eqI) (auto simp: bit_simps)

lemma unat_and_not_mask:
  "unat (w AND NOT (mask k)) = unat w div 2 ^ k * 2 ^ k" for w :: "'a::len word"
proof -
  have le: "unat w div 2 ^ k * 2 ^ k \<le> unat w"
    by simp
  have "unat (push_bit k (drop_bit k w)) = take_bit LENGTH('a) (push_bit k (unat (drop_bit k w)))"
    by (rule unsigned_push_bit_eq)
  also have "\<dots> = take_bit LENGTH('a) (unat w div 2 ^ k * 2 ^ k)"
    unfolding unat_drop_bit_eq by (simp only: push_bit_eq_mult drop_bit_eq_div)
  also have "\<dots> = unat w div 2 ^ k * 2 ^ k"
    by (intro take_bit_nat_eq_self le_less_trans [OF le]) (rule unsigned_less)
  finally show ?thesis
    by (simp add: and_not_mask_push_drop)
qed

lemma unat_64_less: "unat (a :: 64 word) < 2 ^ 64"
proof -
  have "unat a < 2 ^ LENGTH(64)" by (rule unsigned_less)
  then show ?thesis by simp
qed

lemma unat_of_nat_64: "j < 2 ^ 64 \<Longrightarrow> unat (of_nat j :: 64 word) = j"
  by (simp only: unat_of_nat) simp

section \<open>Loops\<close>

lemma for_loop_append: "for_loop f (xs @ ys) s = do { s' \<leftarrow> for_loop f xs s; for_loop f ys s' }"
proof (induction xs arbitrary: s)
  case (Cons x xs)
  then show ?case by (cases "f x s") auto
qed simp

lemma for_loop_invariant:
  assumes "for_loop f xs s = Some s'" "P s"
    and "\<And>x s s'. x \<in> set xs \<Longrightarrow> P s \<Longrightarrow> f x s = Some s' \<Longrightarrow> P s'"
  shows "P s'"
  using assms
proof (induction xs arbitrary: s)
  case (Cons x xs)
  from Cons.prems(1) obtain s1 where "f x s = Some s1" "for_loop f xs s1 = Some s'"
    by (auto split: bind_splits)
  with Cons show ?case by auto
qed simp

end
