(* ===== verification/Kernel_Utils.thy ===== *)
theory Kernel_Utils
  imports Prelude
begin

text \<open>
  \<open>src/kernel/vanadinite/src/utils.rs\<close>: unit conversions, rounding, and the timer
  arithmetic of the kernel.
\<close>

section \<open>Units\<close>

text \<open>The \<open>Units\<close> trait at \<open>usize\<close>: \<open>4.kib()\<close> is \<open>kib 4\<close>.\<close>

definition kib :: "usize \<Rightarrow> usize" where
  "kib n = n * 1024"

definition mib :: "usize \<Rightarrow> usize" where
  "mib n = n * 1024 * 1024"

definition gib :: "usize \<Rightarrow> usize" where
  "gib n = n * 1024 * 1024 * 1024"

lemmas units_def = kib_def mib_def gib_def

section \<open>Rounding and time\<close>

definition round_up_to_next :: "usize \<Rightarrow> usize \<Rightarrow> usize panics" where
  "round_up_to_next n sz = do {
     ensure (is_power_of_two sz);
     Some (if n mod sz = 0 then n else (n AND NOT (sz - 1)) + sz)
   }"

text \<open>A division by zero panics.\<close>

definition micros :: "u64 \<Rightarrow> u64 \<Rightarrow> u64 panics" where
  "micros ticks hz = do {
     ensure (hz div 1000 div 1000 \<noteq> 0);
     Some (ticks div (hz div 1000 div 1000))
   }"

definition time_parts :: "u64 \<Rightarrow> u64 \<times> u64 \<times> u64" where
  "time_parts us =
     (let seconds = us div (1000 * 1000);
          micros_left = us mod (1000 * 1000);
          millis = micros_left div 1000;
          rest = micros_left mod 1000
      in (seconds, millis, rest))"

definition ticks_per_us :: "u64 \<Rightarrow> u64 \<Rightarrow> u64" where
  "ticks_per_us target_us hz = (hz div 1000 div 1000) * target_us"

section \<open>Properties\<close>

lemma round_up_aux:
  assumes "k < 64"
  shows "round_up_to_next n (2 ^ k) =
    Some (if n mod 2 ^ k = 0 then n else (n AND NOT (mask k)) + 2 ^ k)"
proof -
  have "is_power_of_two (2 ^ k)"
    using assms by (auto simp: is_power_of_two_iff)
  then show ?thesis
    by (simp add: round_up_to_next_def mask_eq_exp_minus_1)
qed

lemma unat_pow2: "k < 64 \<Longrightarrow> unat (2 ^ k :: usize) = 2 ^ k"
  using unat_of_nat [where 'a = 64, of "2 ^ k"] power_strict_increasing [of k 64 "2 :: nat"]
  by simp

text \<open>Rounding up on the naturals, and the refinement of \<open>round_up_to_next\<close> to it.\<close>

definition round_up_nat :: "nat \<Rightarrow> nat \<Rightarrow> nat" where
  "round_up_nat n s = (n + s - 1) div s * s"

lemma round_up_nat_eq:
  "0 < s \<Longrightarrow> round_up_nat n s = (if n mod s = 0 then n else n div s * s + s)"
proof (cases "n mod s = 0")
  case True
  assume s: "0 < s"
  from True obtain q where q: "n = q * s"
    by (metis mod_eq_0_iff_dvd dvd_def mult.commute)
  have "n + s - 1 = q * s + (s - 1)"
    using q s by simp
  then have "(n + s - 1) div s = q"
    using s by (intro div_nat_eqI) (auto simp: algebra_simps)
  then show ?thesis
    using q True by (simp add: round_up_nat_def)
next
  case False
  assume s: "0 < s"
  define q r where "q = n div s" and "r = n mod s"
  have n: "n = q * s + r" "r < s" "0 < r"
    using False s by (simp_all add: q_def r_def)
  then have "n + s - 1 = (q + 1) * s + (r - 1)"
    by (simp add: algebra_simps)
  then have "(n + s - 1) div s = q + 1"
    using n s by (intro div_nat_eqI) (auto simp: algebra_simps)
  then show ?thesis
    using False by (simp add: round_up_nat_def q_def algebra_simps)
qed

lemma round_up_to_next_refines:
  assumes "k < 64" and "round_up_nat (unat n) (2 ^ k) < 2 ^ 64"
  shows "\<exists>r. round_up_to_next n (2 ^ k) = Some r \<and> unat r = round_up_nat (unat n) (2 ^ k)"
proof -
  have m: "n mod 2 ^ k = 0 \<longleftrightarrow> unat n mod 2 ^ k = 0"
    using unat_mod_distrib [of n "2 ^ k"] unat_0_iff [of "n mod 2 ^ k"]
    by (simp only: unat_pow2 [OF assms(1)])
  show ?thesis
  proof (cases "unat n mod 2 ^ k = 0")
    case True
    then show ?thesis
      using assms m by (simp add: round_up_aux round_up_nat_eq)
  next
    case False
    then have bound: "unat n div 2 ^ k * 2 ^ k + 2 ^ k < (2::nat) ^ 64"
      using assms(2) by (simp add: round_up_nat_eq)
    have "unat ((n AND NOT (mask k)) + 2 ^ k) = unat (n AND NOT (mask k)) + unat (2 ^ k :: usize)"
      using bound assms(1) by (intro unat_add_lem [THEN iffD1])
        (simp add: unat_and_not_mask unat_pow2)
    then show ?thesis
      using False assms m by (simp add: round_up_aux round_up_nat_eq unat_and_not_mask unat_pow2)
  qed
qed

lemma time_parts_recombine:
  assumes "time_parts us = (s, ms, r)"
  shows "us = s * 1000000 + ms * 1000 + r" and "ms < 1000" and "r < 1000"
proof -
  define m where "m = us mod 1000000"
  have parts: "s = us div 1000000" "ms = m div 1000" "r = m mod 1000"
    using assms by (simp_all add: time_parts_def Let_def m_def)
  have "us = us div 1000000 * 1000000 + m" and "m = m div 1000 * 1000 + m mod 1000"
    unfolding m_def by (rule word_mod_div_equality [symmetric])+
  then show "us = s * 1000000 + ms * 1000 + r"
    using parts by (metis add.assoc)
  show "r < 1000"
    by (simp add: parts word_mod_less_divisor)
  have "unat m < 1000000"
    by (simp add: m_def unat_mod_distrib)
  then have "unat ms < 1000"
    by (simp add: parts unat_div_distrib less_mult_imp_div_less)
  then show "ms < 1000"
    by (simp add: word_less_nat_alt)
qed

end
