(* ===== verification/Paging_Repr.thy ===== *)
theory Paging_Repr
  imports Kernel_Utils
begin

text \<open>
  The representation layer of the page tables,
  \<open>src/kernel/vanadinite/src/mem/paging/table/\<close>: permission flags (\<open>flags.rs\<close>), page table
  entries, virtual and physical addresses and page sizes (\<open>repr.rs\<close>), all as bit patterns
  of 64-bit words, in the default Sv39 configuration (\<open>N_VPN = 3\<close>).
\<close>

section \<open>Flags\<close>

type_synonym flags = u8

definition FLAG_NONE :: flags where "FLAG_NONE = 0b00000000"
definition FLAG_VALID :: flags where "FLAG_VALID = 0b00000001"
definition FLAG_READ :: flags where "FLAG_READ = 0b00000010"
definition FLAG_WRITE :: flags where "FLAG_WRITE = 0b00000100"
definition FLAG_EXECUTE :: flags where "FLAG_EXECUTE = 0b00001000"
definition FLAG_USER :: flags where "FLAG_USER = 0b00010000"
definition FLAG_GLOBAL :: flags where "FLAG_GLOBAL = 0b00100000"
definition FLAG_ACCESSED :: flags where "FLAG_ACCESSED = 0b01000000"
definition FLAG_DIRTY :: flags where "FLAG_DIRTY = 0b10000000"

lemmas flag_defs = FLAG_NONE_def FLAG_VALID_def FLAG_READ_def FLAG_WRITE_def FLAG_EXECUTE_def
  FLAG_USER_def FLAG_GLOBAL_def FLAG_ACCESSED_def FLAG_DIRTY_def

text \<open>\<open>impl BitOr\<close> is the union; \<open>impl BitAnd\<close> returns whether all of \<open>rhs\<close> is set.\<close>

definition flags_bitor :: "flags \<Rightarrow> flags \<Rightarrow> flags" where
  "flags_bitor f g = f OR g"

definition flags_bitand :: "flags \<Rightarrow> flags \<Rightarrow> bool" where
  "flags_bitand f g \<longleftrightarrow> f AND g = g"

record FlagsStruct =
  fs_valid :: bool
  fs_read :: bool
  fs_write :: bool
  fs_execute :: bool
  fs_user :: bool
  fs_global :: bool
  fs_accessed :: bool
  fs_dirty :: bool

definition matchable :: "flags \<Rightarrow> FlagsStruct" where
  "matchable f = \<lparr>
     fs_valid = flags_bitand f FLAG_VALID,
     fs_read = flags_bitand f FLAG_READ,
     fs_write = flags_bitand f FLAG_WRITE,
     fs_execute = flags_bitand f FLAG_EXECUTE,
     fs_user = flags_bitand f FLAG_USER,
     fs_global = flags_bitand f FLAG_GLOBAL,
     fs_accessed = flags_bitand f FLAG_ACCESSED,
     fs_dirty = flags_bitand f FLAG_DIRTY \<rparr>"

section \<open>Page sizes\<close>

datatype PageSize = Kilopage | Megapage | Gigapage

fun to_byte_size :: "PageSize \<Rightarrow> usize" where
  "to_byte_size Kilopage = kib 4"
| "to_byte_size Megapage = mib 2"
| "to_byte_size Gigapage = gib 1"

fun page_size_next :: "PageSize \<Rightarrow> PageSize option" where
  "page_size_next Kilopage = None"
| "page_size_next Megapage = Some Kilopage"
| "page_size_next Gigapage = Some Megapage"

definition top_level :: PageSize where
  "top_level = Gigapage"

definition assert_addr_aligned :: "PageSize \<Rightarrow> usize \<Rightarrow> unit panics" where
  "assert_addr_aligned sz addr = ensure (addr mod to_byte_size sz = 0)"

section \<open>Physical addresses\<close>

type_synonym paddr = usize

definition PPN_MASK :: usize where
  "PPN_MASK = 0x00FFFFFFFFFFFFFF"

definition paddr_offset :: "paddr \<Rightarrow> usize \<Rightarrow> paddr panics" where
  "paddr_offset a bytes = checked_add a bytes"

definition paddr_ppns :: "paddr \<Rightarrow> usize list" where
  "paddr_ppns a = [shr a 12 AND 0x1FF, shr a 21 AND 0x1FF, shr a 30 AND 0x3FFFFFF]"

definition paddr_ppn :: "paddr \<Rightarrow> usize" where
  "paddr_ppn a = shr a 12 AND PPN_MASK"

definition paddr_offset_into_page :: "paddr \<Rightarrow> PageSize \<Rightarrow> usize" where
  "paddr_offset_into_page a sz = a AND (to_byte_size sz - 1)"

section \<open>Page table entries\<close>

type_synonym rsw = u8

definition RSW_NONE :: rsw where "RSW_NONE = 0"
definition RSW_SHARED_MEMORY :: rsw where "RSW_SHARED_MEMORY = 1"
definition RSW_DIRECT :: rsw where "RSW_DIRECT = 2"

type_synonym pte = u64

definition pte_new :: pte where
  "pte_new = 0"

definition pte_is_valid :: "pte \<Rightarrow> bool" where
  "pte_is_valid e \<longleftrightarrow> e AND 1 = 1"

definition pte_flags :: "pte \<Rightarrow> flags" where
  "pte_flags e = ucast e"

definition pte_set_flags :: "pte \<Rightarrow> flags \<Rightarrow> pte" where
  "pte_set_flags e f = (e AND NOT 0xFF) OR ucast f"

definition pte_rsw :: "pte \<Rightarrow> rsw" where
  "pte_rsw e = ucast (shr e 8 AND 0b11)"

definition pte_set_rsw :: "pte \<Rightarrow> rsw \<Rightarrow> pte" where
  "pte_set_rsw e r = (e AND NOT (shl 0x3 8)) OR ucast (r AND 0x3)"

definition pte_ppn :: "pte \<Rightarrow> paddr option" where
  "pte_ppn e = (if \<not> pte_is_valid e then None else Some (shl (shr e 10) 12))"

definition pte_set_ppn :: "pte \<Rightarrow> paddr \<Rightarrow> pte" where
  "pte_set_ppn e a = (e AND 0x3FF) OR shl (paddr_ppn a) 10"

datatype EntryKind = NotValid | Leaf | Branch paddr

definition pte_kind :: "pte \<Rightarrow> EntryKind panics" where
  "pte_kind e =
     (let fl = pte_flags e in
      if \<not> flags_bitand fl FLAG_VALID then Some NotValid
      else if flags_bitand fl FLAG_READ \<or> flags_bitand fl FLAG_EXECUTE then Some Leaf
      else map_option Branch (pte_ppn e))"

section \<open>Virtual addresses\<close>

type_synonym vaddr = usize

definition top_most_bit :: usize where
  "top_most_bit = shl 1 (12 + 3 * 9 - 1)"

definition vaddr_new :: "usize \<Rightarrow> vaddr" where
  "vaddr_new addr =
     (if addr AND top_most_bit = top_most_bit
      then addr OR shl usize_max (12 + 3 * 9 - 1) else addr)"

definition is_kernel_region :: "vaddr \<Rightarrow> bool" where
  "is_kernel_region a \<longleftrightarrow> a <s 0"

definition vpns :: "vaddr \<Rightarrow> nat list" where
  "vpns a = map (\<lambda>i. unat (shr a (12 + 9 * i) AND 0x1FF)) [0, 1, 2]"

definition from_vpns :: "nat list \<Rightarrow> vaddr" where
  "from_vpns v =
     (let addr = fold (\<lambda>i acc. acc OR shl (of_nat (v ! i)) (12 + 9 * i)) [0, 1, 2] 0 in
      if addr AND top_most_bit = top_most_bit
      then addr OR shl usize_max (12 + 3 * 9 - 1) else addr)"

definition userspace_range :: "vaddr \<times> vaddr" where
  "userspace_range = (vaddr_new 0, vaddr_new (shl 1 (12 + 3 * 9 - 1) - 1))"

definition kernelspace_range :: "vaddr \<times> vaddr" where
  "kernelspace_range = (from_vpns [0, 0, 256], vaddr_new usize_max)"

text \<open>\<open>Range::contains\<close> of a half-open range.\<close>

definition range_contains :: "vaddr \<times> vaddr \<Rightarrow> vaddr \<Rightarrow> bool" where
  "range_contains r a \<longleftrightarrow> fst r \<le> a \<and> a < snd r"

definition vaddr_checked_add :: "vaddr \<Rightarrow> usize \<Rightarrow> vaddr option" where
  "vaddr_checked_add self bytes =
     (case checked_add self bytes of
        None \<Rightarrow> None
      | Some new \<Rightarrow>
          (let same_region = (is_kernel_region new = is_kernel_region self);
               not_hole = (is_kernel_region new \<or> range_contains userspace_range new)
           in if \<not> same_region \<or> \<not> not_hole then None else Some new))"

definition vaddr_add :: "vaddr \<Rightarrow> usize \<Rightarrow> vaddr panics" where
  "vaddr_add self bytes = vaddr_checked_add self bytes"

text \<open>An \<open>isize\<close> offset is an \<open>int\<close> in the range of a signed 64-bit word.\<close>

definition vaddr_checked_offset :: "vaddr \<Rightarrow> int \<Rightarrow> vaddr option" where
  "vaddr_checked_offset self off =
     (if 0 < off then vaddr_checked_add self (of_int off)
      else (case checked_sub self (of_int (- off)) of
              None \<Rightarrow> None
            | Some new \<Rightarrow>
                (let same_region = (is_kernel_region new = is_kernel_region self);
                     not_hole = (range_contains kernelspace_range new
                                 \<or> range_contains userspace_range new)
                 in if \<not> same_region \<or> \<not> not_hole then None else Some new)))"

definition vaddr_offset :: "vaddr \<Rightarrow> int \<Rightarrow> vaddr panics" where
  "vaddr_offset self off = vaddr_checked_offset self off"

definition unchecked_offset :: "vaddr \<Rightarrow> int \<Rightarrow> vaddr" where
  "unchecked_offset self off =
     (if 0 < off then self + of_int off else self - of_int (- off))"

definition align_down_to :: "vaddr \<Rightarrow> PageSize \<Rightarrow> vaddr" where
  "align_down_to self sz = self AND NOT (to_byte_size sz - 1)"

definition align_to_next :: "vaddr \<Rightarrow> PageSize \<Rightarrow> vaddr" where
  "align_to_next self sz = align_down_to self sz + to_byte_size sz"

fun offset_into_page :: "vaddr \<Rightarrow> PageSize \<Rightarrow> usize" where
  "offset_into_page self Gigapage = self AND (gib 1 - 1)"
| "offset_into_page self Megapage = self AND (mib 2 - 1)"
| "offset_into_page self Kilopage = self AND (kib 4 - 1)"

definition is_aligned :: "vaddr \<Rightarrow> PageSize \<Rightarrow> bool" where
  "is_aligned self sz \<longleftrightarrow> offset_into_page self sz = 0"

text \<open>The direct map: the kernel reaches a physical address at a fixed offset.\<close>

definition phys2virt :: "usize \<Rightarrow> paddr \<Rightarrow> vaddr panics" where
  "phys2virt physical_offset phys = map_option vaddr_new (paddr_offset phys physical_offset)"

definition virt2phys :: "usize \<Rightarrow> vaddr \<Rightarrow> paddr" where
  "virt2phys physical_offset virt = virt - physical_offset"

section \<open>Specification vocabulary\<close>

text \<open>The exponent of each page size, and the addresses user space may use.\<close>

fun page_shift :: "PageSize \<Rightarrow> nat" where
  "page_shift Kilopage = 12"
| "page_shift Megapage = 21"
| "page_shift Gigapage = 30"

definition in_userspace :: "vaddr \<Rightarrow> bool" where
  "in_userspace a \<longleftrightarrow> range_contains userspace_range a"

section \<open>Bit-level characterisations\<close>

lemma flags_bitand_iff:
  "flags_bitand f FLAG_VALID \<longleftrightarrow> bit f 0"
  "flags_bitand f FLAG_READ \<longleftrightarrow> bit f 1"
  "flags_bitand f FLAG_WRITE \<longleftrightarrow> bit f 2"
  "flags_bitand f FLAG_EXECUTE \<longleftrightarrow> bit f 3"
  "flags_bitand f FLAG_USER \<longleftrightarrow> bit f 4"
  "flags_bitand f FLAG_GLOBAL \<longleftrightarrow> bit f 5"
  "flags_bitand f FLAG_ACCESSED \<longleftrightarrow> bit f 6"
  "flags_bitand f FLAG_DIRTY \<longleftrightarrow> bit f 7"
  using and_pow2_eq_iff [of 0 f] and_pow2_eq_iff [of 1 f] and_pow2_eq_iff [of 2 f]
    and_pow2_eq_iff [of 3 f] and_pow2_eq_iff [of 4 f] and_pow2_eq_iff [of 5 f]
    and_pow2_eq_iff [of 6 f] and_pow2_eq_iff [of 7 f]
  by (simp_all add: flags_bitand_def flag_defs)

lemma pte_is_valid_iff: "pte_is_valid e \<longleftrightarrow> bit e 0"
  using and_pow2_eq_iff [of 0 e] by (simp add: pte_is_valid_def)

lemma bit_pte_flags: "bit (pte_flags e) n \<longleftrightarrow> n < 8 \<and> bit e n"
  by (auto simp: pte_flags_def bit_simps)

lemma mask_consts:
  "(0xFF :: u64) = mask 8" "(0x3FF :: u64) = mask 10" "(0x1FF :: u64) = mask 9"
  "(3 :: u64) = mask 2" "(3 :: u8) = mask 2" "PPN_MASK = mask 56"
  by (simp_all add: mask_eq_exp_minus_1 PPN_MASK_def)

lemma bit_pte_set_flags:
  "bit (pte_set_flags e f) n \<longleftrightarrow> (if n < 8 then bit f n else bit e n)"
  unfolding pte_set_flags_def mask_consts
  by (auto simp: bit_simps dest: bit_imp_le_length)

lemma bit_paddr_ppn: "bit (paddr_ppn a) n \<longleftrightarrow> bit a (12 + n)"
  unfolding paddr_ppn_def mask_consts
  by (auto simp: bit_and_iff bit_shr bit_mask_iff dest: bit_word_bound)

lemma bit_pte_set_ppn:
  "bit (pte_set_ppn e a) n \<longleftrightarrow> (if n < 10 then bit e n else bit a (n + 2))"
  unfolding pte_set_ppn_def mask_consts
  by (auto simp: bit_and_iff bit_or_iff bit_shl bit_mask_iff bit_paddr_ppn dest: bit_word_bound)

lemma bit_pte_set_rsw:
  "bit (pte_set_rsw e r) n \<longleftrightarrow>
     (if n < 2 then bit e n \<or> bit r n else n \<noteq> 8 \<and> n \<noteq> 9 \<and> bit e n)"
  unfolding pte_set_rsw_def mask_consts
  by (auto simp: bit_and_iff bit_or_iff bit_not_iff bit_shl bit_mask_iff bit_simps
      dest: bit_word_bound)

lemma bit_pte_ppn_val: "bit (shl (shr e 10) 12) n \<longleftrightarrow> 12 \<le> n \<and> n < 64 \<and> bit e (n - 2)"
  by (auto simp: bit_shl bit_shr)

lemma page_shift_less: "page_shift sz < 64"
  by (cases sz) simp_all

lemma to_byte_size_pow2: "to_byte_size sz = 2 ^ page_shift sz"
  by (cases sz) (simp_all add: units_def)

lemma unat_to_byte_size: "unat (to_byte_size sz) = 2 ^ page_shift sz"
  by (simp add: to_byte_size_pow2 unat_pow2 page_shift_less)

lemma to_byte_size_mask: "to_byte_size sz - 1 = mask (page_shift sz)"
  by (simp add: to_byte_size_pow2 mask_eq_exp_minus_1)

lemma offset_into_page_mask: "offset_into_page a sz = a AND mask (page_shift sz)"
  using to_byte_size_mask [of sz] by (cases sz) simp_all

lemma is_aligned_iff_bits: "is_aligned a sz \<longleftrightarrow> (\<forall>i < page_shift sz. \<not> bit a i)"
  unfolding is_aligned_def offset_into_page_mask
  by (auto simp: bit_eq_iff bit_and_iff bit_mask_iff) (metis bit_word_bound)

lemma unat_and_mask: "unat (w AND mask k) = unat w mod 2 ^ k" for w :: "'a::len word"
proof -
  have "unat (w AND mask k) = take_bit k (unat w)"
    by (simp only: take_bit_eq_mask [symmetric] unsigned_take_bit_eq)
  then show ?thesis
    by (simp only: take_bit_eq_mod)
qed

lemma is_aligned_iff_dvd: "is_aligned a sz \<longleftrightarrow> 2 ^ page_shift sz dvd unat a"
proof -
  have "is_aligned a sz \<longleftrightarrow> unat (a AND mask (page_shift sz)) = 0"
    by (simp add: is_aligned_def offset_into_page_mask unat_0_iff)
  then show ?thesis
    by (simp add: unat_and_mask dvd_eq_mod_eq_0)
qed

lemma aligned_mod: "a mod to_byte_size sz = 0 \<longleftrightarrow> is_aligned a sz"
proof -
  have "a mod to_byte_size sz = 0 \<longleftrightarrow> unat (a mod to_byte_size sz) = 0"
    by (simp add: unat_0_iff)
  then show ?thesis
    by (simp add: unat_mod_distrib unat_to_byte_size is_aligned_iff_dvd dvd_eq_mod_eq_0)
qed

lemma assert_addr_aligned_iff: "assert_addr_aligned sz a = Some () \<longleftrightarrow> is_aligned a sz"
  by (simp add: assert_addr_aligned_def aligned_mod)

lemma unat_align_down: "unat (align_down_to a sz) = unat a div 2 ^ page_shift sz * 2 ^ page_shift sz"
  by (simp add: align_down_to_def to_byte_size_mask unat_and_not_mask)

lemma align_down_le: "align_down_to a sz \<le> a"
  by (simp add: word_le_nat_alt unat_align_down)

lemma align_down_aligned: "is_aligned (align_down_to a sz) sz"
  by (simp add: is_aligned_iff_dvd unat_align_down)

lemma align_down_id: "is_aligned a sz \<Longrightarrow> align_down_to a sz = a"
  by (simp add: word_unat_eq_iff unat_align_down is_aligned_iff_dvd)

lemma is_kernel_region_iff: "is_kernel_region a \<longleftrightarrow> bit a 63"
  by (simp add: is_kernel_region_def word_sless_alt bit_last_iff [symmetric])

lemma userspace_range_eq: "userspace_range = (0, 0x3FFFFFFFFF)"
  by (simp add: userspace_range_def vaddr_new_def top_most_bit_def shl_def)

lemma kernelspace_range_eq: "kernelspace_range = (0xFFFFFFC000000000, 0xFFFFFFFFFFFFFFFF)"
  by (simp add: kernelspace_range_def from_vpns_def vaddr_new_def top_most_bit_def shl_def usize_max_def Let_def mask_eq_exp_minus_1)

lemma bit_last_iff_le: "bit (a :: usize) 63 \<longleftrightarrow> 0x8000000000000000 \<le> unat a"
proof -
  define u where "u = uint a"
  have u: "0 \<le> u" "u < 0x10000000000000000" "u = int (unat a)"
    using uint_bounded [of a] by (simp_all add: u_def)
  have "bit a 63 \<longleftrightarrow> odd (u div 0x8000000000000000)"
    using bit_uint_iff [of a 63] by (simp add: u_def bit_iff_odd)
  also have "\<dots> \<longleftrightarrow> 0x8000000000000000 \<le> u"
  proof (cases "0x8000000000000000 \<le> u")
    case True
    then have "u div 0x8000000000000000 = 1"
      using u(2) by (simp add: div_pos_geq)
    then show ?thesis
      using True by simp
  next
    case False
    then show ?thesis
      using u(1) by simp
  qed
  also have "\<dots> \<longleftrightarrow> 0x8000000000000000 \<le> unat a"
    unfolding u(3) by linarith
  finally show ?thesis .
qed

lemma in_userspace_iff: "in_userspace a \<longleftrightarrow> a < 0x3FFFFFFFFF"
  by (simp add: in_userspace_def range_contains_def userspace_range_eq)

lemma in_userspace_not_kernel: "in_userspace a \<Longrightarrow> \<not> is_kernel_region a"
  by (simp add: in_userspace_iff is_kernel_region_iff bit_last_iff_le word_less_nat_alt)

lemma vaddr_checked_add_Some:
  assumes "vaddr_checked_add a b = Some c"
  shows "c = a + b" and "unat c = unat a + unat b"
    and "is_kernel_region c = is_kernel_region a"
    and "is_kernel_region c \<or> in_userspace c"
  using assms
  by (auto simp: vaddr_checked_add_def checked_add_Some_iff Let_def in_userspace_def
      split: option.splits if_splits)

lemma vaddr_checked_add_user:
  assumes "in_userspace a"
  shows "vaddr_checked_add a b = Some c \<longleftrightarrow> unat a + unat b < 0x3FFFFFFFFF \<and> c = a + b"
    (is "?l \<longleftrightarrow> ?r")
proof
  assume l: ?l
  note s = vaddr_checked_add_Some [OF l]
  have "in_userspace c"
    using s assms in_userspace_not_kernel by blast
  then show ?r
    using s by (simp add: in_userspace_iff word_less_nat_alt)
next
  assume r: ?r
  then have "unat c = unat a + unat b"
    using unat_add_lem [of a b] by simp
  then have "in_userspace c" "checked_add a b = Some c"
    using r by (simp_all add: in_userspace_iff word_less_nat_alt checked_add_Some_iff)
  then show ?l
    using assms in_userspace_not_kernel
    by (simp add: vaddr_checked_add_def Let_def in_userspace_def [symmetric])
qed
section \<open>Virtual page numbers\<close>

lemma vpns_length [simp]: "length (vpns a) = 3"
  by (simp add: vpns_def)

lemma vpns_less: "v \<in> set (vpns a) \<Longrightarrow> v < 512"
proof -
  have "unat (w AND 0x1FF) < 512" for w :: usize
    unfolding mask_consts by (simp add: unat_and_mask)
  then show "v \<in> set (vpns a) \<Longrightarrow> v < 512"
    by (auto simp: vpns_def)
qed

lemma vpns_nth: "i < 3 \<Longrightarrow> vpns a ! i = unat (shr a (12 + 9 * i) AND mask 9)"
proof -
  assume "i < 3"
  then have "i = 0 \<or> i = 1 \<or> i = 2"
    by linarith
  then show ?thesis
    unfolding vpns_def mask_consts by (elim disjE) simp_all
qed

lemma bit_of_nat_vpn:
  "i < 3 \<Longrightarrow> bit (of_nat (vpns a ! i) :: usize) n \<longleftrightarrow> n < 9 \<and> bit a (12 + 9 * i + n)"
  by (auto simp: vpns_nth bit_and_iff bit_mask_iff bit_shr ac_simps dest: bit_word_bound)

lemma vpn_bit_index:
  assumes "12 \<le> n" "n < (39 :: nat)"
  obtains i m where "i < 3" "m < 9" "n = 12 + 9 * i + m"
proof
  show "n = 12 + 9 * ((n - 12) div 9) + (n - 12) mod 9"
    using assms(1) by simp
  show "(n - 12) div 9 < 3" "(n - 12) mod 9 < 9"
    using assms by (simp_all add: less_mult_imp_div_less)
qed

lemma vpns_nth_eq_iff:
  assumes "i < 3"
  shows "vpns a ! i = vpns b ! i \<longleftrightarrow> (\<forall>n < 9. bit a (12 + 9 * i + n) = bit b (12 + 9 * i + n))"
proof -
  have "vpns a ! i = vpns b ! i \<longleftrightarrow>
      shr a (12 + 9 * i) AND mask 9 = shr b (12 + 9 * i) AND mask 9"
    using assms by (simp only: vpns_nth word_unat_eq_iff [symmetric])
  also have "\<dots> \<longleftrightarrow> (\<forall>n < 9. bit a (12 + 9 * i + n) = bit b (12 + 9 * i + n))"
  proof -
    have "(\<forall>n < 64. (P n \<and> n < 9) = (Q n \<and> n < 9)) \<longleftrightarrow> (\<forall>n < 9. P n = Q n)" for P Q :: "nat \<Rightarrow> bool"
      by (rule iffI) (auto, (erule_tac x = n in allE, simp)+)
    then show ?thesis
      using assms by (simp add: bit_eq_iff bit_and_iff bit_mask_iff bit_shr)
  qed
  finally show ?thesis .
qed

lemma vpns_eq_iff:
  "vpns a = vpns b \<longleftrightarrow> (\<forall>n. 12 \<le> n \<and> n < 39 \<longrightarrow> bit a n = bit b n)" (is "_ \<longleftrightarrow> ?R")
proof -
  have "vpns a = vpns b \<longleftrightarrow> (\<forall>i < 3. vpns a ! i = vpns b ! i)"
    by (simp add: list_eq_iff_nth_eq)
  also have "\<dots> \<longleftrightarrow> (\<forall>i < 3. \<forall>n < 9. bit a (12 + 9 * i + n) = bit b (12 + 9 * i + n))"
    by (simp add: vpns_nth_eq_iff)
  also have "\<dots> \<longleftrightarrow> ?R"
    by (auto elim!: vpn_bit_index)
  finally show ?thesis .
qed

lemma ex_less_3: "(\<exists>i < 3. P i) \<longleftrightarrow> P 0 \<or> P 1 \<or> P (2 :: nat)"
  by (auto simp: numeral_3_eq_3 numeral_2_eq_2 less_Suc_eq)

lemma from_vpns_vpns:
  assumes "is_aligned a Kilopage" and "\<And>n. 38 \<le> n \<Longrightarrow> n < 64 \<Longrightarrow> bit a n = bit a 38"
  shows "from_vpns (vpns a) = a"
proof -
  define w where "w = fold (\<lambda>i acc. acc OR shl (of_nat (vpns a ! i)) (12 + 9 * i)) [0, 1, 2] (0 :: usize)"
  have part: "bit (shl (of_nat (vpns a ! i)) (12 + 9 * i)) n \<longleftrightarrow>
      12 + 9 * i \<le> n \<and> n < 21 + 9 * i \<and> bit a n" if "i < 3" for i n
    using that by (subst bit_shl) (auto simp: bit_of_nat_vpn)
  have bw: "bit w n \<longleftrightarrow> 12 \<le> n \<and> n < 39 \<and> bit a n" for n
    using part [of 0 n] part [of 1 n] part [of 2 n] by (simp add: w_def bit_or_iff) linarith
  have tm: "w AND top_most_bit = top_most_bit \<longleftrightarrow> bit a 38"
    using and_pow2_eq_iff [of 38 w] by (simp add: top_most_bit_def shl_def bw)
  have bm: "bit (shl usize_max 38) n \<longleftrightarrow> 38 \<le> n \<and> n < 64" for n
    by (auto simp: bit_shl usize_max_def)
  have low: "\<not> bit a n" if "n < 12" for n
    using assms(1) that by (simp add: is_aligned_iff_bits)
  have fv: "from_vpns (vpns a) = (if bit a 38 then w OR shl usize_max 38 else w)"
    unfolding from_vpns_def w_def [symmetric] Let_def tm by simp
  have "bit (from_vpns (vpns a)) n \<longleftrightarrow> bit a n" if "n < 64" for n
    using low [of n] assms(2) [of n] that
    by (cases "n < 12"; cases "38 \<le> n") (auto simp: fv bit_or_iff bw bm)
  then show ?thesis
    by (intro bit_word_eqI) simp
qed
section \<open>Entry operations\<close>

lemma pte_kind_eq:
  "pte_kind e = Some
     (if \<not> bit e 0 then NotValid
      else if bit e 1 \<or> bit e 3 then Leaf
      else Branch (shl (shr e 10) 12))"
  by (simp add: pte_kind_def Let_def flags_bitand_iff bit_pte_flags pte_ppn_def pte_is_valid_iff)

lemma pte_flags_set_flags: "pte_flags (pte_set_flags e f) = f"
  by (rule bit_word_eqI) (simp add: bit_pte_flags bit_pte_set_flags)

lemma pte_flags_set_ppn: "pte_flags (pte_set_ppn e a) = pte_flags e"
  by (rule bit_word_eqI) (simp add: bit_pte_flags bit_pte_set_ppn)

lemma pte_flags_set_rsw: "pte_flags (pte_set_rsw e r) = pte_flags e OR (r AND 3)"
  by (rule bit_word_eqI)
    (auto simp: bit_pte_flags bit_pte_set_rsw bit_or_iff bit_and_iff mask_consts bit_mask_iff)

lemma shl_shr_set_ppn:
  assumes "is_aligned a Kilopage"
  shows "shl (shr (pte_set_ppn e a) 10) 12 = a"
proof (rule bit_word_eqI)
  fix n assume "n < LENGTH(64)"
  then show "bit (shl (shr (pte_set_ppn e a) 10) 12) n \<longleftrightarrow> bit a n"
    using assms
    by (cases "12 \<le> n") (auto simp: bit_pte_ppn_val bit_pte_set_ppn is_aligned_iff_bits
        simp del: add_2_eq_Suc')
qed

lemma pte_ppn_set_ppn:
  assumes "pte_is_valid e" and "is_aligned a Kilopage"
  shows "pte_ppn (pte_set_ppn e a) = Some a"
  using assms by (simp add: pte_ppn_def pte_is_valid_iff bit_pte_set_ppn shl_shr_set_ppn)

lemma pte_rsw_set_rsw: "pte_rsw (pte_set_rsw e r) = RSW_NONE"
proof -
  have "\<not> bit (pte_rsw (pte_set_rsw e r)) n" for n
    unfolding pte_rsw_def mask_consts
    by (auto simp: bit_simps bit_shr bit_pte_set_rsw bit_mask_iff less_2_cases_iff)
  then show ?thesis
    by (intro bit_word_eqI) (simp add: RSW_NONE_def)
qed

end
