(* ===== verification/Syscall_Abi.thy ===== *)
theory Syscall_Abi
  imports Paging_Repr
begin

text \<open>
  The system call interface shared by the kernel and its tasks (\<open>librust\<close>): the numbers of the calls,
  the encoding of errors in a register, capability pointers and rights, memory permissions, and the
  messages of the kernel channel. A call is a set of registers (\<open>GeneralRegisters\<close> of \<open>trap.rs\<close>); each
  wrapper of \<open>librust/syscalls\<close> is the registers it sets before \<open>ecall\<close> and what it reads from them after.
\<close>

section \<open>Registers\<close>

record GeneralRegisters =
  r_ra :: usize
  r_sp :: usize
  r_gp :: usize
  r_tp :: usize
  r_t0 :: usize
  r_t1 :: usize
  r_t2 :: usize
  r_s0 :: usize
  r_s1 :: usize
  r_a0 :: usize
  r_a1 :: usize
  r_a2 :: usize
  r_a3 :: usize
  r_a4 :: usize
  r_a5 :: usize
  r_a6 :: usize
  r_a7 :: usize
  r_s2 :: usize
  r_s3 :: usize
  r_s4 :: usize
  r_s5 :: usize
  r_s6 :: usize
  r_s7 :: usize
  r_s8 :: usize
  r_s9 :: usize
  r_s10 :: usize
  r_s11 :: usize
  r_t3 :: usize
  r_t4 :: usize
  r_t5 :: usize
  r_t6 :: usize

record TrapFrame =
  sepc :: usize
  registers :: GeneralRegisters

definition default_registers :: GeneralRegisters where
  "default_registers = \<lparr> r_ra = 0, r_sp = 0, r_gp = 0, r_tp = 0, r_t0 = 0, r_t1 = 0, r_t2 = 0, r_s0 = 0, r_s1 = 0, r_a0 = 0, r_a1 = 0,
     r_a2 = 0, r_a3 = 0, r_a4 = 0, r_a5 = 0, r_a6 = 0, r_a7 = 0, r_s2 = 0, r_s3 = 0, r_s4 = 0, r_s5 = 0, r_s6 = 0, r_s7 = 0, r_s8 = 0,
     r_s9 = 0, r_s10 = 0, r_s11 = 0, r_t3 = 0, r_t4 = 0, r_t5 = 0, r_t6 = 0 \<rparr>"

section \<open>Call numbers\<close>

datatype Syscall =
    Exit | DebugPrint | AllocateVirtualMemory | GetTid | ReadChannel | WriteChannel
  | AllocateDeviceAddressableMemory | CreateVmspace | AllocVmspaceObject | SpawnVmspace | ClaimDevice
  | QueryMemoryCapability | CompleteInterrupt | QueryMmioCapability | MintCapability | RevokeCapability
  | EnableNotifications | DeleteCapability | AllocateSharedMemory | DeallocateVirtualMemory

fun syscall_number :: "Syscall \<Rightarrow> usize" where
  "syscall_number Exit = 0"
| "syscall_number DebugPrint = 1"
| "syscall_number AllocateVirtualMemory = 4"
| "syscall_number GetTid = 5"
| "syscall_number ReadChannel = 7"
| "syscall_number WriteChannel = 9"
| "syscall_number AllocateDeviceAddressableMemory = 12"
| "syscall_number CreateVmspace = 13"
| "syscall_number AllocVmspaceObject = 14"
| "syscall_number SpawnVmspace = 15"
| "syscall_number ClaimDevice = 16"
| "syscall_number QueryMemoryCapability = 20"
| "syscall_number CompleteInterrupt = 21"
| "syscall_number QueryMmioCapability = 22"
| "syscall_number MintCapability = 23"
| "syscall_number RevokeCapability = 24"
| "syscall_number EnableNotifications = 25"
| "syscall_number DeleteCapability = 26"
| "syscall_number AllocateSharedMemory = 27"
| "syscall_number DeallocateVirtualMemory = 28"

definition from_usize :: "usize \<Rightarrow> Syscall option" where
  "from_usize n =
     (if n = 0 then Some Exit
      else if n = 1 then Some DebugPrint
      else if n = 4 then Some AllocateVirtualMemory
      else if n = 5 then Some GetTid
      else if n = 7 then Some ReadChannel
      else if n = 9 then Some WriteChannel
      else if n = 12 then Some AllocateDeviceAddressableMemory
      else if n = 13 then Some CreateVmspace
      else if n = 14 then Some AllocVmspaceObject
      else if n = 15 then Some SpawnVmspace
      else if n = 16 then Some ClaimDevice
      else if n = 20 then Some QueryMemoryCapability
      else if n = 21 then Some CompleteInterrupt
      else if n = 22 then Some QueryMmioCapability
      else if n = 23 then Some MintCapability
      else if n = 24 then Some RevokeCapability
      else if n = 25 then Some EnableNotifications
      else if n = 26 then Some DeleteCapability
      else if n = 27 then Some AllocateSharedMemory
      else if n = 28 then Some DeallocateVirtualMemory
      else None)"

section \<open>Errors\<close>

datatype SyscallError = InsufficientRights u32 | InvalidOperation u32 | InvalidArgument u32 | UnknownSyscall | WouldBlock

definition INSUFFICIENT_RIGHTS :: usize where "INSUFFICIENT_RIGHTS = 1"
definition INVALID_OPERATION :: usize where "INVALID_OPERATION = 2"
definition INVALID_ARGUMENT :: usize where "INVALID_ARGUMENT = 3"
definition WOULD_BLOCK :: usize where "WOULD_BLOCK = 4"
definition UNKNOWN_SYSCALL :: usize where "UNKNOWN_SYSCALL = 5"

lemmas error_kind_defs = INSUFFICIENT_RIGHTS_def INVALID_OPERATION_def INVALID_ARGUMENT_def WOULD_BLOCK_def UNKNOWN_SYSCALL_def

text \<open>A raw error is a register value that is not zero.\<close>

definition non_zero :: "usize \<Rightarrow> usize panics" where
  "non_zero n = (if n = 0 then panic else Some n)"

fun uncook :: "SyscallError \<Rightarrow> usize panics" where
  "uncook (InsufficientRights n) = non_zero (shl (ucast n) 8 OR INSUFFICIENT_RIGHTS)"
| "uncook (InvalidOperation n) = non_zero (shl (ucast n) 8 OR INVALID_OPERATION)"
| "uncook (InvalidArgument n) = non_zero (shl (ucast n) 8 OR INVALID_ARGUMENT)"
| "uncook UnknownSyscall = non_zero UNKNOWN_SYSCALL"
| "uncook WouldBlock = non_zero WOULD_BLOCK"

definition raw_optional :: "usize \<Rightarrow> usize option" where
  "raw_optional value = (if value = 0 then None else Some value)"

definition raw_kind :: "usize \<Rightarrow> usize" where
  "raw_kind e = e AND 0xFF"

definition raw_context :: "usize \<Rightarrow> usize" where
  "raw_context e = shr e 8"

definition cook :: "usize \<Rightarrow> SyscallError panics" where
  "cook e =
     (if raw_kind e = INSUFFICIENT_RIGHTS then Some (InsufficientRights (ucast (raw_context e)))
      else if raw_kind e = INVALID_OPERATION then Some (InvalidOperation (ucast (raw_context e)))
      else if raw_kind e = INVALID_ARGUMENT then Some (InvalidArgument (ucast (raw_context e)))
      else if raw_kind e = UNKNOWN_SYSCALL then Some UnknownSyscall
      else if raw_kind e = WOULD_BLOCK then Some WouldBlock
      else panic)"

section \<open>Capabilities, permissions and messages\<close>

type_synonym cptr = usize
type_synonym tid = usize
type_synonym rights = usize

definition RIGHT_NONE :: rights where "RIGHT_NONE = 0"
definition RIGHT_READ :: rights where "RIGHT_READ = 1"
definition RIGHT_WRITE :: rights where "RIGHT_WRITE = 2"
definition RIGHT_EXECUTE :: rights where "RIGHT_EXECUTE = 4"
definition RIGHT_GRANT :: rights where "RIGHT_GRANT = 8"

lemmas right_defs = RIGHT_NONE_def RIGHT_READ_def RIGHT_WRITE_def RIGHT_EXECUTE_def RIGHT_GRANT_def

definition rights_new :: "usize \<Rightarrow> rights" where
  "rights_new value = value AND 0xF"

definition is_superset :: "rights \<Rightarrow> rights \<Rightarrow> bool" where
  "is_superset self other \<longleftrightarrow> self OR NOT other = usize_max"

definition rights_bitor :: "rights \<Rightarrow> rights \<Rightarrow> rights" where
  "rights_bitor a b = a OR b"

definition rights_bitand :: "rights \<Rightarrow> rights \<Rightarrow> bool" where
  "rights_bitand a b \<longleftrightarrow> a AND b = b"

record UserCapability =
  uc_cptr :: cptr
  uc_rights :: rights

definition default_capability :: UserCapability where
  "default_capability = \<lparr> uc_cptr = usize_max, uc_rights = RIGHT_NONE \<rparr>"

type_synonym permissions = usize

definition PERM_READ :: permissions where "PERM_READ = 1"
definition PERM_WRITE :: permissions where "PERM_WRITE = 2"
definition PERM_EXECUTE :: permissions where "PERM_EXECUTE = 4"

lemmas perm_defs = PERM_READ_def PERM_WRITE_def PERM_EXECUTE_def

definition perms_bitor :: "permissions \<Rightarrow> permissions \<Rightarrow> permissions" where
  "perms_bitor a b = a OR b"

definition perms_bitand :: "permissions \<Rightarrow> permissions \<Rightarrow> bool" where
  "perms_bitand a b \<longleftrightarrow> a AND b = b"

datatype CapabilityDescription =
    DescChannel
  | DescMemory vaddr usize permissions
  | DescMappedMmio vaddr usize usize

record CapabilityWithDescription =
  cd_capability :: UserCapability
  cd_description :: CapabilityDescription

definition DMA_NONE :: usize where "DMA_NONE = 0"
definition DMA_ZERO :: usize where "DMA_ZERO = 2"

definition dma_bitand :: "usize \<Rightarrow> usize \<Rightarrow> bool" where
  "dma_bitand a b \<longleftrightarrow> a AND b = b"

definition READ_NONBLOCKING :: usize where "READ_NONBLOCKING = 1"

definition read_flags_bitand :: "usize \<Rightarrow> usize \<Rightarrow> bool" where
  "read_flags_bitand a b \<longleftrightarrow> a AND b = b"

definition KERNEL_CHANNEL :: cptr where "KERNEL_CHANNEL = 0"
definition PARENT_CHANNEL :: cptr where "PARENT_CHANNEL = 1"

definition KMSG_INTERRUPT_OCCURRED :: usize where "KMSG_INTERRUPT_OCCURRED = 0"
definition KMSG_NEW_CHANNEL_MESSAGE :: usize where "KMSG_NEW_CHANNEL_MESSAGE = 1"

datatype KernelMessage = InterruptOccurred usize | NewChannelMessage cptr

fun into_parts :: "KernelMessage \<Rightarrow> usize list" where
  "into_parts (InterruptOccurred n) = [KMSG_INTERRUPT_OCCURRED, n, 0, 0, 0, 0, 0]"
| "into_parts (NewChannelMessage c) = [KMSG_NEW_CHANNEL_MESSAGE, c, 0, 0, 0, 0, 0]"

definition construct :: "usize list \<Rightarrow> KernelMessage panics" where
  "construct parts =
     (if parts ! 0 = KMSG_INTERRUPT_OCCURRED then Some (InterruptOccurred (parts ! 1))
      else if parts ! 0 = KMSG_NEW_CHANNEL_MESSAGE then Some (NewChannelMessage (parts ! 1))
      else panic)"

section \<open>Wrappers of the system calls\<close>

definition syscall_ret :: "GeneralRegisters \<Rightarrow> 'a \<Rightarrow> (SyscallError + 'a) panics" where
  "syscall_ret r v = (case raw_optional (r_a0 r) of Some e \<Rightarrow> map_option Inl (cook e) | None \<Rightarrow> Some (Inr v))"

definition send_message_call :: "cptr \<Rightarrow> usize list \<Rightarrow> vaddr \<Rightarrow> usize \<Rightarrow> GeneralRegisters \<Rightarrow> GeneralRegisters" where
  "send_message_call c m caps_ptr caps_len r =
     r\<lparr>r_a0 := syscall_number WriteChannel, r_a1 := c, r_a2 := caps_ptr, r_a3 := caps_len, r_t0 := m ! 0, r_t1 := m ! 1,
       r_t2 := m ! 2, r_t3 := m ! 3, r_t4 := m ! 4, r_t5 := m ! 5, r_t6 := m ! 6\<rparr>"

definition send_message_ret :: "GeneralRegisters \<Rightarrow> (SyscallError + unit) panics" where
  "send_message_ret r = syscall_ret r ()"

record ReadResult =
  rr_message :: "usize list"
  rr_capabilities_read :: usize
  rr_capabilities_remaining :: usize

definition read_message_call :: "cptr \<Rightarrow> vaddr \<Rightarrow> usize \<Rightarrow> usize \<Rightarrow> GeneralRegisters \<Rightarrow> GeneralRegisters" where
  "read_message_call c buf_ptr buf_len flags r =
     r\<lparr>r_a0 := syscall_number ReadChannel, r_a1 := c, r_a2 := buf_ptr, r_a3 := buf_len, r_a4 := flags\<rparr>"

definition read_message_ret :: "GeneralRegisters \<Rightarrow> (SyscallError + ReadResult) panics" where
  "read_message_ret r = syscall_ret r
     \<lparr> rr_message = [r_t0 r, r_t1 r, r_t2 r, r_t3 r, r_t4 r, r_t5 r, r_t6 r],
       rr_capabilities_read = r_a1 r, rr_capabilities_remaining = r_a2 r \<rparr>"

text \<open>\<open>read_kernel_message\<close> unwraps the result.\<close>

definition read_kernel_message_ret :: "GeneralRegisters \<Rightarrow> KernelMessage panics" where
  "read_kernel_message_ret r = do {
     res \<leftarrow> read_message_ret r;
     (case res of Inl _ \<Rightarrow> panic | Inr rr \<Rightarrow> construct (rr_message rr))
   }"

definition query_memory_capability_call :: "cptr \<Rightarrow> GeneralRegisters \<Rightarrow> GeneralRegisters" where
  "query_memory_capability_call c r = r\<lparr>r_a0 := syscall_number QueryMemoryCapability, r_a1 := c\<rparr>"

definition query_memory_capability_ret :: "GeneralRegisters \<Rightarrow> (SyscallError + (vaddr \<times> usize \<times> permissions)) panics" where
  "query_memory_capability_ret r = syscall_ret r (r_a1 r, r_a2 r, r_a3 r)"

definition allocate_virtual_memory_call :: "usize \<Rightarrow> permissions \<Rightarrow> GeneralRegisters \<Rightarrow> GeneralRegisters" where
  "allocate_virtual_memory_call sz perms r = r\<lparr>r_a0 := syscall_number AllocateVirtualMemory, r_a1 := sz, r_a2 := perms\<rparr>"

definition allocate_virtual_memory_ret :: "GeneralRegisters \<Rightarrow> (SyscallError + (vaddr \<times> usize)) panics" where
  "allocate_virtual_memory_ret r = syscall_ret r (r_a1 r, r_a2 r)"

text \<open>As in the source, the wrapper for deallocation puts the number of the allocation call in \<open>a0\<close>.\<close>

definition deallocate_virtual_memory_call :: "vaddr \<Rightarrow> GeneralRegisters \<Rightarrow> GeneralRegisters" where
  "deallocate_virtual_memory_call at r = r\<lparr>r_a0 := syscall_number AllocateVirtualMemory, r_a1 := at\<rparr>"

definition deallocate_virtual_memory_ret :: "GeneralRegisters \<Rightarrow> (SyscallError + unit) panics" where
  "deallocate_virtual_memory_ret r = syscall_ret r ()"

definition allocate_shared_memory_call :: "usize \<Rightarrow> permissions \<Rightarrow> GeneralRegisters \<Rightarrow> GeneralRegisters" where
  "allocate_shared_memory_call sz perms r = r\<lparr>r_a0 := syscall_number AllocateSharedMemory, r_a1 := sz, r_a2 := perms\<rparr>"

definition allocate_shared_memory_ret :: "GeneralRegisters \<Rightarrow> (SyscallError + (cptr \<times> vaddr \<times> usize)) panics" where
  "allocate_shared_memory_ret r = syscall_ret r (r_a1 r, r_a2 r, r_a3 r)"

definition allocate_dma_call :: "usize \<Rightarrow> usize \<Rightarrow> GeneralRegisters \<Rightarrow> GeneralRegisters" where
  "allocate_dma_call sz options r =
     r\<lparr>r_a0 := syscall_number AllocateDeviceAddressableMemory, r_a1 := sz, r_a2 := options\<rparr>"

definition allocate_dma_ret :: "GeneralRegisters \<Rightarrow> (SyscallError + (paddr \<times> vaddr)) panics" where
  "allocate_dma_ret r = syscall_ret r (r_a1 r, r_a2 r)"

definition create_vmspace_call :: "GeneralRegisters \<Rightarrow> GeneralRegisters" where
  "create_vmspace_call r = r\<lparr>r_a0 := syscall_number CreateVmspace\<rparr>"

definition create_vmspace_ret :: "GeneralRegisters \<Rightarrow> (SyscallError + usize) panics" where
  "create_vmspace_ret r = syscall_ret r (r_a1 r)"

definition alloc_vmspace_object_call :: "usize \<Rightarrow> vaddr \<Rightarrow> usize \<Rightarrow> permissions \<Rightarrow> GeneralRegisters \<Rightarrow> GeneralRegisters" where
  "alloc_vmspace_object_call obj address sz perms r =
     r\<lparr>r_a0 := syscall_number AllocVmspaceObject, r_a1 := obj, r_a2 := address, r_a3 := sz, r_a4 := perms\<rparr>"

definition alloc_vmspace_object_ret :: "GeneralRegisters \<Rightarrow> (SyscallError + (vaddr \<times> vaddr)) panics" where
  "alloc_vmspace_object_ret r = syscall_ret r (r_a1 r, r_a2 r)"

record VmspaceSpawnEnv =
  env_pc :: usize
  env_a0 :: usize
  env_a1 :: usize
  env_a2 :: usize
  env_sp :: usize
  env_tp :: usize

definition spawn_vmspace_call :: "usize \<Rightarrow> vaddr \<Rightarrow> usize \<Rightarrow> VmspaceSpawnEnv \<Rightarrow> GeneralRegisters \<Rightarrow> GeneralRegisters" where
  "spawn_vmspace_call obj name_ptr name_len env r =
     r\<lparr>r_a0 := syscall_number SpawnVmspace, r_a1 := obj, r_a2 := name_ptr, r_a3 := name_len, r_t0 := env_pc env,
       r_t1 := env_a0 env, r_t2 := env_a1 env, r_t3 := env_a2 env, r_t4 := env_sp env, r_t5 := env_tp env\<rparr>"

definition spawn_vmspace_ret :: "GeneralRegisters \<Rightarrow> (SyscallError + cptr) panics" where
  "spawn_vmspace_ret r = syscall_ret r (r_a1 r)"

definition claim_device_call :: "vaddr \<Rightarrow> usize \<Rightarrow> GeneralRegisters \<Rightarrow> GeneralRegisters" where
  "claim_device_call node_ptr node_len r = r\<lparr>r_a0 := syscall_number ClaimDevice, r_a1 := node_ptr, r_a2 := node_len\<rparr>"

definition claim_device_ret :: "GeneralRegisters \<Rightarrow> (SyscallError + cptr) panics" where
  "claim_device_ret r = syscall_ret r (r_a1 r)"

definition complete_interrupt_call :: "usize \<Rightarrow> GeneralRegisters \<Rightarrow> GeneralRegisters" where
  "complete_interrupt_call interrupt_id r = r\<lparr>r_a0 := syscall_number CompleteInterrupt, r_a1 := interrupt_id\<rparr>"

definition complete_interrupt_ret :: "GeneralRegisters \<Rightarrow> (SyscallError + unit) panics" where
  "complete_interrupt_ret r = syscall_ret r ()"

record MmioCapabilityInfo =
  mc_address :: vaddr
  mc_len :: usize
  mc_n_interrupts :: usize

definition query_mmio_cap_call :: "cptr \<Rightarrow> vaddr \<Rightarrow> usize \<Rightarrow> GeneralRegisters \<Rightarrow> GeneralRegisters" where
  "query_mmio_cap_call c buf_ptr buf_len r =
     r\<lparr>r_a0 := syscall_number QueryMmioCapability, r_a1 := c, r_a2 := buf_ptr, r_a3 := buf_len\<rparr>"

definition query_mmio_cap_ret :: "GeneralRegisters \<Rightarrow> (SyscallError + (MmioCapabilityInfo \<times> usize)) panics" where
  "query_mmio_cap_ret r = syscall_ret r
     (\<lparr> mc_address = r_a1 r, mc_len = r_a2 r, mc_n_interrupts = r_a3 r \<rparr>, r_a4 r)"

definition debug_print_call :: "vaddr \<Rightarrow> usize \<Rightarrow> GeneralRegisters \<Rightarrow> GeneralRegisters" where
  "debug_print_call ptr len r = r\<lparr>r_a0 := syscall_number DebugPrint, r_a1 := ptr, r_a2 := len\<rparr>"

definition debug_print_ret :: "GeneralRegisters \<Rightarrow> (SyscallError + unit) panics" where
  "debug_print_ret r = syscall_ret r ()"

definition exit_call :: "GeneralRegisters \<Rightarrow> GeneralRegisters" where
  "exit_call r = r\<lparr>r_a0 := syscall_number Exit\<rparr>"

definition current_tid_call :: "GeneralRegisters \<Rightarrow> GeneralRegisters" where
  "current_tid_call r = r\<lparr>r_a0 := syscall_number GetTid\<rparr>"

definition current_tid_ret :: "GeneralRegisters \<Rightarrow> tid panics" where
  "current_tid_ret r = (case raw_optional (r_a0 r) of Some _ \<Rightarrow> panic | None \<Rightarrow> non_zero (r_a1 r))"

definition enable_notifications_call :: "GeneralRegisters \<Rightarrow> GeneralRegisters" where
  "enable_notifications_call r = r\<lparr>r_a0 := syscall_number EnableNotifications\<rparr>"

definition delete_call :: "cptr \<Rightarrow> GeneralRegisters \<Rightarrow> GeneralRegisters" where
  "delete_call c r = r\<lparr>r_a0 := syscall_number DeleteCapability, r_a1 := c\<rparr>"

definition delete_ret :: "GeneralRegisters \<Rightarrow> (SyscallError + unit) panics" where
  "delete_ret r = syscall_ret r ()"

section \<open>Round trips\<close>

lemma raw_parts:
  fixes n :: u32 and k :: usize
  assumes "k < 0x100"
  shows "raw_kind (shl (ucast n) 8 OR k) = k" "ucast (raw_context (shl (ucast n) 8 OR k)) = n"
proof -
  have "unat (k AND mask 8) = unat k"
    using assms by (simp add: unat_and_mask word_less_nat_alt)
  then have "k AND mask 8 = k" by (simp add: word_unat_eq_iff)
  then have k: "bit k i \<Longrightarrow> i < 8" for i by (metis bit_and_iff bit_mask_iff)
  have m: "(0xFF :: usize) = mask 8" by (simp add: mask_eq_exp_minus_1)
  show "raw_kind (shl (ucast n) 8 OR k) = k"
    unfolding raw_kind_def m
    by (rule bit_eqI) (auto simp: bit_and_iff bit_or_iff bit_mask_iff shl_def bit_push_bit_iff dest: k)
  show "ucast (raw_context (shl (ucast n) 8 OR k)) = n"
    unfolding raw_context_def shl_def shr_def
    by (rule bit_eqI) (auto simp: bit_drop_bit_eq bit_or_iff bit_push_bit_iff bit_unsigned_iff dest: k)
qed


lemma uncook_cook: "\<exists>raw. uncook e = Some raw \<and> raw \<noteq> 0 \<and> cook raw = Some e"
proof -
  have nz: "shl (ucast n) 8 OR k \<noteq> (0 :: usize)" if "k \<noteq> 0" for n :: u32 and k :: usize
    using that by (simp add: or_eq_0_iff)
  have k: "raw_kind 4 = 4" "raw_kind 5 = 5" by (simp_all add: raw_kind_def)
  show ?thesis
    by (cases e) (simp_all add: non_zero_def cook_def error_kind_defs raw_parts nz k)
qed

text \<open>
  C28. An error survives the trip through a register: \<open>uncook\<close> never panics, its value is not zero, so a
  caller does not take it for success, and \<open>cook\<close> gives the same error back.
\<close>

theorem syscall_error_roundtrip:
  "\<exists>raw. uncook e = Some raw \<and> raw_optional raw = Some raw \<and> cook raw = Some e"
  using uncook_cook [of e] by (auto simp: raw_optional_def)

text \<open>
  C29. The numbers of the system calls: \<open>Syscall::from_usize\<close> accepts exactly the discriminants of the
  enumeration and gives back the call of that number.
\<close>

theorem syscall_number_roundtrip: "from_usize n = Some c \<longleftrightarrow> n = syscall_number c"
proof
  assume "from_usize n = Some c"
  then show "n = syscall_number c" unfolding from_usize_def by (auto split: if_splits)
next
  assume "n = syscall_number c"
  then show "from_usize n = Some c" by (cases c) (simp_all add: from_usize_def)
qed

lemma kernel_message_roundtrip: "construct (into_parts m) = Some m"
  by (cases m) (simp_all add: construct_def KMSG_INTERRUPT_OCCURRED_def KMSG_NEW_CHANNEL_MESSAGE_def)

lemma is_superset_iff: "is_superset a b \<longleftrightarrow> rights_bitand a b"
proof -
  have "a OR NOT b = - 1 \<longleftrightarrow> (\<forall>i < 64. bit b i \<longrightarrow> bit a i)"
    by (auto simp: bit_eq_iff bit_or_iff bit_not_iff)
  moreover have "a AND b = b \<longleftrightarrow> (\<forall>i < 64. bit b i \<longrightarrow> bit a i)"
    by (auto simp: bit_eq_iff bit_and_iff)
  ultimately show ?thesis by (simp add: is_superset_def rights_bitand_def usize_max_def)
qed

text \<open>The wrapper for deallocation asks the kernel for an allocation.\<close>

lemma deallocate_wrapper_allocates:
  "from_usize (r_a0 (deallocate_virtual_memory_call at r)) = Some AllocateVirtualMemory"
  by (simp add: deallocate_virtual_memory_call_def from_usize_def)

end
