(* ===== verification/Btree_Map.thy ===== *)
theory Btree_Map
  imports Prelude
begin

text \<open>
  The part of \<open>alloc::collections::BTreeMap\<close> the kernel uses, as an association list that is
  strictly sorted by its keys: \<open>insert\<close>, \<open>remove\<close>, \<open>get\<close>, \<open>range(x..).next()\<close>,
  \<open>range(..x).next()\<close>, and the last key. The locale \<open>ordered_map\<close> is what clients rely on.
\<close>

type_synonym ('k, 'v) btree = "('k \<times> 'v) list"

fun bt_insert :: "'k::linorder \<Rightarrow> 'v \<Rightarrow> ('k, 'v) btree \<Rightarrow> ('k, 'v) btree" where
  "bt_insert k v [] = [(k, v)]"
| "bt_insert k v ((k', v') # m) =
     (if k < k' then (k, v) # (k', v') # m
      else if k = k' then (k, v) # m
      else (k', v') # bt_insert k v m)"

fun bt_remove :: "'k::linorder \<Rightarrow> ('k, 'v) btree \<Rightarrow> ('k, 'v) btree" where
  "bt_remove k [] = []"
| "bt_remove k ((k', v') # m) = (if k = k' then m else (k', v') # bt_remove k m)"

definition bt_get :: "('k::linorder, 'v) btree \<Rightarrow> 'k \<Rightarrow> 'v option" where
  "bt_get m k = map_of m k"

text \<open>The first entry with a key of at least \<open>x\<close>, and the first of all if its key is below \<open>x\<close>.\<close>

fun bt_range_from :: "('k::linorder, 'v) btree \<Rightarrow> 'k \<Rightarrow> ('k \<times> 'v) option" where
  "bt_range_from [] x = None"
| "bt_range_from ((k, v) # m) x = (if x \<le> k then Some (k, v) else bt_range_from m x)"

fun bt_range_to :: "('k::linorder, 'v) btree \<Rightarrow> 'k \<Rightarrow> ('k \<times> 'v) option" where
  "bt_range_to [] x = None"
| "bt_range_to ((k, v) # m) x = (if k < x then Some (k, v) else None)"

fun bt_last :: "('k::linorder, 'v) btree \<Rightarrow> ('k \<times> 'v) option" where
  "bt_last [] = None"
| "bt_last (kv # m) = Some (last (kv # m))"

definition bt_ok :: "('k::linorder, 'v) btree \<Rightarrow> bool" where
  "bt_ok m \<longleftrightarrow> sorted_wrt (<) (map fst m)"

section \<open>Laws\<close>

lemma bt_ok_Nil [simp]: "bt_ok []"
  by (simp add: bt_ok_def)

lemma bt_ok_Cons: "bt_ok ((k, v) # m) \<longleftrightarrow> (\<forall>k' \<in> set (map fst m). k < k') \<and> bt_ok m"
  by (auto simp: bt_ok_def)

lemma bt_ok_distinct: "bt_ok m \<Longrightarrow> distinct (map fst m)"
  by (simp add: bt_ok_def strict_sorted_iff)

lemma keys_bt_insert [simp]: "set (map fst (bt_insert k v m)) = insert k (set (map fst m))"
  by (induction k v m rule: bt_insert.induct) auto

lemma bt_ok_insert: "bt_ok m \<Longrightarrow> bt_ok (bt_insert k v m)"
proof (induction k v m rule: bt_insert.induct)
  case (2 k v k' v' m)
  have ok: "\<forall>x \<in> set (map fst m). k' < x" "bt_ok m" using 2(2) by (auto simp: bt_ok_Cons)
  consider "k < k'" | "k = k'" | "k' < k" by (rule linorder_cases)
  then show ?case
  proof cases
    case 1
    then show ?thesis using ok by (auto simp: bt_ok_Cons)
  next
    case 2
    then show ?thesis using ok by (auto simp: bt_ok_Cons)
  next
    case 3
    then have "bt_ok (bt_insert k v m)" using 2(1) ok(2) by auto
    then show ?thesis using 3 ok(1) keys_bt_insert [of k v m] by (auto simp: bt_ok_Cons)
  qed
qed (simp add: bt_ok_Cons)

lemma map_of_below: "bt_ok ((k, v) # m) \<Longrightarrow> k' \<le> k \<Longrightarrow> map_of m k' = None"
  by (force simp: bt_ok_Cons map_of_eq_None_iff)

lemma map_of_bt_insert: "bt_ok m \<Longrightarrow> map_of (bt_insert k v m) = (map_of m)(k \<mapsto> v)"
  by (induction k v m rule: bt_insert.induct) (auto simp: bt_ok_Cons fun_eq_iff)

lemma keys_bt_remove: "bt_ok m \<Longrightarrow> set (map fst (bt_remove k m)) = set (map fst m) - {k}"
  by (induction k m rule: bt_remove.induct) (auto simp: bt_ok_Cons)

lemma bt_ok_remove: "bt_ok m \<Longrightarrow> bt_ok (bt_remove k m)"
proof (induction k m rule: bt_remove.induct)
  case (2 k k' v' m)
  then show ?case using keys_bt_remove [of m k] by (auto simp: bt_ok_Cons)
qed simp

lemma map_of_bt_remove: "bt_ok m \<Longrightarrow> map_of (bt_remove k m) = (map_of m)(k := None)"
proof (induction k m rule: bt_remove.induct)
  case (2 k k' v' m)
  then show ?case using map_of_below [of k' v' m k'] by (auto simp: bt_ok_Cons fun_eq_iff)
qed (simp add: fun_eq_iff)

lemma length_bt_remove_le: "length (bt_remove k m) \<le> length m"
  by (induction k m rule: bt_remove.induct) auto

lemma length_bt_remove: "k \<in> set (map fst m) \<Longrightarrow> length (bt_remove k m) < length m"
  by (induction k m rule: bt_remove.induct) auto

lemma bt_range_from_Some:
  "bt_range_from m x = Some (k, v) \<Longrightarrow> (k, v) \<in> set m \<and> x \<le> k"
  by (induction m x rule: bt_range_from.induct) (auto split: if_splits)

lemma bt_range_from_least:
  "bt_ok m \<Longrightarrow> bt_range_from m x = Some (k, v) \<Longrightarrow> k' \<in> set (map fst m) \<Longrightarrow> x \<le> k' \<Longrightarrow> k \<le> k'"
  by (induction m x rule: bt_range_from.induct) (auto simp: bt_ok_Cons split: if_splits)

lemma bt_range_from_None: "bt_range_from m x = None \<longleftrightarrow> (\<forall>k \<in> set (map fst m). k < x)"
  by (induction m x rule: bt_range_from.induct) auto

lemma bt_range_to_Some: "bt_range_to m x = Some (k, v) \<Longrightarrow> (k, v) \<in> set m \<and> k < x"
  by (cases m) (auto split: if_splits)

lemma bt_range_to_least: "bt_ok m \<Longrightarrow> bt_range_to m x = Some (k, v) \<Longrightarrow> k' \<in> set (map fst m) \<Longrightarrow> k \<le> k'"
  by (cases m) (force simp: bt_ok_Cons split: if_splits)+

lemma bt_last_Some:
  "bt_last m = Some (k, v) \<Longrightarrow> bt_ok m \<Longrightarrow> (k, v) \<in> set m \<and> (\<forall>k' \<in> set (map fst m). k' \<le> k)"
proof (induction m)
  case (Cons kv m)
  show ?case
  proof (cases m)
    case Nil
    then show ?thesis using Cons.prems by auto
  next
    case (Cons kv' m')
    then have "bt_last m = Some (k, v)" using Cons.prems(1) by simp
    moreover have "bt_ok m" using Cons.prems(2) by (cases kv) (simp add: bt_ok_Cons)
    ultimately have "(k, v) \<in> set m \<and> (\<forall>k' \<in> set (map fst m). k' \<le> k)" using Cons.IH by simp
    then show ?thesis using Cons.prems(2) by (cases kv) (force simp: bt_ok_Cons)
  qed
qed simp

lemma bt_last_None [simp]: "bt_last m = None \<longleftrightarrow> m = []"
  by (cases m) auto

section \<open>The interface\<close>

locale ordered_map =
  fixes insert :: "'k::linorder \<Rightarrow> 'v \<Rightarrow> 'm \<Rightarrow> 'm"
    and remove :: "'k \<Rightarrow> 'm \<Rightarrow> 'm"
    and get :: "'m \<Rightarrow> 'k \<Rightarrow> 'v option"
    and max_key :: "'m \<Rightarrow> ('k \<times> 'v) option"
    and ok :: "'m \<Rightarrow> bool"
  assumes ok_insert: "ok m \<Longrightarrow> ok (insert k v m)"
    and ok_remove: "ok m \<Longrightarrow> ok (remove k m)"
    and get_insert: "ok m \<Longrightarrow> get (insert k v m) = (get m)(k \<mapsto> v)"
    and get_remove: "ok m \<Longrightarrow> get (remove k m) = (get m)(k := None)"
    and max_key_bound: "ok m \<Longrightarrow> get m k = Some v \<Longrightarrow> \<exists>k' v'. max_key m = Some (k', v') \<and> k \<le> k'"
    and max_key_get: "ok m \<Longrightarrow> max_key m = Some (k, v) \<Longrightarrow> get m k = Some v"
begin

lemma insert_remove: "ok m \<Longrightarrow> get m k = None \<Longrightarrow> get (remove k (insert k v m)) = get m"
  by (simp add: get_remove ok_insert get_insert fun_eq_iff)

lemma above_max_fresh:
  assumes "ok m" "max_key m = Some (k, v)" "k < k'"
  shows "get m k' = None"
proof (rule ccontr)
  assume "get m k' \<noteq> None"
  then obtain v' where "get m k' = Some v'" by auto
  from max_key_bound [OF assms(1) this] assms(2,3) show False by auto
qed

lemma empty_max: "ok m \<Longrightarrow> max_key m = None \<Longrightarrow> get m k = None"
  using max_key_bound [of m k] by (cases "get m k") auto

end

interpretation bt: ordered_map bt_insert bt_remove bt_get bt_last bt_ok
proof
  fix m :: "('k::linorder, 'v) btree" and k v
  assume ok: "bt_ok m"
  show "bt_ok (bt_insert k v m)" "bt_ok (bt_remove k m)"
    using ok by (rule bt_ok_insert, rule bt_ok_remove)
  show "bt_get (bt_insert k v m) = (bt_get m)(k \<mapsto> v)" "bt_get (bt_remove k m) = (bt_get m)(k := None)"
    using ok by (simp_all add: bt_get_def fun_eq_iff map_of_bt_insert map_of_bt_remove)
  show "\<exists>k' v'. bt_last m = Some (k', v') \<and> k \<le> k'" if "bt_get m k = Some v"
  proof -
    have km: "k \<in> set (map fst m)" using that by (metis bt_get_def map_of_eq_None_iff option.distinct(1) set_map)
    then have "bt_last m \<noteq> None" by auto
    then obtain k' v' where l: "bt_last m = Some (k', v')" by (cases "bt_last m") auto
    then show ?thesis using bt_last_Some [OF l ok] km by auto
  qed
  show "bt_get m k = Some v" if "bt_last m = Some (k, v)"
    using bt_last_Some [OF that ok] bt_ok_distinct [OF ok] by (simp add: bt_get_def)
qed

end
