(* ===== verification/Frame_Allocator.thy ===== *)
theory Frame_Allocator
  imports Paging_Repr
begin

text \<open>
  The contract of the trait \<open>PhysicalMemoryAllocator\<close>
  (\<open>src/kernel/vanadinite/src/mem/phys/mod.rs\<close>) for single 4 KiB pages, as a locale, and its
  clients: the allocation and release loops of \<open>UniquePhysicalRegion\<close>
  (\<open>mem/region.rs\<close>) and histories of calls. The trait documents that \<open>alloc\<close> must not return
  the same page again before it has been deallocated; \<open>no_reuse\<close> is that statement.
\<close>

section \<open>Clients\<close>

text \<open>The \<open>for\<close> loop of \<open>alloc_sparse\<close>: \<open>expect\<close> panics when memory runs out.\<close>

fun alloc_loop :: "('s \<Rightarrow> (paddr option \<times> 's) panics) \<Rightarrow> nat \<Rightarrow> 's \<Rightarrow> (paddr list \<times> 's) panics" where
  "alloc_loop al 0 s = Some ([], s)"
| "alloc_loop al (Suc n) s = do {
     (r, s') \<leftarrow> al s;
     p \<leftarrow> r;
     (ps, s'') \<leftarrow> alloc_loop al n s';
     Some (p # ps, s'')
   }"

text \<open>The \<open>for\<close> loop of \<open>Drop for UniquePhysicalRegion\<close>.\<close>

fun drain_loop :: "('s \<Rightarrow> paddr \<Rightarrow> 's panics) \<Rightarrow> paddr list \<Rightarrow> 's \<Rightarrow> 's panics" where
  "drain_loop de [] s = Some s"
| "drain_loop de (p # ps) s = do { s' \<leftarrow> de s p; drain_loop de ps s' }"

text \<open>Histories of calls that returned normally.\<close>

datatype frame_event = Alloc paddr | Dealloc paddr

inductive history ::
  "('s \<Rightarrow> (paddr option \<times> 's) panics) \<Rightarrow> ('s \<Rightarrow> paddr \<Rightarrow> 's panics) \<Rightarrow> 's \<Rightarrow> frame_event list \<Rightarrow> 's \<Rightarrow> bool"
  for al de where
  history_nil: "history al de s [] s"
| history_alloc: "history al de s es s' \<Longrightarrow> al s' = Some (Some p, s'') \<Longrightarrow>
    history al de s (es @ [Alloc p]) s''"
| history_full: "history al de s es s' \<Longrightarrow> al s' = Some (None, s'') \<Longrightarrow> history al de s es s''"
| history_dealloc: "history al de s es s' \<Longrightarrow> p mod 4096 = 0 \<Longrightarrow> de s' p = Some s'' \<Longrightarrow>
    history al de s (es @ [Dealloc p]) s''"

fun held :: "paddr set \<Rightarrow> frame_event list \<Rightarrow> paddr set" where
  "held H [] = H"
| "held H (Alloc p # es) = held (insert p H) es"
| "held H (Dealloc p # es) = held (H - {p}) es"

lemma held_append: "held H (es @ fs) = held (held H es) fs"
  by (induction H es rule: held.induct) auto

lemma held_keeps: "p \<in> H \<Longrightarrow> Dealloc p \<notin> set es \<Longrightarrow> p \<in> held H es"
  by (induction H es rule: held.induct) auto

section \<open>The contract\<close>

locale frame_allocator =
  fixes falloc :: "'s \<Rightarrow> (paddr option \<times> 's) panics"
    and fdealloc :: "'s \<Rightarrow> paddr \<Rightarrow> 's panics"
    and owned :: "'s \<Rightarrow> paddr set"
    and inv :: "'s \<Rightarrow> bool"
  assumes falloc_total: "inv s \<Longrightarrow> \<exists>r s'. falloc s = Some (r, s')"
    and falloc_None: "inv s \<Longrightarrow> falloc s = Some (None, s') \<Longrightarrow> s' = s"
    and falloc_Some: "inv s \<Longrightarrow> falloc s = Some (Some p, s') \<Longrightarrow>
          p mod 4096 = 0 \<and> p \<notin> owned s \<and> owned s' = insert p (owned s) \<and> inv s'"
    and fdealloc_owned: "inv s \<Longrightarrow> p \<in> owned s \<Longrightarrow>
          \<exists>s'. fdealloc s p = Some s' \<and> owned s' = owned s - {p} \<and> inv s'"
    and fdealloc_unowned: "inv s \<Longrightarrow> p mod 4096 = 0 \<Longrightarrow> p \<notin> owned s \<Longrightarrow> fdealloc s p = None"
begin

lemma alloc_loop_fresh:
  "inv s \<Longrightarrow> alloc_loop falloc n s = Some (ps, s') \<Longrightarrow>
   length ps = n \<and> distinct ps \<and> set ps \<inter> owned s = {} \<and> owned s' = owned s \<union> set ps \<and> inv s' \<and>
   (\<forall>p \<in> set ps. p mod 4096 = 0)"
proof (induction n arbitrary: s ps)
  case (Suc n)
  from Suc.prems(2) obtain p s1 ps1 where
    a: "falloc s = Some (Some p, s1)" "alloc_loop falloc n s1 = Some (ps1, s')" "ps = p # ps1"
    by (auto split: bind_splits)
  note f = falloc_Some [OF Suc.prems(1) a(1)]
  from Suc.IH [OF _ a(2)] f show ?case unfolding a(3) by auto
qed simp

lemma drain_loop_owned:
  "inv s \<Longrightarrow> distinct ps \<Longrightarrow> set ps \<subseteq> owned s \<Longrightarrow>
   \<exists>s'. drain_loop fdealloc ps s = Some s' \<and> owned s' = owned s - set ps \<and> inv s'"
proof (induction ps arbitrary: s)
  case (Cons p ps)
  then obtain s1 where s1: "fdealloc s p = Some s1" "owned s1 = owned s - {p}" "inv s1"
    using fdealloc_owned [of s p] by auto
  moreover obtain s2 where "drain_loop fdealloc ps s1 = Some s2" "owned s2 = owned s1 - set ps" "inv s2"
    using Cons.IH [of s1] Cons.prems s1 by auto
  ultimately show ?case by auto
qed simp

lemma alloc_drain:
  assumes "inv s" "alloc_loop falloc n s = Some (ps, s')"
  shows "\<exists>s''. drain_loop fdealloc ps s' = Some s'' \<and> owned s'' = owned s \<and> inv s''"
proof -
  note a = alloc_loop_fresh [OF assms]
  then obtain s'' where "drain_loop fdealloc ps s' = Some s''" "owned s'' = owned s' - set ps" "inv s''"
    using drain_loop_owned [of s' ps] by auto
  with a show ?thesis by auto
qed

lemma history_owned:
  "history falloc fdealloc s es s' \<Longrightarrow> inv s \<Longrightarrow> owned s' = held (owned s) es \<and> inv s'"
proof (induction rule: history.induct)
  case (history_alloc s es s' p s'')
  then show ?case using falloc_Some [of s' p s''] by (simp add: held_append)
next
  case (history_full s es s' s'')
  then show ?case using falloc_None [of s' s''] by simp
next
  case (history_dealloc s es s' p s'')
  then have "p \<in> owned s'" using fdealloc_unowned [of s' p] by (cases "p \<in> owned s'") auto
  then show ?case using history_dealloc fdealloc_owned [of s' p] by (auto simp: held_append)
qed simp

lemma history_last_alloc:
  assumes "history falloc fdealloc s es s'" "es = fs @ [Alloc p]" "inv s"
  shows "p \<notin> held (owned s) fs"
  using assms
proof (induction arbitrary: fs rule: history.induct)
  case (history_alloc s es s' q s'')
  then have "owned s' = held (owned s) fs" "inv s'" using history_owned [of s es s'] by auto
  moreover have "falloc s' = Some (Some p, s'')" using history_alloc by simp
  ultimately show ?case using falloc_Some [of s' p s''] by auto
qed auto

lemma no_reuse:
  assumes "inv s" "history falloc fdealloc s (es @ Alloc p # fs @ [Alloc p]) s'"
  shows "Dealloc p \<in> set fs"
proof (rule ccontr)
  assume n: "Dealloc p \<notin> set fs"
  have "p \<notin> held (owned s) (es @ Alloc p # fs)"
    by (rule history_last_alloc [OF assms(2) _ assms(1)]) simp
  moreover have "p \<in> held (owned s) (es @ Alloc p # fs)"
    using n by (simp add: held_append held_keeps)
  ultimately show False by simp
qed

end

end
