(* ===== verification/Phys_Bitmap.thy ===== *)
theory Phys_Bitmap
  imports Paging_Repr Frame_Allocator
begin

text \<open>
  The physical page allocator, \<open>src/kernel/vanadinite/src/mem/phys/bitmap.rs\<close> and
  \<open>phys/mod.rs\<close>. The allocator's state holds the bitmap slice as a list of 64-bit entries
  (\<open>size\<close> is its length), one bit per 4 KiB page counted from \<open>mem_start\<close>.

  Indices into the bitmap are naturals; addresses are words and wrap as in the source.
\<close>

section \<open>State\<close>

record BitmapAllocator =
  bitmap :: "u64 list"
  mem_start :: usize
  mem_end :: usize

definition bitmap_new :: BitmapAllocator where
  "bitmap_new = \<lparr> bitmap = [], mem_start = 0, mem_end = 0 \<rparr>"

definition SINGLE_ENTRY_SIZE_BYTES :: usize where
  "SINGLE_ENTRY_SIZE_BYTES = 64 * 4096"

definition page_from_ptr :: "usize \<Rightarrow> paddr panics" where
  "page_from_ptr ptr = do { ensure (ptr mod 4096 = 0); Some ptr }"

text \<open>Rust iterators the source uses: \<open>iter().enumerate().find(p)\<close> and \<open>slice.get(a..b)\<close>.\<close>

fun find_enum :: "('a \<Rightarrow> bool) \<Rightarrow> nat \<Rightarrow> 'a list \<Rightarrow> (nat \<times> 'a) option" where
  "find_enum P i [] = None"
| "find_enum P i (x # xs) = (if P x then Some (i, x) else find_enum P (Suc i) xs)"

definition slice_get :: "'a list \<Rightarrow> nat \<Rightarrow> nat \<Rightarrow> 'a list option" where
  "slice_get xs a b = (if a \<le> b \<and> b \<le> length xs then Some (take (b - a) (drop a xs)) else None)"

definition slice_fill :: "'a list \<Rightarrow> nat \<Rightarrow> nat \<Rightarrow> 'a \<Rightarrow> 'a list" where
  "slice_fill xs a b v = take a xs @ replicate (b - a) v @ drop b xs"

section \<open>Contiguous allocation of 4 KiB pages\<close>

definition entry_ptr :: "usize \<Rightarrow> nat \<Rightarrow> usize" where
  "entry_ptr start index = start + of_nat index * SINGLE_ENTRY_SIZE_BYTES"

text \<open>The search for a run of \<open>n\<close> clear bits inside one entry.\<close>

definition find_bit_index :: "nat \<Rightarrow> u64 \<Rightarrow> u64 \<Rightarrow> nat option" where
  "find_bit_index n msk entry =
     find (\<lambda>i. shr entry i OR msk = msk) [0..<64 - n]"

text \<open>
  The \<open>for\<close> loop over the entries: \<open>done\<close> holds the entries already passed. An entry whose
  run lies at or beyond \<open>mem_end\<close> is marked all the same and the loop goes on.
\<close>

fun intra_loop :: "usize \<Rightarrow> usize \<Rightarrow> nat \<Rightarrow> u64 \<Rightarrow> nat \<Rightarrow> u64 list \<Rightarrow> (paddr option \<times> u64 list) panics" where
  "intra_loop start stop n msk index [] = Some (None, [])"
| "intra_loop start stop n msk index (entry # rest) =
     (case (if n \<le> count_zeros entry then find_bit_index n msk entry else None) of
        None \<Rightarrow>
          do { (r, rest') \<leftarrow> intra_loop start stop n msk (Suc index) rest;
               Some (r, entry # rest') }
      | Some bit_index \<Rightarrow>
          (let entry' = entry OR word_rotl bit_index (NOT msk);
               page_ptr = entry_ptr start index + of_nat bit_index * 4096
           in if page_ptr < stop
              then do { p \<leftarrow> page_from_ptr page_ptr; Some (Some p, entry' # rest) }
              else do { (r, rest') \<leftarrow> intra_loop start stop n msk (Suc index) rest;
                        Some (r, entry' # rest') }))"

definition alloc_contig_4k_intra_pages ::
  "BitmapAllocator \<Rightarrow> nat \<Rightarrow> (paddr option \<times> BitmapAllocator) panics" where
  "alloc_contig_4k_intra_pages b n =
     (let msk = shl (- 1) n in
      if n = 64 then
        (case find_enum (\<lambda>e. e = 0) 0 (bitmap b) of
           None \<Rightarrow> Some (None, b)
         | Some (index, _) \<Rightarrow>
             (let b' = b\<lparr>bitmap := (bitmap b)[index := - 1]\<rparr>;
                  page_ptr = entry_ptr (mem_start b) index
              in if page_ptr < mem_end b
                 then do { p \<leftarrow> page_from_ptr page_ptr; Some (Some p, b') }
                 else Some (None, b')))
      else do {
        (r, bm) \<leftarrow> intra_loop (mem_start b) (mem_end b) n msk 0 (bitmap b);
        Some (r, b\<lparr>bitmap := bm\<rparr>)
      })"

text \<open>
  The \<open>loop\<close> of \<open>alloc_contig_4k_inter_pages\<close>; a \<open>get\<close> out of bounds returns \<open>None\<close> from the
  function.
\<close>

function inter_loop :: "BitmapAllocator \<Rightarrow> nat \<Rightarrow> nat \<Rightarrow> nat \<Rightarrow> (paddr option \<times> BitmapAllocator) panics" where
  "inter_loop b whole last_bits start_index =
     (let range_end = start_index + whole in
      case slice_get (bitmap b) start_index range_end of
        None \<Rightarrow> Some (None, b)
      | Some es \<Rightarrow>
          if list_ex (\<lambda>e. e \<noteq> 0) es then inter_loop b whole last_bits (start_index + whole)
          else if last_bits \<noteq> 0 \<and> \<not> range_end < length (bitmap b) then Some (None, b)
          else if last_bits \<noteq> 0 \<and> leading_zeros (bitmap b ! range_end) < last_bits
          then inter_loop b whole last_bits (range_end + 1)
          else
            (let page_ptr = entry_ptr (mem_start b) start_index in
             if page_ptr < mem_end b then
               (let bm = slice_fill (bitmap b) start_index range_end (- 1);
                    bm' = (if 0 < last_bits
                           then bm[range_end := bm ! range_end OR NOT (shl (- 1) last_bits)]
                           else bm)
                in do { p \<leftarrow> page_from_ptr page_ptr; Some (Some p, b\<lparr>bitmap := bm'\<rparr>) })
             else Some (None, b)))"
  by pat_completeness auto
termination
proof (relation "measure (\<lambda>(b, whole, last_bits, i). length (bitmap b) - i)", goal_cases)
  case 1
  show ?case by simp
next
  case (2 b whole last_bits i x es)
  then have "i + whole \<le> length (bitmap b)" "0 < whole"
    by (auto simp: slice_get_def split: if_splits intro: gr0I)
  then show ?case by simp
next
  case (3 b whole last_bits i x es)
  then show ?case by auto
qed

definition alloc_contig_4k_inter_pages ::
  "BitmapAllocator \<Rightarrow> nat \<Rightarrow> (paddr option \<times> BitmapAllocator) panics" where
  "alloc_contig_4k_inter_pages b n = inter_loop b (n div 64) (n mod 64) 0"

section \<open>Aligned runs of large pages\<close>

text \<open>\<open>align_offset\<close> of a byte pointer: the distance to the next multiple of \<open>align\<close>.\<close>

definition align_offset :: "usize \<Rightarrow> usize \<Rightarrow> usize" where
  "align_offset ptr align = (align - ptr mod align) mod align"

function mega_search :: "u64 list \<Rightarrow> nat \<Rightarrow> nat \<Rightarrow> nat option" where
  "mega_search bm n_entries start_index =
     (case slice_get bm start_index (start_index + n_entries) of
        None \<Rightarrow> None
      | Some es \<Rightarrow>
          if list_ex (\<lambda>n. count_ones n \<noteq> 0) es
          then mega_search bm n_entries (start_index + n_entries)
          else Some start_index)"
  by pat_completeness auto
termination
proof (relation "measure (\<lambda>(bm, n, i). length bm - i)", goal_cases)
  case 1
  show ?case by simp
next
  case (2 bm n i es)
  then have "i + n \<le> length bm" "0 < n"
    by (auto simp: slice_get_def split: if_splits intro: gr0I)
  then show ?case by simp
qed

definition large_entries :: "PageSize \<Rightarrow> usize \<Rightarrow> nat" where
  "large_entries sz n = unat (max ((to_byte_size sz div kib 4 * n) div 64) 1)"

definition alloc_contiguous ::
  "BitmapAllocator \<Rightarrow> PageSize \<Rightarrow> usize \<Rightarrow> (paddr option \<times> BitmapAllocator) panics" where
  "alloc_contiguous b align_to n =
     (if align_to = Kilopage then
        (if n \<le> 64 then alloc_contig_4k_intra_pages b (unat n)
         else alloc_contig_4k_inter_pages b (unat n))
      else
        (let n_entries = large_entries align_to n;
             start_index = unat (align_offset (mem_start b) (to_byte_size align_to) div kib 64)
         in case mega_search (bitmap b) n_entries start_index of
              None \<Rightarrow> Some (None, b)
            | Some i \<Rightarrow> do {
                let page_ptr = entry_ptr (mem_start b) i;
                ensure (page_ptr mod to_byte_size align_to = 0);
                p \<leftarrow> page_from_ptr page_ptr;
                Some (Some p, b\<lparr>bitmap := slice_fill (bitmap b) i (i + n_entries) (- 1)\<rparr>)
              }))"

section \<open>Single pages\<close>

definition bitmap_alloc ::
  "BitmapAllocator \<Rightarrow> PageSize \<Rightarrow> (paddr option \<times> BitmapAllocator) panics" where
  "bitmap_alloc b align_to =
     (case align_to of
        Megapage \<Rightarrow> alloc_contiguous b align_to 1
      | Kilopage \<Rightarrow>
          (case find_enum (\<lambda>e. e \<noteq> - 1) 0 (bitmap b) of
             None \<Rightarrow> Some (None, b)
           | Some (index, entry) \<Rightarrow>
               (let bit_index = trailing_ones entry;
                    page_ptr = entry_ptr (mem_start b) index + of_nat bit_index * 4096
                in if page_ptr \<le> mem_end b
                   then do {
                     p \<leftarrow> page_from_ptr page_ptr;
                     Some (Some p, b\<lparr>bitmap := (bitmap b)[index := entry OR shl 1 bit_index]\<rparr>)
                   }
                   else Some (None, b)))
      | Gigapage \<Rightarrow> panic)"

definition entry_index :: "BitmapAllocator \<Rightarrow> paddr \<Rightarrow> nat" where
  "entry_index b page = unat ((page - mem_start b) div SINGLE_ENTRY_SIZE_BYTES)"

definition bit_of_page :: "BitmapAllocator \<Rightarrow> paddr \<Rightarrow> nat" where
  "bit_of_page b page = unat ((page - mem_start b) div 4096 mod 64)"

definition set_used :: "BitmapAllocator \<Rightarrow> paddr \<Rightarrow> BitmapAllocator panics" where
  "set_used b page = do {
     let index = entry_index b page;
     ensure (index < length (bitmap b));
     Some (b\<lparr>bitmap := (bitmap b)[index := bitmap b ! index OR shl 1 (bit_of_page b page)]\<rparr>)
   }"

definition set_unused :: "BitmapAllocator \<Rightarrow> paddr \<Rightarrow> BitmapAllocator panics" where
  "set_unused b page = do {
     let index = entry_index b page;
     ensure (index < length (bitmap b));
     Some (b\<lparr>bitmap := (bitmap b)[index := bitmap b ! index AND NOT (shl 1 (bit_of_page b page))]\<rparr>)
   }"

text \<open>A loop \<open>for entry in slice { assert_eq!(entry, MAX); entry = 0 }\<close>.\<close>

definition free_entries :: "u64 list \<Rightarrow> nat \<Rightarrow> nat \<Rightarrow> u64 list panics" where
  "free_entries bm a b = do {
     es \<leftarrow> slice_get bm a b;
     ensure (list_all (\<lambda>e. e = - 1) es);
     Some (slice_fill bm a b 0)
   }"

definition bitmap_dealloc :: "BitmapAllocator \<Rightarrow> paddr \<Rightarrow> PageSize \<Rightarrow> BitmapAllocator panics" where
  "bitmap_dealloc b page sz =
     (let index = entry_index b page in
      case sz of
        Megapage \<Rightarrow> do {
          bm \<leftarrow> free_entries (bitmap b) index (index + 512);
          Some (b\<lparr>bitmap := bm\<rparr>)
        }
      | Kilopage \<Rightarrow> do {
          let bit = bit_of_page b page;
          ensure (index < length (bitmap b));
          ensure (shr (bitmap b ! index) bit AND 1 = 1);
          Some (b\<lparr>bitmap := (bitmap b)[index := bitmap b ! index AND NOT (shl 1 bit)]\<rparr>)
        }
      | Gigapage \<Rightarrow> panic)"

definition dealloc_contiguous ::
  "BitmapAllocator \<Rightarrow> paddr \<Rightarrow> PageSize \<Rightarrow> usize \<Rightarrow> BitmapAllocator panics" where
  "dealloc_contiguous b page sz n =
     (let start_index = entry_index b page in
      case sz of
        Kilopage \<Rightarrow>
          if n \<le> 64 then do {
            let start_bit = bit_of_page b page;
            ensure (start_index < length (bitmap b));
            let entry = (if n = 64 then 0
                         else bitmap b ! start_index AND word_rotl start_bit (shl (- 1) (unat n)));
            Some (b\<lparr>bitmap := (bitmap b)[start_index := entry]\<rparr>)
          }
          else do {
            let range_end = start_index + unat n div 64;
            let last_bits = unat n mod 64;
            bm \<leftarrow> free_entries (bitmap b) start_index range_end;
            ensure (0 < last_bits \<longrightarrow> range_end < length bm);
            Some (b\<lparr>bitmap := (if 0 < last_bits
                              then bm[range_end := bm ! range_end AND shl (- 1) last_bits]
                              else bm)\<rparr>)
          }
      | _ \<Rightarrow> do {
          let end_index = start_index + large_entries sz n;
          bm \<leftarrow> free_entries (bitmap b) start_index (start_index + end_index);
          Some (b\<lparr>bitmap := bm\<rparr>)
        })"

section \<open>Initialisation\<close>

fun init_loop :: "BitmapAllocator \<Rightarrow> nat list \<Rightarrow> BitmapAllocator panics" where
  "init_loop b [] = Some b"
| "init_loop b (page # pages) = do {
     p \<leftarrow> page_from_ptr (mem_start b + kib 4 * of_nat page);
     b' \<leftarrow> set_used b p;
     init_loop b' pages
   }"

definition bitmap_init :: "BitmapAllocator \<Rightarrow> usize \<Rightarrow> usize \<Rightarrow> BitmapAllocator panics" where
  "bitmap_init b start stop = do {
     ensure (start \<noteq> 0);
     ensure (start mod 4096 = 0);
     let n_pages = (stop - start) div kib 4;
     let sz = unat (n_pages div 64 + 1);
     init_loop \<lparr> bitmap = replicate sz 0, mem_start = start, mem_end = stop \<rparr>
       [0..<sz div 4096 + 1]
   }"

section \<open>Specification vocabulary\<close>

text \<open>
  Page number \<open>k\<close> counts from \<open>mem_start\<close>. The abstract state of the allocator is the set of
  used page numbers.
\<close>

definition page_used :: "BitmapAllocator \<Rightarrow> nat \<Rightarrow> bool" where
  "page_used b k \<longleftrightarrow> k div 64 < length (bitmap b) \<and> bit (bitmap b ! (k div 64)) (k mod 64)"

definition page_addr :: "BitmapAllocator \<Rightarrow> nat \<Rightarrow> paddr" where
  "page_addr b k = mem_start b + of_nat k * 4096"

definition page_no :: "BitmapAllocator \<Rightarrow> paddr \<Rightarrow> nat" where
  "page_no b p = unat ((p - mem_start b) div 4096)"

definition n_pages :: "BitmapAllocator \<Rightarrow> nat" where
  "n_pages b = 64 * length (bitmap b)"

text \<open>The allocator invariant: the managed range starts on a page and does not wrap around.\<close>

definition bm_inv :: "BitmapAllocator \<Rightarrow> bool" where
  "bm_inv b \<longleftrightarrow> mem_start b mod 4096 = 0 \<and> unat (mem_start b) + 4096 * n_pages b < 2 ^ 64"

definition used_pages :: "BitmapAllocator \<Rightarrow> paddr set" where
  "used_pages b = page_addr b ` {k. page_used b k}"

section \<open>Bits, entries and page numbers\<close>

lemma find_enum_SomeD:
  "find_enum P i xs = Some (j, x) \<Longrightarrow>
   i \<le> j \<and> j - i < length xs \<and> xs ! (j - i) = x \<and> P x \<and> (\<forall>k < j - i. \<not> P (xs ! k))"
proof (induction xs arbitrary: i)
  case (Cons y ys)
  show ?case
  proof (cases "P y")
    case True
    with Cons.prems show ?thesis by simp
  next
    case False
    with Cons.prems have "find_enum P (Suc i) ys = Some (j, x)" by simp
    from Cons.IH [OF this] have h: "Suc i \<le> j" "j - Suc i < length ys" "ys ! (j - Suc i) = x" "P x"
      "\<forall>k < j - Suc i. \<not> P (ys ! k)" by auto
    have ji: "j - i = Suc (j - Suc i)" using h(1) by arith
    show ?thesis using h False unfolding ji
      by (auto simp: nth_Cons split: nat.splits)
  qed
qed simp

lemma find_enum_None_iff: "find_enum P i xs = None \<longleftrightarrow> (\<forall>x \<in> set xs. \<not> P x)"
  by (induction xs arbitrary: i) auto

lemma page_used_upd:
  assumes "i < length (bitmap b)"
  shows "page_used (b\<lparr>bitmap := (bitmap b)[i := e]\<rparr>) k \<longleftrightarrow>
         (if k div 64 = i then bit e (k mod 64) else page_used b k)"
  using assms by (auto simp: page_used_def)

lemma n_pages_upd [simp]: "n_pages (b\<lparr>bitmap := (bitmap b)[i := e]\<rparr>) = n_pages b"
  by (simp add: n_pages_def)

lemma page_addr_upd [simp]: "page_addr (b\<lparr>bitmap := bm\<rparr>) = page_addr b"
  by (simp add: page_addr_def fun_eq_iff)

lemma bm_inv_upd: "bm_inv b \<Longrightarrow> length bm = length (bitmap b) \<Longrightarrow> bm_inv (b\<lparr>bitmap := bm\<rparr>)"
  by (simp add: bm_inv_def n_pages_def)

lemma page_used_less: "page_used b k \<Longrightarrow> k < n_pages b"
  by (auto simp: page_used_def n_pages_def)

lemma div64_iff: "k div 64 = i \<and> k mod 64 = j \<longleftrightarrow> k = 64 * i + j" if "j < 64" for k :: nat
  using that mult_div_mod_eq [of 64 k] by auto

lemma page_addr_entry:
  "entry_ptr (mem_start b) i + of_nat j * 4096 = page_addr b (64 * i + j)"
  by (simp add: page_addr_def entry_ptr_def SINGLE_ENTRY_SIZE_BYTES_def algebra_simps)

lemma unat_page_offset:
  assumes "bm_inv b" "k \<le> n_pages b"
  shows "unat (of_nat k * 4096 :: 64 word) = k * 4096"
proof -
  have "k * 4096 < 2 ^ 64" using assms by (auto simp: bm_inv_def)
  moreover have "(of_nat k * 4096 :: 64 word) = of_nat (k * 4096)" by simp
  ultimately show ?thesis by (simp only: unat_of_nat) simp
qed

lemma unat_page_addr:
  assumes "bm_inv b" "k \<le> n_pages b"
  shows "unat (page_addr b k) = unat (mem_start b) + k * 4096"
proof -
  have "unat (mem_start b) + unat (of_nat k * 4096 :: 64 word) < 2 ^ LENGTH(64)"
    using assms unat_page_offset [OF assms] by (auto simp: bm_inv_def)
  then have "unat (mem_start b + of_nat k * 4096) = unat (mem_start b) + unat (of_nat k * 4096 :: 64 word)"
    by (rule unat_add_lem [THEN iffD1])
  then show ?thesis using unat_page_offset [OF assms] by (simp add: page_addr_def)
qed

lemma word_mod_4096: "(w :: 64 word) mod 4096 = 0 \<longleftrightarrow> 4096 dvd unat w"
  by (simp add: word_unat_eq_iff unat_mod dvd_eq_mod_eq_0)

lemma page_offset_aligned: "4096 dvd unat (of_nat k * 4096 :: 64 word)"
proof -
  have "unat (of_nat k * 4096 :: 64 word) = k * 4096 mod 2 ^ 64"
    by (simp add: unat_word_ariths unat_of_nat mod_mult_left_eq)
  also have "4096 dvd \<dots>" by (rule dvd_mod) simp_all
  finally show ?thesis .
qed

lemma page_addr_aligned:
  assumes "bm_inv b"
  shows "page_addr b k mod 4096 = 0"
proof -
  have "unat (page_addr b k) = (unat (mem_start b) + unat (of_nat k * 4096 :: 64 word)) mod 2 ^ 64"
    by (simp add: page_addr_def unat_word_ariths)
  moreover have "4096 dvd unat (mem_start b)"
    using assms by (simp add: bm_inv_def word_mod_4096)
  ultimately show ?thesis
    unfolding word_mod_4096 by (simp only:) (intro dvd_mod dvd_add page_offset_aligned; simp)
qed

lemma page_from_ptr_page [simp]: "bm_inv b \<Longrightarrow> page_from_ptr (page_addr b k) = Some (page_addr b k)"
  by (simp add: page_from_ptr_def page_addr_aligned)

lemma unat_page_diff:
  assumes "bm_inv b" "k \<le> n_pages b"
  shows "unat (page_addr b k - mem_start b) = k * 4096"
  using unat_page_offset [OF assms] by (simp add: page_addr_def)

lemma entry_index_page:
  assumes "bm_inv b" "k \<le> n_pages b"
  shows "entry_index b (page_addr b k) = k div 64"
proof -
  have c: "unat SINGLE_ENTRY_SIZE_BYTES = 64 * 4096" by (simp add: SINGLE_ENTRY_SIZE_BYTES_def)
  show ?thesis unfolding entry_index_def unat_div c unat_page_diff [OF assms] by simp
qed

lemma bit_of_page_page:
  assumes "bm_inv b" "k \<le> n_pages b"
  shows "bit_of_page b (page_addr b k) = k mod 64"
proof -
  have c: "unat (4096 :: 64 word) = 4096" "unat (64 :: 64 word) = 64" by simp_all
  show ?thesis unfolding bit_of_page_def unat_div unat_mod c unat_page_diff [OF assms] by simp
qed

lemma page_addr_inj:
  assumes "bm_inv b" "j \<le> n_pages b" "k \<le> n_pages b" "page_addr b j = page_addr b k"
  shows "j = k"
proof -
  have "unat (mem_start b) + j * 4096 = unat (mem_start b) + k * 4096"
    using unat_page_addr [OF assms(1,2)] unat_page_addr [OF assms(1,3)] assms(4) by (simp only:)
  then show ?thesis by simp
qed

lemma page_addr_page_no:
  assumes "bm_inv b" "p mod 4096 = 0"
  shows "page_addr b (page_no b p) = p"
proof -
  have "unat p = (unat (p - mem_start b) + unat (mem_start b)) mod 2 ^ 64"
    using unat_word_ariths(1) [of "p - mem_start b" "mem_start b"] by simp
  moreover have "4096 dvd (x mod 2 ^ 64) \<longleftrightarrow> 4096 dvd x" for x :: nat
    by (rule dvd_mod_iff) simp
  moreover have "4096 dvd unat (mem_start b)" "4096 dvd unat p"
    using assms by (simp_all only: bm_inv_def word_mod_4096)
  ultimately have "4096 dvd unat (p - mem_start b)"
    by (metis dvd_add_left_iff)
  then have "(p - mem_start b) mod 4096 = 0" by (simp only: word_mod_4096)
  then have "(p - mem_start b) div 4096 * 4096 = p - mem_start b"
    using word_mod_div_equality [of "p - mem_start b" 4096] by simp
  then show ?thesis by (simp add: page_addr_def page_no_def)
qed

lemma entry_index_page_no: "entry_index b p = page_no b p div 64"
proof -
  have c: "unat SINGLE_ENTRY_SIZE_BYTES = 4096 * 64" "unat (4096 :: 64 word) = 4096"
    by (simp_all add: SINGLE_ENTRY_SIZE_BYTES_def)
  show ?thesis
    unfolding entry_index_def page_no_def unat_div c by (rule div_mult2_eq)
qed

lemma bit_of_page_no: "bit_of_page b p = page_no b p mod 64"
proof -
  have c: "unat (64 :: 64 word) = 64" by simp
  show ?thesis unfolding bit_of_page_def page_no_def unat_mod c ..
qed

definition same_shape :: "BitmapAllocator \<Rightarrow> BitmapAllocator \<Rightarrow> bool" where
  "same_shape b b' \<longleftrightarrow>
     mem_start b' = mem_start b \<and> mem_end b' = mem_end b \<and> length (bitmap b') = length (bitmap b)"

lemma same_shapeD:
  assumes "same_shape b b'"
  shows "page_addr b' = page_addr b" "page_no b' = page_no b" "n_pages b' = n_pages b"
    "bm_inv b' = bm_inv b"
  using assms by (auto simp: same_shape_def page_addr_def page_no_def n_pages_def bm_inv_def fun_eq_iff)

section \<open>Single pages: allocation and deallocation\<close>

lemma bit_set_bit [simp]:
  "i < 64 \<Longrightarrow> bit (e OR shl 1 i :: 64 word) j \<longleftrightarrow> bit e j \<or> j = i"
  by (auto simp: bit_or_iff bit_shl bit_1_iff dest: bit_word_bound)

lemma bit_clear_bit [simp]:
  "i < 64 \<Longrightarrow> bit (e AND NOT (shl 1 i) :: 64 word) j \<longleftrightarrow> bit e j \<and> j \<noteq> i"
  by (auto simp: bit_and_iff bit_not_iff bit_shl bit_1_iff dest: bit_word_bound)

lemma bit_test: "i < 64 \<Longrightarrow> shr e i AND 1 = 1 \<longleftrightarrow> bit (e :: 64 word) i"
  using and_pow2_eq_iff [of 0 "shr e i"] by (simp add: bit_shr)

lemma all_ones_bits: "(e :: 64 word) = - 1 \<longleftrightarrow> (\<forall>j < 64. bit e j)"
  by (auto intro!: bit_word_eqI)

lemma page_used_set:
  assumes "i < length (bitmap b)" "j < 64"
  shows "page_used (b\<lparr>bitmap := (bitmap b)[i := bitmap b ! i OR shl 1 j]\<rparr>) k \<longleftrightarrow>
         page_used b k \<or> k = 64 * i + j"
  using assms div64_iff [of j k i] by (auto simp: page_used_upd) (auto simp: page_used_def)

lemma page_used_clear:
  assumes "i < length (bitmap b)" "j < 64"
  shows "page_used (b\<lparr>bitmap := (bitmap b)[i := bitmap b ! i AND NOT (shl 1 j)]\<rparr>) k \<longleftrightarrow>
         page_used b k \<and> k \<noteq> 64 * i + j"
  using assms div64_iff [of j k i] by (auto simp: page_used_upd) (auto simp: page_used_def)

lemma page_used_64: "j < 64 \<Longrightarrow> page_used b (64 * i + j) \<longleftrightarrow> i < length (bitmap b) \<and> bit (bitmap b ! i) j"
  by (simp add: page_used_def)

lemma page_addr_less_iff:
  assumes "bm_inv b" "j \<le> n_pages b" "k \<le> n_pages b"
  shows "page_addr b j < page_addr b k \<longleftrightarrow> j < k"
  unfolding word_less_nat_alt unat_page_addr [OF assms(1,2)] unat_page_addr [OF assms(1,3)]
  by simp

lemma less_64_cases:
  "j < 64 * i + t \<Longrightarrow> t < 64 \<Longrightarrow> j div 64 < i \<or> j div 64 = i \<and> j mod 64 < (t :: nat)"
proof -
  assume h: "j < 64 * i + t" "t < 64"
  have "j = 64 * (j div 64) + j mod 64" "j mod 64 < 64" by simp_all
  then show ?thesis using h by linarith
qed

lemma n_pages_div: "k < n_pages b \<Longrightarrow> k div 64 < length (bitmap b)"
  by (simp add: n_pages_def less_mult_imp_div_less mult.commute)

text \<open>The search of \<open>alloc\<close> finds the lowest free page.\<close>

lemma find_free_lowest:
  assumes "find_enum (\<lambda>e. e \<noteq> - 1) 0 (bitmap b) = Some (i, e)"
  defines "k \<equiv> 64 * i + trailing_ones e"
  shows "i < length (bitmap b)" "bitmap b ! i = e" "trailing_ones e < 64"
    "\<not> page_used b k" "k < n_pages b" "\<forall>j < k. page_used b j"
proof -
  have f: "i < length (bitmap b)" "bitmap b ! i = e" "e \<noteq> - 1" "\<forall>k < i. bitmap b ! k = - 1"
    using find_enum_SomeD [OF assms(1)] by auto
  then show "i < length (bitmap b)" "bitmap b ! i = e" by simp_all
  note t = trailing_ones_props [OF f(3)]
  show "trailing_ones e < 64" using t by simp
  show "\<not> page_used b k" using t f by (simp add: k_def page_used_64)
  show "k < n_pages b" using t f by (simp add: k_def n_pages_def)
  show "\<forall>j < k. page_used b j"
  proof (intro allI impI)
    fix j assume "j < k"
    then consider "j div 64 < i" | "j div 64 = i" "j mod 64 < trailing_ones e"
      using less_64_cases [of j i "trailing_ones e"] t(1) unfolding k_def by blast
    then show "page_used b j"
      using t f by cases (auto simp: page_used_def)
  qed
qed

lemma bitmap_alloc_Kilopage:
  assumes "bm_inv b" "bitmap_alloc b Kilopage = Some (r, b')"
  shows "case r of
      None \<Rightarrow> b' = b \<and> (\<forall>k < n_pages b. page_addr b k \<le> mem_end b \<longrightarrow> page_used b k)
    | Some p \<Rightarrow> (\<exists>k < n_pages b. p = page_addr b k \<and> p \<le> mem_end b \<and> \<not> page_used b k \<and>
        (\<forall>j < k. page_used b j) \<and> (\<forall>j. page_used b' j \<longleftrightarrow> page_used b j \<or> j = k) \<and>
        same_shape b b')"
proof (cases "find_enum (\<lambda>e. e \<noteq> - 1) 0 (bitmap b)")
  case None
  then have "page_used b k" if "k < n_pages b" for k
  proof -
    note l = n_pages_div [OF that]
    have "bitmap b ! (k div 64) = - 1"
      using None nth_mem [OF l] unfolding find_enum_None_iff by blast
    then show ?thesis using l by (simp add: page_used_def)
  qed
  then show ?thesis using assms None by (auto simp: bitmap_alloc_def)
next
  case (Some ie)
  obtain i e where ie: "ie = (i, e)" by force
  note f = find_free_lowest [OF Some [unfolded ie]]
  let ?k = "64 * i + trailing_ones e"
  show ?thesis
  proof (cases "page_addr b ?k \<le> mem_end b")
    case True
    then have "r = Some (page_addr b ?k)" "b' = b\<lparr>bitmap := (bitmap b)[i := e OR shl 1 (trailing_ones e)]\<rparr>"
      using assms Some ie by (simp_all add: bitmap_alloc_def page_addr_entry Let_def)
    moreover have "same_shape b b'" using calculation(2) by (simp add: same_shape_def)
    moreover have "page_used b' j \<longleftrightarrow> page_used b j \<or> j = ?k" for j
      using calculation(2) page_used_set [OF f(1,3)] f(2) by simp
    ultimately show ?thesis
      using f(4-6) True by (simp only: option.case) blast
  next
    case False
    then have "r = None" "b' = b"
      using assms Some ie by (simp_all add: bitmap_alloc_def page_addr_entry Let_def)
    moreover have "page_used b k" if "k < n_pages b" "page_addr b k \<le> mem_end b" for k
    proof -
      have "page_addr b k < page_addr b ?k" using that False by simp
      then have "k < ?k" using f(5) that assms(1) by (simp only: page_addr_less_iff less_imp_le)
      then show ?thesis using f(6) by simp
    qed
    ultimately show ?thesis by simp
  qed
qed

lemma bitmap_alloc_no_panic: "bm_inv b \<Longrightarrow> \<exists>r b'. bitmap_alloc b Kilopage = Some (r, b')"
  by (cases "find_enum (\<lambda>e. e \<noteq> - 1) 0 (bitmap b)")
    (auto simp: bitmap_alloc_def Let_def page_addr_entry)

lemma used_pages_iff:
  assumes "bm_inv b" "p mod 4096 = 0"
  shows "p \<in> used_pages b \<longleftrightarrow> page_used b (page_no b p)"
proof
  assume "p \<in> used_pages b"
  then obtain k where k: "p = page_addr b k" "page_used b k" by (auto simp: used_pages_def)
  have "k \<le> n_pages b" using page_used_less [OF k(2)] by simp
  then have "page_no b p = k"
    using unat_page_diff [OF assms(1), of k] k(1) by (simp add: page_no_def unat_div)
  with k show "page_used b (page_no b p)" by simp
next
  assume "page_used b (page_no b p)"
  then show "p \<in> used_pages b"
    using page_addr_page_no [OF assms] by (auto simp: used_pages_def image_iff intro!: exI [of _ "page_no b p"])
qed

lemma used_pages_aligned: "bm_inv b \<Longrightarrow> p \<in> used_pages b \<Longrightarrow> p mod 4096 = 0"
  by (auto simp: used_pages_def page_addr_aligned)

lemma mod_64_less [simp]: "page_no b p mod 64 < 64"
  by simp

lemma bitmap_dealloc_Kilopage:
  assumes "bm_inv b" "p mod 4096 = 0"
  shows "bitmap_dealloc b p Kilopage =
    (if p \<in> used_pages b
     then Some (b\<lparr>bitmap := (bitmap b)[page_no b p div 64 :=
            bitmap b ! (page_no b p div 64) AND NOT (shl 1 (page_no b p mod 64))]\<rparr>)
     else None)"
  unfolding used_pages_iff [OF assms] page_used_def
  by (simp add: bitmap_dealloc_def entry_index_page_no bit_of_page_no bit_test ensure_def Let_def)

lemma used_pages_same_shape:
  assumes "same_shape b b'" "bm_inv b" "\<And>j. page_used b' j \<longleftrightarrow> page_used b j \<and> j \<noteq> k" "k < n_pages b"
  shows "used_pages b' = used_pages b - {page_addr b k}"
proof -
  have "page_addr b j = page_addr b k \<longleftrightarrow> j = k" if "page_used b j" for j
    using page_addr_inj [OF assms(2), of j k] page_used_less [OF that] assms(4) by auto
  then show ?thesis
    unfolding used_pages_def same_shapeD(1) [OF assms(1)] assms(3) by auto
qed

lemma bitmap_dealloc_used:
  assumes "bm_inv b" "p \<in> used_pages b"
  shows "\<exists>b'. bitmap_dealloc b p Kilopage = Some b' \<and> same_shape b b' \<and>
    used_pages b' = used_pages b - {p}"
proof -
  have al: "p mod 4096 = 0" using used_pages_aligned assms by simp
  let ?i = "page_no b p div 64" and ?j = "page_no b p mod 64"
  let ?b = "b\<lparr>bitmap := (bitmap b)[?i := bitmap b ! ?i AND NOT (shl 1 ?j)]\<rparr>"
  have u: "page_used b (page_no b p)" using assms used_pages_iff al by simp
  then have l: "?i < length (bitmap b)" by (simp add: page_used_def)
  have sh: "same_shape b ?b" by (simp add: same_shape_def)
  have "page_used ?b k \<longleftrightarrow> page_used b k \<and> k \<noteq> page_no b p" for k
    using page_used_clear [OF l mod_64_less] by simp
  from used_pages_same_shape [OF sh assms(1) this page_used_less [OF u]]
  have "used_pages ?b = used_pages b - {p}"
    using page_addr_page_no [OF assms(1) al] by simp
  then show ?thesis
    using bitmap_dealloc_Kilopage [OF assms(1) al] assms(2) sh by simp
qed

lemma used_pages_insert:
  assumes "same_shape b b'" "\<And>j. page_used b' j \<longleftrightarrow> page_used b j \<or> j = k"
  shows "used_pages b' = insert (page_addr b k) (used_pages b)"
  unfolding used_pages_def same_shapeD(1) [OF assms(1)] assms(2) by auto

lemma bitmap_alloc_SomeD:
  assumes "bm_inv b" "bitmap_alloc b Kilopage = Some (Some p, b')"
  shows "p mod 4096 = 0 \<and> p \<notin> used_pages b \<and> used_pages b' = insert p (used_pages b) \<and> bm_inv b'"
proof -
  obtain k where k: "k < n_pages b" "p = page_addr b k" "\<not> page_used b k"
    "\<And>j. page_used b' j \<longleftrightarrow> page_used b j \<or> j = k" "same_shape b b'"
    using bitmap_alloc_Kilopage [OF assms] by auto
  have "page_addr b j \<noteq> p" if "page_used b j" for j
    using k(1-3) page_addr_inj [OF assms(1), of j k] page_used_less [OF that] that by auto
  then have "p \<notin> used_pages b" by (auto simp: used_pages_def)
  then show ?thesis
    using k used_pages_insert [OF k(5,4)] same_shapeD [OF k(5)] assms(1) by (simp add: page_addr_aligned)
qed

text \<open>The bitmap allocator keeps the contract of the trait.\<close>

abbreviation alloc4k :: "BitmapAllocator \<Rightarrow> (paddr option \<times> BitmapAllocator) panics" where
  "alloc4k b \<equiv> bitmap_alloc b Kilopage"

abbreviation dealloc4k :: "BitmapAllocator \<Rightarrow> paddr \<Rightarrow> BitmapAllocator panics" where
  "dealloc4k b p \<equiv> bitmap_dealloc b p Kilopage"

interpretation pma: frame_allocator alloc4k dealloc4k used_pages bm_inv
proof
  fix b b' p
  assume i: "bm_inv b"
  show "\<exists>r s'. alloc4k b = Some (r, s')" by (rule bitmap_alloc_no_panic [OF i])
  show "alloc4k b = Some (None, b') \<Longrightarrow> b' = b"
    using bitmap_alloc_Kilopage [OF i, of None b'] by simp
  show "alloc4k b = Some (Some p, b') \<Longrightarrow>
      p mod 4096 = 0 \<and> p \<notin> used_pages b \<and> used_pages b' = insert p (used_pages b) \<and> bm_inv b'"
    by (rule bitmap_alloc_SomeD [OF i])
  show "p \<in> used_pages b \<Longrightarrow> \<exists>s'. dealloc4k b p = Some s' \<and> used_pages s' = used_pages b - {p} \<and> bm_inv s'"
    using bitmap_dealloc_used [OF i, of p] same_shapeD(4) i by blast
  show "p mod 4096 = 0 \<Longrightarrow> p \<notin> used_pages b \<Longrightarrow> dealloc4k b p = None"
    using bitmap_dealloc_Kilopage [OF i] by simp
qed

section \<open>Contiguous runs\<close>

lemma run_free_iff:
  assumes "i + n < 64"
  shows "shr e i OR shl (- 1) n = shl (- 1) n \<longleftrightarrow> (\<forall>j < n. \<not> bit (e :: 64 word) (i + j))"
proof -
  have "shr e i OR shl (- 1) n = shl (- 1) n \<longleftrightarrow>
      (\<forall>j < 64. bit (shr e i) j \<longrightarrow> bit (shl (- 1) n :: 64 word) j)"
    by (auto simp: bit_eq_iff bit_or_iff dest: bit_word_bound)
  also have "\<dots> \<longleftrightarrow> (\<forall>j < 64. bit e (i + j) \<longrightarrow> \<not> j < n)"
    using assms by (auto simp: bit_shr bit_shl not_le)
  also have "\<dots> \<longleftrightarrow> (\<forall>j < n. \<not> bit e (i + j))"
    using assms by (meson add_lessD1 add.commute less_trans trans_less_add2)
  finally show ?thesis .
qed

lemma rot_index:
  assumes "i < 64" "k < (64 :: nat)"
  shows "(k + (64 - i)) mod 64 = (if i \<le> k then k - i else k + (64 - i))"
proof (cases "i \<le> k")
  case True
  then have "k + (64 - i) = (k - i) + 64" using assms by simp
  then show ?thesis using True assms by (simp only: mod_add_self2 if_True) (rule mod_less, simp)
qed (use assms in simp)

lemma bit_rotl:
  assumes "i < 64" "k < 64"
  shows "bit (word_rotl i w :: 64 word) k \<longleftrightarrow> bit w (if i \<le> k then k - i else k + (64 - i))"
  unfolding rot_index [OF assms, symmetric] bit_word_rotl_iff using assms by simp

lemma bit_run_clear:
  assumes "i + n \<le> 64" "i < 64" "n < 64" "k < 64"
  shows "bit (word_rotl i (shl (- 1) n) :: 64 word) k \<longleftrightarrow> \<not> (i \<le> k \<and> k < i + n)"
proof -
  have m: "bit (shl (- 1) n :: 64 word) m \<longleftrightarrow> m < 64 \<and> n \<le> m" for m
    using assms(3) by (auto simp: bit_shl)
  show ?thesis
  proof (cases "i \<le> k")
    case True
    then show ?thesis unfolding bit_rotl [OF assms(2,4)] m using assms(4) by (simp only: if_True simp_thms) linarith
  next
    case False
    then show ?thesis unfolding bit_rotl [OF assms(2,4)] m using assms(1,4) by (simp only: if_False simp_thms) linarith
  qed
qed

lemma bit_run_mask:
  assumes "i + n \<le> 64" "i < 64" "n < 64"
  shows "bit (word_rotl i (NOT (shl (- 1) n)) :: 64 word) k \<longleftrightarrow> i \<le> k \<and> k < i + n"
proof (cases "k < 64")
  case True
  have "word_rotl i (NOT w) = NOT (word_rotl i w)" for w :: "64 word"
    using assms(2) by (auto simp: bit_eq_iff bit_rotl bit_not_iff)
  then show ?thesis
    using bit_run_clear [OF assms True] True by (simp add: bit_not_iff)
next
  case False
  then show ?thesis using assms by (auto dest: bit_word_bound)
qed

lemma find_bit_index_SomeD:
  assumes "find_bit_index n (shl (- 1) n) e = Some i" "n < 64"
  shows "i + n < 64 \<and> (\<forall>j < n. \<not> bit e (i + j))"
proof -
  have "i < 64 - n" "shr e i OR shl (- 1) n = shl (- 1) n"
    using assms(1) by (auto simp: find_bit_index_def find_Some_iff)
  then show ?thesis using run_free_iff [of i n e] by auto
qed

text \<open>
  What the loop over the entries does: on success exactly one entry changes, by the run found
  in it; on failure only bits of pages at or beyond \<open>mem_end\<close> have been added.
\<close>

definition intra_post :: "BitmapAllocator \<Rightarrow> nat \<Rightarrow> nat \<Rightarrow> u64 list \<Rightarrow> paddr option \<Rightarrow> u64 list \<Rightarrow> bool" where
  "intra_post b n index es r es' \<longleftrightarrow> length es' = length es \<and>
     (case r of
        Some p \<Rightarrow> (\<exists>i j. i < length es \<and> j + n < 64 \<and> p = page_addr b (64 * (index + i) + j) \<and>
          p < mem_end b \<and> (\<forall>t < n. \<not> bit (es ! i) (j + t)) \<and>
          es' = es[i := es ! i OR word_rotl j (NOT (shl (- 1) n))])
      | None \<Rightarrow> (\<forall>i < length es. \<forall>k. bit (es ! i) k \<longrightarrow> bit (es' ! i) k) \<and>
          (\<forall>i < length es. \<forall>k. bit (es' ! i) k \<longrightarrow> bit (es ! i) k \<or>
             mem_end b \<le> page_addr b (64 * (index + i) + k)))"

lemma intra_post_skip:
  assumes "intra_post b n (Suc index) es r es'"
  shows "intra_post b n index (e # es) r (e # es')"
proof (cases r)
  case None
  then show ?thesis using assms
    by (auto simp: intra_post_def nth_Cons simp del: distrib_left_numeral split: nat.splits)
next
  case (Some p)
  then obtain i j where "i < length es" "j + n < 64" "p = page_addr b (64 * (Suc index + i) + j)"
    "p < mem_end b" "\<forall>t < n. \<not> bit (es ! i) (j + t)"
    "es' = es[i := es ! i OR word_rotl j (NOT (shl (- 1) n))]" "length es' = length es"
    using assms by (auto simp: intra_post_def)
  then show ?thesis
    using Some unfolding intra_post_def
    by (simp del: distrib_left_numeral, intro exI [of _ "Suc i"])
      (simp del: distrib_left_numeral, rule exI [of _ j], simp)
qed

lemma intra_loop_post:
  assumes inv: "bm_inv b" and n: "n < 64"
  shows "index + length es = length (bitmap b) \<Longrightarrow>
    \<exists>r es'. intra_loop (mem_start b) (mem_end b) n (shl (- 1) n) index es = Some (r, es') \<and>
            intra_post b n index es r es'"
proof (induction es arbitrary: index)
  case Nil
  then show ?case by (simp add: intra_post_def)
next
  case (Cons e es)
  obtain r es' where IH: "intra_loop (mem_start b) (mem_end b) n (shl (- 1) n) (Suc index) es = Some (r, es')"
    "intra_post b n (Suc index) es r es'"
    using Cons.IH [of "Suc index"] Cons.prems by auto
  show ?case
  proof (cases "if n \<le> count_zeros e then find_bit_index n (shl (- 1) n) e else None")
    case None
    then show ?thesis using IH intra_post_skip [OF IH(2)] by auto
  next
    case (Some j)
    then have j: "j + n < 64" "\<forall>t < n. \<not> bit e (j + t)"
      using find_bit_index_SomeD [OF _ n] by (auto split: if_splits)
    let ?e = "e OR word_rotl j (NOT (shl (- 1) n))"
    show ?thesis
    proof (cases "page_addr b (64 * index + j) < mem_end b")
      case True
      then have "intra_post b n index (e # es) (Some (page_addr b (64 * index + j))) (?e # es)"
        using j unfolding intra_post_def by (simp, intro exI [where x = 0]) (simp, rule exI [where x = j], simp)
      then show ?thesis using Some True inv by (simp add: page_addr_entry)
    next
      case False
      have far: "mem_end b \<le> page_addr b k" if "64 * index + j \<le> k" "k \<le> n_pages b" for k
      proof -
        have "\<not> page_addr b k < page_addr b (64 * index + j)"
          using page_addr_less_iff [OF inv that(2) order_trans [OF that]] that(1) by simp
        with False show ?thesis by simp
      qed
      have "r = None"
      proof (cases r)
        case (Some p)
        then obtain i j' where p: "i < length es" "p = page_addr b (64 * (Suc index + i) + j')"
          "p < mem_end b" "j' < 64"
          using IH(2) by (auto simp: intra_post_def)
        have "64 * (Suc index + i) + j' \<le> n_pages b"
          using p Cons.prems unfolding n_pages_def by simp
        then have "mem_end b \<le> p" using far [of "64 * (Suc index + i) + j'"] p j by simp
        with p show ?thesis by simp
      qed
      have "bit ?e k \<longrightarrow> bit e k \<or> mem_end b \<le> page_addr b (64 * index + k)" for k
      proof -
        have "64 * index + k \<le> n_pages b" if "k < j + n"
          using that j Cons.prems unfolding n_pages_def by simp
        then show ?thesis using j n far [of "64 * index + k"] bit_run_mask [of j n k]
          unfolding bit_or_iff by auto
      qed
      then have "intra_post b n index (e # es) None (?e # es')"
        using IH(2) \<open>r = None\<close>
        by (auto simp: intra_post_def nth_Cons bit_or_iff simp del: distrib_left_numeral split: nat.splits)
      then show ?thesis using Some False IH \<open>r = None\<close> by (simp add: page_addr_entry Let_def)
    qed
  qed
qed

text \<open>The specification of a run: pages \<open>k, ..., k + n - 1\<close> were free, and exactly they are now used.\<close>

definition run_allocated :: "BitmapAllocator \<Rightarrow> BitmapAllocator \<Rightarrow> nat \<Rightarrow> nat \<Rightarrow> bool" where
  "run_allocated b b' k n \<longleftrightarrow> same_shape b b' \<and> k + n \<le> n_pages b \<and>
     (\<forall>j \<in> {k..<k + n}. \<not> page_used b j) \<and>
     (\<forall>j. page_used b' j \<longleftrightarrow> page_used b j \<or> j \<in> {k..<k + n})"

definition beyond_end :: "BitmapAllocator \<Rightarrow> BitmapAllocator \<Rightarrow> bool" where
  "beyond_end b b' \<longleftrightarrow> same_shape b b' \<and> (\<forall>j. page_used b j \<longrightarrow> page_used b' j) \<and>
     (\<forall>j. page_used b' j \<longrightarrow> page_used b j \<or> mem_end b \<le> page_addr b j)"

lemma run_index:
  assumes "i < 64" "i + n \<le> 64"
  shows "k \<in> {64 * m + i..<64 * m + i + n} \<longleftrightarrow> k div 64 = m \<and> i \<le> k mod 64 \<and> k mod 64 < i + (n :: nat)"
proof -
  have k: "k = 64 * (k div 64) + k mod 64" "k mod 64 < 64" by simp_all
  show ?thesis
  proof
    assume "k \<in> {64 * m + i..<64 * m + i + n}"
    then have h: "64 * m + i \<le> k" "k < 64 * m + i + n" by simp_all
    have "k div 64 = m" using h k assms by linarith
    with h k show "k div 64 = m \<and> i \<le> k mod 64 \<and> k mod 64 < i + n" by linarith
  next
    assume "k div 64 = m \<and> i \<le> k mod 64 \<and> k mod 64 < i + n"
    then show "k \<in> {64 * m + i..<64 * m + i + n}" using k by auto
  qed
qed

lemma run_allocated_entry:
  assumes "m < length (bitmap b)" "i < 64" "i + n \<le> 64"
    and "\<forall>k < 64. bit e k \<longleftrightarrow> bit (bitmap b ! m) k \<or> i \<le> k \<and> k < i + n"
    and "\<forall>t < n. \<not> bit (bitmap b ! m) (i + t)"
  shows "run_allocated b (b\<lparr>bitmap := (bitmap b)[m := e]\<rparr>) (64 * m + i) n"
  unfolding run_allocated_def
proof (intro conjI ballI allI)
  show "same_shape b (b\<lparr>bitmap := (bitmap b)[m := e]\<rparr>)" by (simp add: same_shape_def)
  have "64 * (m + 1) \<le> n_pages b" using assms(1) by (simp add: n_pages_def)
  then show "64 * m + i + n \<le> n_pages b" using assms(3) by simp
next
  fix j assume "j \<in> {64 * m + i..<64 * m + i + n}"
  then have j: "j div 64 = m" "i \<le> j mod 64" "j mod 64 < i + n"
    unfolding run_index [OF assms(2,3)] by simp_all
  have "\<not> bit (bitmap b ! m) (i + (j mod 64 - i))"
    by (rule assms(5) [rule_format]) (use j in linarith)
  then show "\<not> page_used b j" using j by (simp add: page_used_def)
next
  fix j
  show "page_used (b\<lparr>bitmap := (bitmap b)[m := e]\<rparr>) j \<longleftrightarrow>
      page_used b j \<or> j \<in> {64 * m + i..<64 * m + i + n}"
    unfolding page_used_upd [OF assms(1)] run_index [OF assms(2,3)]
    using assms(1,4) by (auto simp: page_used_def)
qed

lemma alloc_intra_64:
  assumes "bm_inv b"
  shows "\<exists>r b'. alloc_contig_4k_intra_pages b 64 = Some (r, b') \<and>
    (case r of Some p \<Rightarrow> (\<exists>k. p = page_addr b k \<and> p < mem_end b \<and> run_allocated b b' k 64)
     | None \<Rightarrow> beyond_end b b')"
proof (cases "find_enum (\<lambda>e. e = 0) 0 (bitmap b)")
  case None
  then show ?thesis by (simp add: alloc_contig_4k_intra_pages_def beyond_end_def same_shape_def)
next
  case (Some ie)
  obtain i e where ie: "ie = (i, e)" by force
  have f: "i < length (bitmap b)" "bitmap b ! i = 0"
    using find_enum_SomeD [OF Some [unfolded ie]] by auto
  let ?b = "b\<lparr>bitmap := (bitmap b)[i := - 1]\<rparr>"
  have r: "run_allocated b ?b (64 * i + 0) 64"
    by (rule run_allocated_entry) (use f in auto)
  have p: "entry_ptr (mem_start b) i = page_addr b (64 * i)"
    using page_addr_entry [of b i 0] by simp
  show ?thesis
  proof (cases "page_addr b (64 * i) < mem_end b")
    case True
    then show ?thesis using r Some ie assms p
      by (auto simp: alloc_contig_4k_intra_pages_def Let_def)
  next
    case False
    have "mem_end b \<le> page_addr b j" if "j \<in> {64 * i + 0..<64 * i + 0 + 64}" for j
    proof -
      have "64 * i \<le> j" "j \<le> n_pages b" using that r by (auto simp: run_allocated_def)
      then have "\<not> page_addr b j < page_addr b (64 * i)"
        using page_addr_less_iff [OF assms] by simp
      with False show ?thesis by simp
    qed
    then have "beyond_end b ?b"
      using r unfolding run_allocated_def beyond_end_def by blast
    then show ?thesis using Some ie p False
      by (simp add: alloc_contig_4k_intra_pages_def Let_def)
  qed
qed

lemma page_used_bm: "page_used (b\<lparr>bitmap := bm\<rparr>) k \<longleftrightarrow> k div 64 < length bm \<and> bit (bm ! (k div 64)) (k mod 64)"
  by (simp add: page_used_def)

lemma alloc_intra_small:
  assumes "bm_inv b" "n < 64"
  shows "\<exists>r b'. alloc_contig_4k_intra_pages b n = Some (r, b') \<and>
    (case r of Some p \<Rightarrow> (\<exists>k. p = page_addr b k \<and> p < mem_end b \<and> run_allocated b b' k n)
     | None \<Rightarrow> beyond_end b b')"
proof -
  obtain r bm where l: "intra_loop (mem_start b) (mem_end b) n (shl (- 1) n) 0 (bitmap b) = Some (r, bm)"
    and post: "intra_post b n 0 (bitmap b) r bm"
    using intra_loop_post [OF assms, of 0 "bitmap b"] by auto
  have e: "alloc_contig_4k_intra_pages b n = Some (r, b\<lparr>bitmap := bm\<rparr>)"
    using l assms(2) by (simp add: alloc_contig_4k_intra_pages_def)
  show ?thesis
  proof (cases r)
    case None
    have "length bm = length (bitmap b)"
      "\<And>i k. i < length (bitmap b) \<Longrightarrow> bit (bitmap b ! i) k \<Longrightarrow> bit (bm ! i) k"
      "\<And>i k. i < length (bitmap b) \<Longrightarrow> bit (bm ! i) k \<Longrightarrow>
         bit (bitmap b ! i) k \<or> mem_end b \<le> page_addr b (64 * (0 + i) + k)"
      using post None unfolding intra_post_def option.case by auto
    note h = this
    have "beyond_end b (b\<lparr>bitmap := bm\<rparr>)"
      unfolding beyond_end_def page_used_bm unfolding page_used_def
      using h h(3) [of "j div 64" "j mod 64" for j] by (auto simp: same_shape_def)
    then show ?thesis using e None by simp
  next
    case (Some p)
    obtain i j where h: "i < length (bitmap b)" "j + n < 64" "p = page_addr b (64 * (0 + i) + j)"
      "p < mem_end b" "\<forall>t < n. \<not> bit (bitmap b ! i) (j + t)"
      "bm = (bitmap b)[i := bitmap b ! i OR word_rotl j (NOT (shl (- 1) n))]"
      using post unfolding intra_post_def Some option.case by blast
    have "run_allocated b (b\<lparr>bitmap := bm\<rparr>) (64 * i + j) n"
      unfolding h(6)
      by (rule run_allocated_entry) (use h assms(2) in \<open>simp_all add: bit_or_iff bit_run_mask\<close>)
    then show ?thesis using e Some h(3,4) by auto
  qed
qed

text \<open>Releasing a run of at most 64 pages inside one entry restores the bitmap.\<close>

lemma run_clear_restores:
  assumes "i < 64" "i + n \<le> 64" "n < 64" "\<forall>t < n. \<not> bit (e :: 64 word) (i + t)"
  shows "(e OR word_rotl i (NOT (shl (- 1) n))) AND word_rotl i (shl (- 1) n) = e"
proof (rule bit_word_eqI)
  fix k assume "k < LENGTH(64)"
  then have k: "k < 64" by simp
  have "\<not> bit e k" if "i \<le> k" "k < i + n"
    using assms(4) [rule_format, of "k - i"] that by simp
  then show "bit ((e OR word_rotl i (NOT (shl (- 1) n))) AND word_rotl i (shl (- 1) n)) k = bit e k"
    using assms k unfolding bit_and_iff bit_or_iff bit_run_mask [OF assms(2,1,3)] bit_run_clear [OF assms(2,1,3) k]
    by auto
qed

lemma page_no_page_addr: "bm_inv b \<Longrightarrow> k \<le> n_pages b \<Longrightarrow> page_no b (page_addr b k) = k"
  using unat_page_diff [of b k] by (simp add: page_no_def unat_div)

lemma alloc_dealloc_contiguous_small:
  assumes "bm_inv b" "n \<le> 64" "alloc_contiguous b Kilopage n = Some (Some p, b')"
  shows "dealloc_contiguous b' p Kilopage n = Some b"
proof (cases "n = 64")
  case True
  then have c: "alloc_contig_4k_intra_pages b 64 = Some (Some p, b')"
    using assms(3) by (simp add: alloc_contiguous_def)
  then obtain i e where f: "find_enum (\<lambda>e. e = 0) 0 (bitmap b) = Some (i, e)"
    by (cases "find_enum (\<lambda>e. e = 0) 0 (bitmap b)") (auto simp: alloc_contig_4k_intra_pages_def)
  have i: "i < length (bitmap b)" "bitmap b ! i = 0" using find_enum_SomeD [OF f] by auto
  have p0: "entry_ptr (mem_start b) i = page_addr b (64 * i)"
    using page_addr_entry [of b i 0] by simp
  have r: "p = page_addr b (64 * i)" "b' = b\<lparr>bitmap := (bitmap b)[i := - 1]\<rparr>"
    using c f assms(1) by (auto simp: alloc_contig_4k_intra_pages_def Let_def p0 split: if_splits)
  have "64 * i \<le> n_pages b" using i by (simp add: n_pages_def)
  then have "entry_index b' p = i"
    using page_no_page_addr [OF assms(1)] r by (simp add: entry_index_page_no page_no_def)
  then show ?thesis using True r i
    by (simp add: dealloc_contiguous_def Let_def list_update_same_conv)
next
  case False
  then have n: "unat n < 64" "n \<noteq> 64" using assms(2) by (auto simp: word_le_nat_alt word_unat_eq_iff)
  obtain r bm where l: "intra_loop (mem_start b) (mem_end b) (unat n) (shl (- 1) (unat n)) 0 (bitmap b) = Some (r, bm)"
    and post: "intra_post b (unat n) 0 (bitmap b) r bm"
    using intra_loop_post [OF assms(1) n(1), of 0 "bitmap b"] by auto
  have e: "r = Some p" "b' = b\<lparr>bitmap := bm\<rparr>"
    using l assms(2,3) n by (auto simp: alloc_contiguous_def alloc_contig_4k_intra_pages_def)
  obtain i j where h: "i < length (bitmap b)" "j + unat n < 64" "p = page_addr b (64 * (0 + i) + j)"
    "\<forall>t < unat n. \<not> bit (bitmap b ! i) (j + t)"
    "bm = (bitmap b)[i := bitmap b ! i OR word_rotl j (NOT (shl (- 1) (unat n)))]"
    using post unfolding intra_post_def e(1) option.case by blast
  have "64 * i + j \<le> n_pages b" using h(1,2) unfolding n_pages_def by linarith
  then have pn: "page_no b' p = 64 * i + j"
    using page_no_page_addr [OF assms(1)] h(3) e(2) by (simp add: page_no_def)
  have "entry_index b' p = i" "bit_of_page b' p = j"
    using h(2) unfolding entry_index_page_no bit_of_page_no pn by simp_all
  then show ?thesis using assms(2) n h(1,2) run_clear_restores [of j "unat n" "bitmap b ! i"] h(4) e(2) h(5)
    by (simp add: dealloc_contiguous_def Let_def list_update_same_conv)
qed

section \<open>Runs across entries and large pages\<close>

lemma slice_get_SomeD:
  assumes "slice_get xs a b = Some ys"
  shows "a \<le> b" "b \<le> length xs" "\<And>P. list_ex P ys \<longleftrightarrow> (\<exists>i \<in> {a..<b}. P (xs ! i))"
    "\<And>P. list_all P ys \<longleftrightarrow> (\<forall>i \<in> {a..<b}. P (xs ! i))"
proof -
  have s: "a \<le> b" "b \<le> length xs" "ys = take (b - a) (drop a xs)"
    using assms by (auto simp: slice_get_def split: if_splits)
  then show "a \<le> b" "b \<le> length xs" by simp_all
  have "set ys = (\<lambda>i. xs ! i) ` {a..<b}"
  proof -
    have "take (b - a) (drop a xs) = map ((!) xs) [a..<b]"
      using s(1,2) by (intro nth_equalityI) auto
    then show ?thesis using s(3) by simp
  qed
  then show "\<And>P. list_ex P ys \<longleftrightarrow> (\<exists>i \<in> {a..<b}. P (xs ! i))"
    "\<And>P. list_all P ys \<longleftrightarrow> (\<forall>i \<in> {a..<b}. P (xs ! i))"
    by (simp_all add: list_ex_iff list_all_iff)
qed

lemma length_slice_fill: "a \<le> b \<Longrightarrow> b \<le> length xs \<Longrightarrow> length (slice_fill xs a b v) = length xs"
  by (simp add: slice_fill_def)

lemma nth_slice_fill:
  assumes "a \<le> b" "b \<le> length xs" "i < length xs"
  shows "slice_fill xs a b v ! i = (if a \<le> i \<and> i < b then v else xs ! i)"
proof -
  consider "i < a" | "a \<le> i" "i < b" | "b \<le> i" by linarith
  then show ?thesis
    using assms by cases (auto simp: slice_fill_def nth_append)
qed

lemma entries_index: "j div 64 \<in> {a..<b} \<longleftrightarrow> j \<in> {64 * a..<64 * (b :: nat)}"
  by (auto simp: div_less_iff_less_mult less_eq_div_iff_mult_less_eq mult.commute)

lemma page_used_fill:
  assumes "a \<le> e" "e \<le> length (bitmap b)"
  shows "page_used (b\<lparr>bitmap := slice_fill (bitmap b) a e (- 1)\<rparr>) j \<longleftrightarrow>
         page_used b j \<or> j \<in> {64 * a..<64 * e}"
  using assms unfolding page_used_bm entries_index [symmetric]
  by (auto simp: length_slice_fill nth_slice_fill page_used_def)

lemma entries_free:
  assumes "\<forall>i \<in> {a..<e}. bitmap b ! i = 0" "j \<in> {64 * a..<64 * e}"
  shows "\<not> page_used b j"
proof -
  have "j div 64 \<in> {a..<e}" using assms(2) unfolding entries_index .
  then show ?thesis using assms(1) by (simp add: page_used_def)
qed

lemma run_allocated_fill:
  assumes "a \<le> e" "e \<le> length (bitmap b)" "\<forall>i \<in> {a..<e}. bitmap b ! i = 0"
  shows "run_allocated b (b\<lparr>bitmap := slice_fill (bitmap b) a e (- 1)\<rparr>) (64 * a) (64 * (e - a))"
proof -
  have "64 * a + 64 * (e - a) = 64 * e" using assms(1) by simp
  then show ?thesis
    unfolding run_allocated_def page_used_fill [OF assms(1,2)]
    using entries_free [OF assms(3)] assms(1,2)
    by (simp add: same_shape_def length_slice_fill n_pages_def)
qed

text \<open>
  What the search across entries gives: the whole entries of the run were free; of the rest of
  the run only the count of leading zeros of the entry was looked at.
\<close>

definition inter_run :: "BitmapAllocator \<Rightarrow> BitmapAllocator \<Rightarrow> nat \<Rightarrow> nat \<Rightarrow> nat \<Rightarrow> bool" where
  "inter_run b b' k whole last_bits \<longleftrightarrow> same_shape b b' \<and> k + 64 * whole + last_bits \<le> n_pages b \<and>
     (\<forall>j \<in> {k..<k + 64 * whole}. \<not> page_used b j) \<and>
     (\<forall>j. page_used b' j \<longleftrightarrow> page_used b j \<or> j \<in> {k..<k + 64 * whole + last_bits})"

lemma bit_low_mask: "n < 64 \<Longrightarrow> bit (NOT (shl (- 1) n) :: 64 word) k \<longleftrightarrow> k < n"
  by (auto simp: bit_not_iff bit_shl dest: bit_word_bound)

lemma inter_run_fill:
  assumes "s + w \<le> length (bitmap b)" "\<forall>i \<in> {s..<s + w}. bitmap b ! i = 0"
    "l < 64" "0 < l \<Longrightarrow> s + w < length (bitmap b)"
    and bm: "bm = slice_fill (bitmap b) s (s + w) (- 1)"
  shows "inter_run b (b\<lparr>bitmap := (if 0 < l then bm[s + w := bm ! (s + w) OR NOT (shl (- 1) l)] else bm)\<rparr>) (64 * s) w l"
proof -
  have r: "run_allocated b (b\<lparr>bitmap := bm\<rparr>) (64 * s) (64 * w)"
    using run_allocated_fill [of s "s + w" b] assms by simp
  show ?thesis
  proof (cases "0 < l")
    case False
    with r show ?thesis by (simp add: inter_run_def run_allocated_def)
  next
    case True
    have len: "s + w < length bm" using assms(1) assms(4) [OF True] bm by (simp add: length_slice_fill)
    let ?b = "b\<lparr>bitmap := bm\<rparr>"
    have "page_used (?b\<lparr>bitmap := bm[s + w := bm ! (s + w) OR NOT (shl (- 1) l)]\<rparr>) j \<longleftrightarrow>
        page_used ?b j \<or> j \<in> {64 * (s + w) + 0..<64 * (s + w) + 0 + l}" for j
    proof -
      have "j \<in> {64 * (s + w) + 0..<64 * (s + w) + 0 + l} \<longleftrightarrow>
          j div 64 = s + w \<and> 0 \<le> j mod 64 \<and> j mod 64 < 0 + l"
        by (rule run_index) (use assms(3) in simp_all)
      note ri = this
      show ?thesis
        using page_used_upd [of "s + w" ?b "bm ! (s + w) OR NOT (shl (- 1) l)" j] len assms(3)
        unfolding ri by (auto simp: bit_or_iff bit_low_mask page_used_bm)
    qed
    moreover have "64 * s + 64 * w + l \<le> 64 * length (bitmap b)"
      using assms(4) [OF True] assms(3) by linarith
    ultimately show ?thesis
      using r True len unfolding inter_run_def run_allocated_def
      by (auto simp: same_shape_def n_pages_def)
  qed
qed

declare inter_loop.simps [simp del] mega_search.simps [simp del]

lemma inter_loop_spec:
  assumes "bm_inv b" "l < 64"
  shows "\<exists>r b'. inter_loop b w l i = Some (r, b') \<and>
    (case r of None \<Rightarrow> b' = b
     | Some p \<Rightarrow> (\<exists>s. p = page_addr b (64 * s) \<and> p < mem_end b \<and> inter_run b b' (64 * s) w l))"
  using assms
proof (induction b w l i rule: inter_loop.induct)
  case (1 b w l i)
  have p0: "entry_ptr (mem_start b) i = page_addr b (64 * i)"
    using page_addr_entry [of b i 0] by simp
  show ?case
  proof (cases "slice_get (bitmap b) i (i + w)")
    case None
    then show ?thesis by (subst inter_loop.simps) simp
  next
    case (Some es)
    note sg = slice_get_SomeD [OF Some]
    show ?thesis
    proof (cases "list_ex (\<lambda>e. e \<noteq> 0) es")
      case True
      then have "inter_loop b w l i = inter_loop b w l (i + w)"
        using Some by (simp add: inter_loop.simps [of b w l i])
      with 1(1) [OF refl Some True 1(3,4)] show ?thesis by simp
    next
      case nz: False
      then have z: "\<forall>j \<in> {i..<i + w}. bitmap b ! j = 0" using sg(3) by blast
      show ?thesis
      proof (cases "l \<noteq> 0 \<and> \<not> i + w < length (bitmap b)")
        case True
        then show ?thesis using Some nz by (subst inter_loop.simps) simp
      next
        case inb: False
        show ?thesis
        proof (cases "l \<noteq> 0 \<and> leading_zeros (bitmap b ! (i + w)) < l")
          case True
          then have "inter_loop b w l i = inter_loop b w l (i + w + 1)"
            using Some nz inb by (simp add: inter_loop.simps [of b w l i])
          with 1(2) [OF refl Some nz inb True 1(3,4)] show ?thesis by simp
        next
          case False
          note run = inter_run_fill [OF sg(2) z 1(4) _ refl]
          show ?thesis
          proof (cases "page_addr b (64 * i) < mem_end b")
            case True
            then show ?thesis
              using run Some nz inb False 1(3) by (subst inter_loop.simps) (auto simp: p0 Let_def)
          next
            case f2: False
            then show ?thesis
              using Some nz inb False 1(3) by (subst inter_loop.simps) (auto simp: p0 Let_def)
          qed
        qed
      qed
    qed
  qed
qed

lemma count_ones_0_iff: "count_ones w = 0 \<longleftrightarrow> w = 0"
  by (auto simp: count_ones_def filter_empty_conv intro!: bit_word_eqI)

lemma mega_search_SomeD:
  "mega_search bm n s = Some i \<Longrightarrow> i + n \<le> length bm \<and> (\<forall>j \<in> {i..<i + n}. bm ! j = 0)"
proof (induction bm n s rule: mega_search.induct)
  case (1 bm n s)
  then obtain es where es: "slice_get bm s (s + n) = Some es"
    by (simp add: mega_search.simps [of bm n s] split: option.splits)
  note sg = slice_get_SomeD [OF es]
  show ?case
  proof (cases "list_ex (\<lambda>n. count_ones n \<noteq> 0) es")
    case True
    then have "mega_search bm n (s + n) = Some i"
      using 1(2) es by (simp add: mega_search.simps [of bm n s])
    with 1(1) [OF es True] show ?thesis by simp
  next
    case False
    then have "i = s" using 1(2) es by (simp add: mega_search.simps [of bm n s])
    then show ?thesis using False sg(2,3) by (auto simp: count_ones_0_iff)
  qed
qed

lemma alloc_contiguous_large_spec:
  assumes "bm_inv b" "sz \<noteq> Kilopage" "alloc_contiguous b sz n = Some (Some p, b')"
  shows "p mod to_byte_size sz = 0 \<and>
    (\<exists>k. p = page_addr b k \<and> run_allocated b b' k (64 * large_entries sz n))"
proof -
  let ?s = "unat (align_offset (mem_start b) (to_byte_size sz) div kib 64)"
  obtain i where i: "mega_search (bitmap b) (large_entries sz n) ?s = Some i"
    using assms(2,3) by (auto simp: alloc_contiguous_def Let_def split: option.splits)
  have p0: "entry_ptr (mem_start b) i = page_addr b (64 * i)"
    using page_addr_entry [of b i 0] by simp
  note m = mega_search_SomeD [OF i]
  have e: "p mod to_byte_size sz = 0" "p = page_addr b (64 * i)"
    "b' = b\<lparr>bitmap := slice_fill (bitmap b) i (i + large_entries sz n) (- 1)\<rparr>"
    using assms i by (auto simp: alloc_contiguous_def Let_def p0 ensure_def split: if_splits)
  moreover have "run_allocated b b' (64 * i) (64 * large_entries sz n)"
    using run_allocated_fill [of i "i + large_entries sz n" b] m e(3) by simp
  ultimately show ?thesis by blast
qed

lemma large_entries_Megapage:
  assumes "0 < unat n" "unat n < 2 ^ 40"
  shows "large_entries Megapage n = 8 * unat n"
proof -
  have "unat (512 * n) = 512 * unat n"
    using assms(2) by (subst unat_word_ariths) simp
  then have "unat (512 * n div 64) = 8 * unat n" by (simp add: unat_div)
  moreover have "1 \<le> 512 * n div 64"
    using assms(1) calculation by (simp add: word_le_nat_alt)
  moreover have "to_byte_size Megapage div kib 4 = 512" by (simp add: mib_def kib_def)
  ultimately show ?thesis
    unfolding large_entries_def by (simp only: max_absorb1)
qed

section \<open>Initialisation\<close>

lemma set_used_page:
  assumes "bm_inv b" "k < n_pages b"
  shows "\<exists>b'. set_used b (page_addr b k) = Some b' \<and> same_shape b b' \<and>
    (\<forall>j. page_used b' j \<longleftrightarrow> page_used b j \<or> j = k)"
proof -
  have i: "entry_index b (page_addr b k) = k div 64" "bit_of_page b (page_addr b k) = k mod 64"
    using assms by (simp_all add: entry_index_page bit_of_page_page)
  have l: "k div 64 < length (bitmap b)" by (rule n_pages_div [OF assms(2)])
  show ?thesis
    using page_used_set [OF l, of "k mod 64"] l by (simp add: set_used_def i same_shape_def Let_def)
qed

lemma init_loop_spec:
  "bm_inv b \<Longrightarrow> \<forall>k \<in> set ks. k < n_pages b \<Longrightarrow>
   \<exists>b'. init_loop b ks = Some b' \<and> same_shape b b' \<and> (\<forall>j. page_used b' j \<longleftrightarrow> page_used b j \<or> j \<in> set ks)"
proof (induction ks arbitrary: b)
  case Nil
  then show ?case by (simp add: same_shape_def)
next
  case (Cons k ks)
  obtain b1 where b1: "set_used b (page_addr b k) = Some b1" "same_shape b b1"
    "\<And>j. page_used b1 j \<longleftrightarrow> page_used b j \<or> j = k"
    using set_used_page [of b k] Cons.prems by auto
  have "bm_inv b1" "\<forall>k \<in> set ks. k < n_pages b1"
    using Cons.prems same_shapeD [OF b1(2)] by auto
  from Cons.IH [OF this] obtain b2 where b2: "init_loop b1 ks = Some b2" "same_shape b1 b2"
    "\<And>j. page_used b2 j \<longleftrightarrow> page_used b1 j \<or> j \<in> set ks" by auto
  have "mem_start b + kib 4 * of_nat k = page_addr b k" by (simp add: page_addr_def kib_def mult.commute)
  then have "init_loop b (k # ks) = Some b2" using b1(1) b2(1) Cons.prems(1) by simp
  moreover have "same_shape b b2" using b1(2) b2(2) by (simp add: same_shape_def)
  ultimately show ?case using b1(3) b2(3) by auto
qed

text \<open>The number of bitmap entries \<open>init\<close> computes for a memory range.\<close>

definition init_entries :: "usize \<Rightarrow> usize \<Rightarrow> nat" where
  "init_entries start stop = unat ((stop - start) div kib 4 div 64 + 1)"

lemma bitmap_init_spec:
  assumes "start \<noteq> 0" "start mod 4096 = 0" "start \<le> stop" "unat stop < 2 ^ 60"
  defines "sz \<equiv> init_entries start stop"
  shows "\<exists>b. bitmap_init b0 start stop = Some b \<and> bm_inv b \<and> mem_start b = start \<and> mem_end b = stop \<and>
    length (bitmap b) = sz \<and> (\<forall>j. page_used b j \<longleftrightarrow> j \<le> sz div 4096)"
proof -
  let ?b = "\<lparr> bitmap = replicate sz 0, mem_start = start, mem_end = stop \<rparr>"
  have d: "unat (stop - start) = unat stop - unat start" using assms(3) by (simp add: unat_sub)
  have "unat ((stop - start) div kib 4 div 64) = (unat stop - unat start) div 262144"
    unfolding unat_div d by (simp add: kib_def div_mult2_eq [symmetric])
  moreover have "(unat stop - unat start) div 262144 < 2 ^ 42" using assms(4) by simp
  ultimately have sz: "sz = (unat stop - unat start) div 262144 + 1"
    unfolding sz_def init_entries_def by (subst unat_word_ariths) simp
  have inv: "bm_inv ?b"
    using assms(2-4) sz by (simp add: bm_inv_def n_pages_def word_le_nat_alt)
  have "0 < sz" using sz by simp
  then have "\<forall>k \<in> set [0..<sz div 4096 + 1]. k < n_pages ?b" by (auto simp: n_pages_def)
  from init_loop_spec [OF inv this] obtain b where
    b: "init_loop ?b [0..<sz div 4096 + 1] = Some b" "same_shape ?b b"
      "\<And>j. page_used b j \<longleftrightarrow> page_used ?b j \<or> j \<in> set [0..<sz div 4096 + 1]" by auto
  have "\<not> page_used ?b j" for j by (auto simp: page_used_def)
  then show ?thesis
    using b same_shapeD(4) [OF b(2)] inv assms(1,2)
    by (auto simp: bitmap_init_def sz_def init_entries_def same_shape_def)
qed

section \<open>Properties\<close>


definition demo_bitmap :: "u64 \<Rightarrow> BitmapAllocator" where
  "demo_bitmap e = \<lparr> bitmap = [e], mem_start = 0x1000, mem_end = 0x9000 \<rparr>"

lemma demo_bitmap_inv: "bm_inv (demo_bitmap e)"
  by (simp add: bm_inv_def n_pages_def demo_bitmap_def)

lemma demo_alloc: "bitmap_alloc (demo_bitmap 1) Kilopage = Some (Some 0x2000, demo_bitmap 3)"
  by code_simp

lemma demo_dealloc: "bitmap_dealloc (demo_bitmap 3) 0x2000 Kilopage = Some (demo_bitmap 1)"
  by code_simp

lemma demo_history:
  "history (\<lambda>b. bitmap_alloc b Kilopage) (\<lambda>b p. bitmap_dealloc b p Kilopage) (demo_bitmap 1)
     ([] @ Alloc 0x2000 # [Dealloc 0x2000] @ [Alloc 0x2000]) (demo_bitmap 3)"
  using history_nil [of "\<lambda>b. bitmap_alloc b Kilopage" "\<lambda>b p. bitmap_dealloc b p Kilopage" "demo_bitmap 1",
      THEN history_alloc, OF demo_alloc, THEN history_dealloc, OF _ demo_dealloc, THEN history_alloc, OF _ demo_alloc]
  by simp


text \<open>
  C18. Allocating a 4 KiB page never panics on a well-formed bitmap. It fails only when every page
  up to \<open>mem_end\<close> is used, and then changes nothing; otherwise it returns the free page with the
  lowest address and marks exactly that page.
\<close>

theorem bitmap_alloc_lowest_free:
  assumes "bm_inv b"
  shows "\<exists>r b'. bitmap_alloc b Kilopage = Some (r, b') \<and>
    (case r of
       None \<Rightarrow> b' = b \<and> (\<forall>k < n_pages b. page_addr b k \<le> mem_end b \<longrightarrow> page_used b k)
     | Some p \<Rightarrow> (\<exists>k < n_pages b. p = page_addr b k \<and> p \<le> mem_end b \<and> \<not> page_used b k \<and>
         (\<forall>j < k. page_used b j) \<and> (\<forall>j. page_used b' j \<longleftrightarrow> page_used b j \<or> j = k) \<and> same_shape b b'))"
  using bitmap_alloc_no_panic [OF assms] bitmap_alloc_Kilopage [OF assms] by blast

theorem bitmap_alloc_lowest_free_witness:
  "\<exists>r b'. bitmap_alloc (demo_bitmap 5) Kilopage = Some (r, b') \<and>
    (case r of
       None \<Rightarrow> b' = demo_bitmap 5 \<and> (\<forall>k < n_pages (demo_bitmap 5).
         page_addr (demo_bitmap 5) k \<le> mem_end (demo_bitmap 5) \<longrightarrow> page_used (demo_bitmap 5) k)
     | Some p \<Rightarrow> (\<exists>k < n_pages (demo_bitmap 5). p = page_addr (demo_bitmap 5) k \<and>
         p \<le> mem_end (demo_bitmap 5) \<and> \<not> page_used (demo_bitmap 5) k \<and> (\<forall>j < k. page_used (demo_bitmap 5) j) \<and>
         (\<forall>j. page_used b' j \<longleftrightarrow> page_used (demo_bitmap 5) j \<or> j = k) \<and> same_shape (demo_bitmap 5) b'))"
  by (rule bitmap_alloc_lowest_free [OF demo_bitmap_inv])

text \<open>
  C21. A contiguous allocation of at most 64 pages never panics. On success the \<open>n\<close> pages from the
  returned address on were all free and are now used, and nothing else changes; on failure only
  pages at or beyond \<open>mem_end\<close> may have been marked.
\<close>

theorem alloc_contiguous_fresh_run:
  assumes "bm_inv b" "n \<le> 64"
  shows "\<exists>r b'. alloc_contiguous b Kilopage n = Some (r, b') \<and>
    (case r of
       Some p \<Rightarrow> (\<exists>k. p = page_addr b k \<and> p < mem_end b \<and> run_allocated b b' k (unat n))
     | None \<Rightarrow> beyond_end b b')"
proof -
  have e: "alloc_contiguous b Kilopage n = alloc_contig_4k_intra_pages b (unat n)"
    using assms(2) by (simp add: alloc_contiguous_def)
  consider "unat n < 64" | "unat n = 64" using assms(2) by (fastforce simp: word_le_nat_alt)
  then show ?thesis
  proof cases
    case 1
    then show ?thesis unfolding e by (rule alloc_intra_small [OF assms(1)])
  next
    case 2
    show ?thesis unfolding e 2 by (rule alloc_intra_64 [OF assms(1)])
  qed
qed

theorem alloc_contiguous_fresh_run_witness:
  "\<exists>r b'. alloc_contiguous (demo_bitmap 9) Kilopage 3 = Some (r, b') \<and>
    (case r of
       Some p \<Rightarrow> (\<exists>k. p = page_addr (demo_bitmap 9) k \<and> p < mem_end (demo_bitmap 9) \<and>
                    run_allocated (demo_bitmap 9) b' k (unat (3 :: usize)))
     | None \<Rightarrow> beyond_end (demo_bitmap 9) b')"
  by (rule alloc_contiguous_fresh_run [OF demo_bitmap_inv]) simp

text \<open>
  Releasing a contiguous run of at most 64 pages right after its allocation restores the
  allocator's state exactly.
\<close>

theorem alloc_dealloc_contiguous_roundtrip:
  assumes "bm_inv b" "n \<le> 64" "alloc_contiguous b Kilopage n = Some (Some p, b')"
  shows "dealloc_contiguous b' p Kilopage n = Some b"
  using assms by (rule alloc_dealloc_contiguous_small)

theorem alloc_dealloc_contiguous_roundtrip_witness:
  "dealloc_contiguous (demo_bitmap 0x79) 0x5000 Kilopage 3 = Some (demo_bitmap 9)"
proof (rule alloc_dealloc_contiguous_roundtrip [OF demo_bitmap_inv])
  show "alloc_contiguous (demo_bitmap 9) Kilopage 3 = Some (Some 0x5000, demo_bitmap 0x79)"
    by code_simp
qed simp

text \<open>
  C22. A run of more than 64 pages: the search ends, never panics, and marks exactly the \<open>n\<close> pages
  from the returned address on. The whole entries of the run were free before.
\<close>

theorem alloc_contiguous_inter_run:
  assumes "bm_inv b" "64 < n"
  shows "\<exists>r b'. alloc_contiguous b Kilopage n = Some (r, b') \<and>
    (case r of
       None \<Rightarrow> b' = b
     | Some p \<Rightarrow> (\<exists>s. p = page_addr b (64 * s) \<and> p < mem_end b \<and>
                    inter_run b b' (64 * s) (unat n div 64) (unat n mod 64)))"
  using inter_loop_spec [OF assms(1), of "unat n mod 64" "unat n div 64" 0] assms(2)
  by (simp add: alloc_contiguous_def alloc_contig_4k_inter_pages_def not_le [symmetric])

definition demo_bitmap2 :: "u64 list \<Rightarrow> BitmapAllocator" where
  "demo_bitmap2 es = \<lparr> bitmap = es, mem_start = 0x1000, mem_end = 0x80000 \<rparr>"

theorem alloc_contiguous_inter_run_witness:
  "\<exists>r b'. alloc_contiguous (demo_bitmap2 [0, 0]) Kilopage 65 = Some (r, b') \<and>
    (case r of
       None \<Rightarrow> b' = demo_bitmap2 [0, 0]
     | Some p \<Rightarrow> (\<exists>s. p = page_addr (demo_bitmap2 [0, 0]) (64 * s) \<and> p < mem_end (demo_bitmap2 [0, 0]) \<and>
         inter_run (demo_bitmap2 [0, 0]) b' (64 * s) (unat (65 :: usize) div 64) (unat (65 :: usize) mod 64)))"
  by (rule alloc_contiguous_inter_run) (simp_all add: bm_inv_def n_pages_def demo_bitmap2_def)

text \<open>
  The rest of a run is tested from the wrong end of its entry (\<open>leading_zeros\<close> where the pages
  taken are the low bits): a page that is in use is handed out again.
\<close>

lemma alloc_contiguous_hands_out_used_page:
  "page_used (demo_bitmap2 [0, 1]) 64 \<and>
   alloc_contiguous (demo_bitmap2 [0, 1]) Kilopage 65 =
     Some (Some (page_addr (demo_bitmap2 [0, 1]) 0), demo_bitmap2 [- 1, 1])"
  by code_simp

text \<open>
  \<open>alloc_contiguous\<close> of large pages returns an address aligned to the page size, or panics; the
  4 KiB pages below it were all free and are now used.
\<close>

theorem alloc_contiguous_large_aligned:
  assumes "bm_inv b" "sz \<noteq> Kilopage" "alloc_contiguous b sz n = Some (Some p, b')"
  shows "p mod to_byte_size sz = 0 \<and>
    (\<exists>k. p = page_addr b k \<and> run_allocated b b' k (64 * large_entries sz n))"
  using assms by (rule alloc_contiguous_large_spec)

definition demo_bitmap3 :: "u64 list \<Rightarrow> BitmapAllocator" where
  "demo_bitmap3 es = \<lparr> bitmap = es, mem_start = 0x80000000, mem_end = 0x80300000 \<rparr>"

theorem alloc_contiguous_large_aligned_witness:
  "0x80200000 mod to_byte_size Megapage = 0 \<and>
    (\<exists>k. 0x80200000 = page_addr (demo_bitmap3 ([1] @ replicate 15 0)) k \<and>
       run_allocated (demo_bitmap3 ([1] @ replicate 15 0)) (demo_bitmap3 ([1] @ replicate 7 0 @ replicate 8 (- 1))) k
         (64 * large_entries Megapage 1))"
proof (rule alloc_contiguous_large_aligned)
  show "alloc_contiguous (demo_bitmap3 ([1] @ replicate 15 0)) Megapage 1 =
      Some (Some 0x80200000, demo_bitmap3 ([1] @ replicate 7 0 @ replicate 8 (- 1)))"
    by code_simp
qed (simp_all add: bm_inv_def n_pages_def demo_bitmap3_def)

text \<open>
  After \<open>init\<close> over a page-aligned range, the allocator is well formed, and the pages marked are
  exactly the first \<open>size / 4096 + 1\<close>, where \<open>size\<close> is the number of bitmap entries.
\<close>

theorem bitmap_init_reserves:
  assumes "start \<noteq> 0" "start mod 4096 = 0" "start \<le> stop" "unat stop < 2 ^ 60"
  shows "\<exists>b. bitmap_init b0 start stop = Some b \<and> bm_inv b \<and> mem_start b = start \<and> mem_end b = stop \<and>
    length (bitmap b) = init_entries start stop \<and>
    (\<forall>j. page_used b j \<longleftrightarrow> j \<le> init_entries start stop div 4096)"
  using assms by (rule bitmap_init_spec)

theorem bitmap_init_reserves_witness:
  "\<exists>b. bitmap_init bitmap_new 0x80000000 0x80100000 = Some b \<and> bm_inv b \<and> mem_start b = 0x80000000 \<and>
    mem_end b = 0x80100000 \<and> length (bitmap b) = init_entries 0x80000000 0x80100000 \<and>
    (\<forall>j. page_used b j \<longleftrightarrow> j \<le> init_entries 0x80000000 0x80100000 div 4096)"
  by (rule bitmap_init_reserves) simp_all

text \<open>
  The bitmap itself is stored at \<open>mem_start\<close> and takes eight bytes per entry, so with 513 to 4095
  entries (128 MiB to 1 GiB of memory) the first page handed out after \<open>init\<close> lies inside it.
\<close>

lemma bitmap_storage_handed_out:
  assumes "start \<noteq> 0" "start mod 4096 = 0" "start \<le> stop" "unat stop < 2 ^ 60"
    and "512 < init_entries start stop" "init_entries start stop < 4096"
  shows "\<exists>b b' p. bitmap_init b0 start stop = Some b \<and> bitmap_alloc b Kilopage = Some (Some p, b') \<and>
    unat start < unat p \<and> unat p < unat start + 8 * init_entries start stop"
proof -
  obtain b where b: "bitmap_init b0 start stop = Some b" "bm_inv b" "mem_start b = start" "mem_end b = stop"
    "length (bitmap b) = init_entries start stop" "\<And>j. page_used b j \<longleftrightarrow> j \<le> 0"
    using bitmap_init_spec [OF assms(1-4), of b0] assms(6) by auto
  have np: "1 \<le> n_pages b" "n_pages b = 64 * init_entries start stop"
    using b(5) assms(5) by (auto simp: n_pages_def)
  have a1: "unat (page_addr b 1) = unat start + 4096"
    using unat_page_addr [OF b(2) np(1)] b(3) by simp
  have "unat stop - unat start \<ge> 4096"
    using assms(3,5) unfolding init_entries_def
    by (cases "unat stop - unat start < 4096")
      (auto simp: unat_word_ariths unat_div kib_def unat_sub)
  then have "page_addr b 1 \<le> mem_end b"
    using a1 b(4) assms(3) by (simp add: word_le_nat_alt)
  moreover obtain r b' where r: "bitmap_alloc b Kilopage = Some (r, b')"
    using bitmap_alloc_no_panic [OF b(2)] by blast
  note spec = bitmap_alloc_Kilopage [OF b(2) r]
  ultimately have "r = Some (page_addr b 1)"
  proof (cases r)
    case None
    then show ?thesis
      using spec np b(6) [of 1] assms(5) \<open>page_addr b 1 \<le> mem_end b\<close> by auto
  next
    case (Some p)
    then obtain k where k: "p = page_addr b k" "\<not> page_used b k" "\<forall>j < k. page_used b j"
      using spec by auto
    have "k = 1"
    proof -
      have "0 < k" using k(2) b(6) by simp
      moreover have "\<not> 1 < k" using k(3) b(6) by auto
      ultimately show ?thesis by simp
    qed
    with k Some show ?thesis by simp
  qed
  then show ?thesis using b(1) r a1 assms(5) by auto
qed

end
