(* ===== verification/Memory_Region.thy ===== *)
theory Memory_Region
  imports Phys_Bitmap
begin

text \<open>
  Regions of physical memory, \<open>src/kernel/vanadinite/src/mem/region.rs\<close>: unique and shared
  regions on top of the physical page allocator, what dropping them gives back, and the bytes
  they hold. Physical memory is a function from addresses to bytes; the kernel reaches it through
  the direct map.
\<close>

section \<open>Data\<close>

datatype PhysicalRegionKind = Contiguous paddr | Mmio paddr | Sparse "paddr list"

record UniquePhysicalRegion =
  ur_kind :: PhysicalRegionKind
  ur_page_size :: PageSize
  ur_n_pages :: usize

text \<open>A shared region is an \<open>Arc\<close> of a unique one.\<close>

datatype PhysicalRegion = SharedRegion UniquePhysicalRegion | UniqueRegion UniquePhysicalRegion

datatype MemoryRegion = Backed PhysicalRegion | LazyRegion PageSize usize | GuardPage

fun pr_unique :: "PhysicalRegion \<Rightarrow> UniquePhysicalRegion" where
  "pr_unique (SharedRegion r) = r"
| "pr_unique (UniqueRegion r) = r"

definition pr_page_count :: "PhysicalRegion \<Rightarrow> usize" where
  "pr_page_count r = ur_n_pages (pr_unique r)"

definition pr_page_size :: "PhysicalRegion \<Rightarrow> PageSize" where
  "pr_page_size r = ur_page_size (pr_unique r)"

fun mr_page_size :: "MemoryRegion \<Rightarrow> PageSize" where
  "mr_page_size GuardPage = Kilopage"
| "mr_page_size (LazyRegion page_size _) = page_size"
| "mr_page_size (Backed backing) = pr_page_size backing"

fun mr_page_count :: "MemoryRegion \<Rightarrow> usize" where
  "mr_page_count GuardPage = 1"
| "mr_page_count (LazyRegion _ n) = n"
| "mr_page_count (Backed backing) = pr_page_count backing"

section \<open>Allocation and release\<close>

definition region_mmio :: "paddr \<Rightarrow> PageSize \<Rightarrow> usize \<Rightarrow> UniquePhysicalRegion panics" where
  "region_mmio at page_size n = do {
     p \<leftarrow> page_from_ptr at;
     Some \<lparr> ur_kind = Mmio p, ur_page_size = page_size, ur_n_pages = n \<rparr>
   }"

definition region_alloc_contiguous ::
  "BitmapAllocator \<Rightarrow> PageSize \<Rightarrow> usize \<Rightarrow> (UniquePhysicalRegion \<times> BitmapAllocator) panics" where
  "region_alloc_contiguous b page_size n = do {
     (r, b') \<leftarrow> alloc_contiguous b page_size n;
     p \<leftarrow> r;
     Some (\<lparr> ur_kind = Contiguous p, ur_page_size = page_size, ur_n_pages = n \<rparr>, b')
   }"

definition region_alloc_sparse ::
  "BitmapAllocator \<Rightarrow> PageSize \<Rightarrow> usize \<Rightarrow> (UniquePhysicalRegion \<times> BitmapAllocator) panics" where
  "region_alloc_sparse b page_size n =
     (if n = 1 then region_alloc_contiguous b page_size 1
      else do {
        (pages, b') \<leftarrow> alloc_loop (\<lambda>b. bitmap_alloc b page_size) (unat n) b;
        Some (\<lparr> ur_kind = Sparse pages, ur_page_size = page_size, ur_n_pages = n \<rparr>, b')
      })"

definition region_drop :: "BitmapAllocator \<Rightarrow> UniquePhysicalRegion \<Rightarrow> BitmapAllocator panics" where
  "region_drop b r =
     (case ur_kind r of
        Contiguous start \<Rightarrow> dealloc_contiguous b start (ur_page_size r) (ur_n_pages r)
      | Sparse pages \<Rightarrow> drain_loop (\<lambda>b p. bitmap_dealloc b p (ur_page_size r)) pages b
      | Mmio _ \<Rightarrow> Some b)"

text \<open>
  Dropping a handle: the \<open>Arc\<close> of a shared region releases the region with its last handle;
  \<open>handles\<close> is the number of handles before the drop.
\<close>

fun physical_region_drop :: "nat \<Rightarrow> BitmapAllocator \<Rightarrow> PhysicalRegion \<Rightarrow> BitmapAllocator panics" where
  "physical_region_drop handles b (UniqueRegion r) = region_drop b r"
| "physical_region_drop handles b (SharedRegion r) = (if handles = 1 then region_drop b r else Some b)"

definition into_shared_region :: "UniquePhysicalRegion \<Rightarrow> PhysicalRegion" where
  "into_shared_region r = SharedRegion r"

section \<open>Addresses and contents\<close>

definition physical_addresses :: "UniquePhysicalRegion \<Rightarrow> paddr list panics" where
  "physical_addresses r =
     (case ur_kind r of
        Sparse pages \<Rightarrow> Some pages
      | Contiguous start \<Rightarrow>
          those (map (\<lambda>i. paddr_offset start (of_nat i * to_byte_size (ur_page_size r))) [0..<unat (ur_n_pages r)])
      | Mmio start \<Rightarrow>
          those (map (\<lambda>i. paddr_offset start (of_nat i * to_byte_size (ur_page_size r))) [0..<unat (ur_n_pages r)]))"

type_synonym pmem = "paddr \<Rightarrow> u8"

definition write_bytes :: "pmem \<Rightarrow> paddr \<Rightarrow> u8 list \<Rightarrow> pmem" where
  "write_bytes mem a bs = (\<lambda>x. if unat (x - a) < length bs then bs ! unat (x - a) else mem x)"

text \<open>\<open>slice::chunks\<close>.\<close>

function chunks :: "nat \<Rightarrow> 'a list \<Rightarrow> 'a list list" where
  "chunks n xs = (if n = 0 \<or> xs = [] then [] else take n xs # chunks n (drop n xs))"
  by pat_completeness auto
termination
  by (relation "measure (\<lambda>(n, xs). length xs)") auto

fun copy_pages :: "pmem \<Rightarrow> (paddr \<times> u8 list) list \<Rightarrow> pmem" where
  "copy_pages mem [] = mem"
| "copy_pages mem ((a, d) # ads) = copy_pages (write_bytes mem a d) ads"

text \<open>Each page is reached through the direct map, which panics for an address it does not cover.\<close>

definition copy_data_into :: "usize \<Rightarrow> UniquePhysicalRegion \<Rightarrow> u8 list \<Rightarrow> pmem \<Rightarrow> pmem panics" where
  "copy_data_into off r data mem = do {
     as \<leftarrow> physical_addresses r;
     let ads = zip as (chunks (unat (to_byte_size (ur_page_size r))) data);
     _ \<leftarrow> those (map (\<lambda>(a, _). phys2virt off a) ads);
     Some (copy_pages mem ads)
   }"

definition region_zero :: "usize \<Rightarrow> UniquePhysicalRegion \<Rightarrow> pmem \<Rightarrow> pmem panics" where
  "region_zero off r mem = do {
     as \<leftarrow> physical_addresses r;
     _ \<leftarrow> those (map (phys2virt off) as);
     Some (copy_pages mem (map (\<lambda>a. (a, replicate (unat (to_byte_size (ur_page_size r))) 0)) as))
   }"

section \<open>Release gives back what allocation took\<close>

lemma region_alloc_sparse_Kilopage:
  assumes "bm_inv b" "n \<noteq> 1" "region_alloc_sparse b Kilopage n = Some (r, b')"
  obtains pages where "r = \<lparr> ur_kind = Sparse pages, ur_page_size = Kilopage, ur_n_pages = n \<rparr>"
    "length pages = unat n" "distinct pages" "set pages \<inter> used_pages b = {}"
    "used_pages b' = used_pages b \<union> set pages" "bm_inv b'" "\<forall>p \<in> set pages. p mod 4096 = 0"
    "\<exists>b''. drain_loop dealloc4k pages b' = Some b'' \<and> used_pages b'' = used_pages b \<and> bm_inv b''"
proof -
  obtain pages where p: "alloc_loop alloc4k (unat n) b = Some (pages, b')"
    "r = \<lparr> ur_kind = Sparse pages, ur_page_size = Kilopage, ur_n_pages = n \<rparr>"
    using assms(2,3) by (auto simp: region_alloc_sparse_def split: bind_splits)
  show thesis
    by (rule that [of pages]) (use pma.alloc_loop_fresh [OF assms(1) p(1)] pma.alloc_drain [OF assms(1) p(1)] p(2) in auto)
qed

section \<open>What the pages hold\<close>

declare chunks.simps [simp del]

lemma chunks_Nil [simp]: "chunks n [] = []"
  by (simp add: chunks.simps)

lemma chunks_step: "0 < n \<Longrightarrow> xs \<noteq> [] \<Longrightarrow> chunks n xs = take n xs # chunks n (drop n xs)"
  by (simp add: chunks.simps [of n xs])

lemma align_down_add:
  assumes "is_aligned a sz" "j < 2 ^ page_shift sz"
  shows "unat (a + of_nat j) = unat a + j" "align_down_to (a + of_nat j) sz = a"
proof -
  obtain q where q: "unat a = 2 ^ page_shift sz * q"
    using assms(1) by (auto simp: is_aligned_iff_dvd dvd_def)
  have p64: "(2 :: nat) ^ 64 = 2 ^ page_shift sz * 2 ^ (64 - page_shift sz)"
    using page_shift_less [of sz] by (simp add: power_add [symmetric])
  have "2 ^ page_shift sz * q < 2 ^ page_shift sz * 2 ^ (64 - page_shift sz)"
    using unat_64_less [of a] unfolding p64 q .
  then have "q + 1 \<le> 2 ^ (64 - page_shift sz)" by simp
  then have "2 ^ page_shift sz * (q + 1) \<le> 2 ^ 64" unfolding p64 by (intro mult_le_mono2)
  then have lt: "unat a + j < 2 ^ 64" using q assms(2) by simp
  have j: "unat (of_nat j :: 64 word) = j" by (rule unat_of_nat_64) (use lt in linarith)
  show u: "unat (a + of_nat j) = unat a + j"
    using unat_add_lem [of a "of_nat j"] lt j by simp
  have "(unat a + j) div 2 ^ page_shift sz = q" using q assms(2) by simp
  then have "unat (align_down_to (a + of_nat j) sz) = unat a"
    unfolding unat_align_down u using q by simp
  then show "align_down_to (a + of_nat j) sz = a" by (simp add: word_unat_eq_iff)
qed

lemma in_page_decompose:
  assumes "is_aligned b sz" "unat (x - b) < 2 ^ page_shift sz"
  shows "align_down_to x sz = b"
proof -
  have "x = b + of_nat (unat (x - b))" by simp
  then show ?thesis using align_down_add(2) [OF assms] by simp
qed

lemma write_bytes_other:
  assumes "is_aligned b sz" "length d \<le> 2 ^ page_shift sz" "align_down_to x sz \<noteq> b"
  shows "write_bytes mem b d x = mem x"
  using in_page_decompose [OF assms(1), of x] assms(2,3) by (auto simp: write_bytes_def)

lemma write_bytes_nth:
  assumes "is_aligned b sz" "length d \<le> 2 ^ page_shift sz" "t < length d"
  shows "write_bytes mem b d (b + of_nat t) = d ! t"
proof -
  have "t < 2 ^ 64"
    using assms(2,3) page_shift_less [of sz] power_strict_increasing [of "page_shift sz" 64 "2 :: nat"] by linarith
  then show ?thesis using assms(3) by (simp add: write_bytes_def unat_of_nat_64)
qed

lemma copy_pages_other:
  assumes "\<forall>(a, d) \<in> set ads. is_aligned a sz \<and> length d \<le> 2 ^ page_shift sz"
    and "align_down_to x sz \<notin> fst ` set ads"
  shows "copy_pages mem ads x = mem x"
  using assms
proof (induction mem ads rule: copy_pages.induct)
  case (2 mem a d ads)
  then show ?case using write_bytes_other [of a sz d x mem] by auto
qed simp

lemma copy_pages_untouched:
  "\<forall>(a, d) \<in> set ads. \<not> unat (x - a) < length d \<Longrightarrow> copy_pages mem ads x = mem x"
  by (induction mem ads rule: copy_pages.induct) (auto simp: write_bytes_def)

lemma copy_pages_nth:
  assumes "\<forall>(a, d) \<in> set ads. is_aligned a sz \<and> length d \<le> 2 ^ page_shift sz"
    and "distinct (map fst ads)" "i < length ads" "t < length (snd (ads ! i))"
  shows "copy_pages mem ads (fst (ads ! i) + of_nat t) = snd (ads ! i) ! t"
  using assms
proof (induction mem ads arbitrary: i rule: copy_pages.induct)
  case (2 mem a d ads)
  show ?case
  proof (cases i)
    case 0
    have t: "t < 2 ^ page_shift sz" using 2(2,5) 0 by auto
    have "align_down_to (a + of_nat t) sz = a" using align_down_add(2) [OF _ t] 2(2) by auto
    then have "copy_pages (write_bytes mem a d) ads (a + of_nat t) = write_bytes mem a d (a + of_nat t)"
      using 2(2,3) by (intro copy_pages_other [of _ sz]) auto
    then show ?thesis using 0 2(2,5) write_bytes_nth [of a sz d t mem] by auto
  next
    case (Suc k)
    then show ?thesis using 2 by auto
  qed
qed simp

lemma chunks_nth:
  "0 < n \<Longrightarrow> j < length xs \<Longrightarrow> j div n < length (chunks n xs) \<and>
     j mod n < length (chunks n xs ! (j div n)) \<and> chunks n xs ! (j div n) ! (j mod n) = xs ! j"
proof (induction n xs arbitrary: j rule: chunks.induct)
  case (1 n xs)
  have st: "chunks n xs = take n xs # chunks n (drop n xs)" using 1(2,3) by (intro chunks_step) auto
  show ?case
  proof (cases "j < n")
    case True
    then show ?thesis using 1(3) by (simp add: st)
  next
    case False
    then have j: "j div n = Suc ((j - n) div n)" "j mod n = (j - n) mod n"
      using 1(2) by (simp_all add: le_div_geq le_mod_geq)
    have "\<not> (n = 0 \<or> xs = [])" using 1(2,3) by auto
    from 1(1) [OF this 1(2), of "j - n"] have
      "(j - n) div n < length (chunks n (drop n xs)) \<and>
       (j - n) mod n < length (chunks n (drop n xs) ! ((j - n) div n)) \<and>
       chunks n (drop n xs) ! ((j - n) div n) ! ((j - n) mod n) = drop n xs ! (j - n)"
      using False 1(3) by simp
    then show ?thesis unfolding j st using False 1(3) by simp
  qed
qed

lemma chunks_index: "i < length (chunks n xs) \<Longrightarrow> t < length (chunks n xs ! i) \<Longrightarrow> i * n + t < length xs"
proof (induction n xs arbitrary: i rule: chunks.induct)
  case (1 n xs)
  have ne: "\<not> (n = 0 \<or> xs = [])"
  proof
    assume "n = 0 \<or> xs = []"
    then have "chunks n xs = []" by (simp add: chunks.simps [of n xs])
    then show False using 1(2) by simp
  qed
  then have st: "chunks n xs = take n xs # chunks n (drop n xs)" by (intro chunks_step) auto
  show ?case
  proof (cases i)
    case 0
    then show ?thesis using 1(3) st by simp
  next
    case (Suc j)
    then have "j * n + t < length (drop n xs)" using 1(1) [OF ne, of j] 1(2,3) st by simp
    then show ?thesis using Suc by simp
  qed
qed

lemma those_defined: "\<forall>x \<in> set xs. f x \<noteq> None \<Longrightarrow> those (map f xs) \<noteq> None"
  by (induction xs) auto

lemma phys2virt_defined: "phys2virt off a \<noteq> None \<longleftrightarrow> unat a + unat off < 2 ^ 64"
  using checked_add_Some_iff [of a off "a + off"] unat_add_lem [of a off]
  by (auto simp: phys2virt_def paddr_offset_def checked_add_def)

lemma chunks_lengths: "d \<in> set (chunks n xs) \<Longrightarrow> length d \<le> n"
proof (induction n xs rule: chunks.induct)
  case (1 n xs)
  then show ?case by (cases "n = 0 \<or> xs = []") (auto simp: chunks.simps [of n xs] split: if_splits)
qed

lemma length_chunks: "0 < n \<Longrightarrow> length xs \<le> k * n \<Longrightarrow> length (chunks n xs) \<le> k"
proof (induction n xs arbitrary: k rule: chunks.induct)
  case (1 n xs)
  show ?case
  proof (cases "xs = []")
    case False
    then obtain k' where k: "k = Suc k'" using 1(3) by (cases k) auto
    then have "length (chunks n (drop n xs)) \<le> k'" using 1 False by auto
    then show ?thesis using chunks_step [OF 1(2) False] k by simp
  qed simp
qed

section \<open>Properties\<close>

text \<open>
  \<open>alloc_sparse\<close> of 4 KiB pages takes \<open>n\<close> distinct pages that were free, and dropping the region
  returns exactly those: the set of used pages is what it was before.
\<close>

theorem sparse_region_drop_restores:
  assumes "bm_inv b" "n \<noteq> 1" "region_alloc_sparse b Kilopage n = Some (r, b')"
  shows "\<exists>pages. physical_addresses r = Some pages \<and> length pages = unat n \<and> distinct pages \<and>
    set pages \<inter> used_pages b = {} \<and> used_pages b' = used_pages b \<union> set pages \<and>
    (\<exists>b''. region_drop b' r = Some b'' \<and> used_pages b'' = used_pages b \<and> bm_inv b'')"
proof -
  obtain pages where "r = \<lparr> ur_kind = Sparse pages, ur_page_size = Kilopage, ur_n_pages = n \<rparr>"
    "length pages = unat n" "distinct pages" "set pages \<inter> used_pages b = {}"
    "used_pages b' = used_pages b \<union> set pages"
    "\<exists>b''. drain_loop dealloc4k pages b' = Some b'' \<and> used_pages b'' = used_pages b \<and> bm_inv b''"
    using region_alloc_sparse_Kilopage [OF assms] by metis
  then show ?thesis by (auto simp: physical_addresses_def region_drop_def)
qed

definition demo_sparse :: UniquePhysicalRegion where
  "demo_sparse = \<lparr> ur_kind = Sparse [0x2000, 0x4000], ur_page_size = Kilopage, ur_n_pages = 2 \<rparr>"

theorem sparse_region_drop_restores_witness:
  "\<exists>pages. physical_addresses demo_sparse = Some pages \<and> length pages = unat (2 :: usize) \<and> distinct pages \<and>
    set pages \<inter> used_pages (demo_bitmap 5) = {} \<and> used_pages (demo_bitmap 15) = used_pages (demo_bitmap 5) \<union> set pages \<and>
    (\<exists>b''. region_drop (demo_bitmap 15) demo_sparse = Some b'' \<and> used_pages b'' = used_pages (demo_bitmap 5) \<and> bm_inv b'')"
proof (rule sparse_region_drop_restores [OF demo_bitmap_inv])
  show "region_alloc_sparse (demo_bitmap 5) Kilopage 2 = Some (demo_sparse, demo_bitmap 15)" by code_simp
qed simp

text \<open>
  C25. \<open>copy_data_into\<close> a region of aligned, distinct pages that is large enough and lies within the direct map: byte
  \<open>j\<close> of the data is found at offset \<open>j mod size\<close> of page \<open>j div size\<close>, and no other byte of memory has changed, not
  even in the last page that was written.
\<close>

theorem copy_data_into_contents:
  assumes "physical_addresses r = Some as" "distinct as" "\<forall>a \<in> set as. is_aligned a (ur_page_size r)"
    and "\<forall>a \<in> set as. unat a + unat off < 2 ^ 64"
    and "length data \<le> length as * unat (to_byte_size (ur_page_size r))"
  shows "\<exists>mem'. copy_data_into off r data mem = Some mem' \<and>
    (\<forall>j < length data. mem' (as ! (j div unat (to_byte_size (ur_page_size r))) +
        of_nat (j mod unat (to_byte_size (ur_page_size r)))) = data ! j) \<and>
    (\<forall>x. (\<forall>j < length data. x \<noteq> as ! (j div unat (to_byte_size (ur_page_size r))) +
        of_nat (j mod unat (to_byte_size (ur_page_size r)))) \<longrightarrow> mem' x = mem x)"
proof -
  define sz S where "sz = ur_page_size r" and "S = unat (to_byte_size sz)"
  have S: "S = 2 ^ page_shift sz" "0 < S" by (simp_all add: S_def unat_to_byte_size)
  let ?ads = "zip as (chunks S data)" and ?mem = "copy_pages mem (zip as (chunks S data))"
  have len: "length (chunks S data) \<le> length as"
    using length_chunks [OF S(2)] assms(5) by (simp add: sz_def S_def)
  have ok: "\<forall>(a, d) \<in> set ?ads. is_aligned a sz \<and> length d \<le> 2 ^ page_shift sz"
    using assms(3) chunks_lengths [of _ S data] S(1) by (auto simp: sz_def dest: set_zip_leftD set_zip_rightD)
  have dist: "distinct (map fst ?ads)" using assms(2) len by (simp add: map_fst_zip_take distinct_take)
  have in_map: "\<exists>vs. those (map (\<lambda>(a, _). phys2virt off a) ?ads) = Some vs"
  proof -
    have "phys2virt off a \<noteq> None" if "(a, d) \<in> set ?ads" for a d
      using assms(4) set_zip_leftD [OF that] unfolding phys2virt_defined by blast
    then have "those (map (\<lambda>(a, _). phys2virt off a) ?ads) \<noteq> None" by (intro those_defined) auto
    then show ?thesis by blast
  qed
  have "?mem (as ! (j div S) + of_nat (j mod S)) = data ! j" if "j < length data" for j
  proof -
    note c = chunks_nth [OF S(2) that]
    have "j div S < length ?ads" using c len by simp
    then show ?thesis using copy_pages_nth [OF ok dist, of "j div S" "j mod S" mem] c by simp
  qed
  moreover have "?mem x = mem x" if x: "\<forall>j < length data. x \<noteq> as ! (j div S) + of_nat (j mod S)" for x
  proof (rule copy_pages_untouched, safe)
    fix a d assume ad: "(a, d) \<in> set ?ads" "unat (x - a) < length d"
    then obtain i where i: "i < length (chunks S data)" "a = as ! i" "d = chunks S data ! i"
      using len by (auto simp: in_set_zip)
    let ?t = "unat (x - a)"
    have "d \<in> set (chunks S data)" using i(1,3) by simp
    then have t: "?t < S" using ad(2) chunks_lengths less_le_trans by blast
    have "i * S + ?t < length data" using chunks_index [OF i(1), of ?t] ad(2) i(3) by simp
    then have "x \<noteq> as ! ((i * S + ?t) div S) + of_nat ((i * S + ?t) mod S)" using x by blast
    then show False using t i(2) by simp
  qed
  ultimately show ?thesis
    using assms(1) in_map unfolding copy_data_into_def sz_def S_def by (auto simp: Let_def)
qed

theorem copy_data_into_contents_witness:
  "\<exists>mem'. copy_data_into 0x1000 demo_sparse [1, 2, 3] (\<lambda>_. 7) = Some mem' \<and>
    mem' 0x2001 = 2 \<and> mem' 0x2003 = 7 \<and> mem' 0x4000 = 7"
proof -
  have "\<exists>mem'. copy_data_into 0x1000 demo_sparse [1, 2, 3] (\<lambda>_. 7) = Some mem' \<and>
    (\<forall>j < length [1 :: u8, 2, 3]. mem' ([0x2000, 0x4000] ! (j div unat (to_byte_size (ur_page_size demo_sparse))) +
        of_nat (j mod unat (to_byte_size (ur_page_size demo_sparse)))) = [1, 2, 3] ! j) \<and>
    (\<forall>x. (\<forall>j < length [1 :: u8, 2, 3]. x \<noteq> [0x2000, 0x4000] ! (j div unat (to_byte_size (ur_page_size demo_sparse))) +
        of_nat (j mod unat (to_byte_size (ur_page_size demo_sparse)))) \<longrightarrow> mem' x = 7)"
    by (rule copy_data_into_contents) (simp_all add: demo_sparse_def physical_addresses_def is_aligned_def units_def)
  then obtain mem' where m: "copy_data_into 0x1000 demo_sparse [1, 2, 3] (\<lambda>_. 7) = Some mem'"
    "\<And>j. j < 3 \<Longrightarrow> mem' ([0x2000, 0x4000] ! (j div 4096) + of_nat (j mod 4096)) = [1, 2, 3] ! j"
    "\<And>x. (\<And>j. j < 3 \<Longrightarrow> x \<noteq> [0x2000, 0x4000] ! (j div 4096) + of_nat (j mod 4096)) \<Longrightarrow> mem' x = 7"
    by (auto simp: demo_sparse_def units_def)
  have "mem' 0x2001 = 2" using m(2) [of 1] by simp
  moreover have "mem' 0x2003 = 7" "mem' 0x4000 = 7" by (rule m(3), auto simp: less_Suc_eq numeral_3_eq_3)+
  ultimately show ?thesis using m(1) by blast
qed

end
