(* ===== verification/Address_Map.thy ===== *)
theory Address_Map
  imports Btree_Map Memory_Region
begin

text \<open>
  The map of a task's address space into regions,
  \<open>src/kernel/vanadinite/src/mem/manager/address_map.rs\<close>. The \<open>BTreeMap\<close> is keyed by the last
  address of each region (the region \<open>new\<close> creates is keyed by its end instead).
\<close>

section \<open>State\<close>

datatype AddressRegionKind =
    Kind_Channel | Kind_Data | Kind_Guard | Kind_ReadOnly | Kind_Stack | Kind_Text | Kind_Tls
  | Kind_Unoccupied | Kind_UserAllocated | Kind_Dma | Kind_Mmio | Kind_UserSharedMemory

record AddressRegion =
  region :: "MemoryRegion option"
  span_start :: vaddr
  span_end :: vaddr
  kind :: AddressRegionKind
  permissions :: flags

datatype AddressMappingError = Occupied | Nonexistent | OutOfBounds

type_synonym AddressMap = "(vaddr, AddressRegion) btree"

definition is_unoccupied :: "AddressRegion \<Rightarrow> bool" where
  "is_unoccupied r \<longleftrightarrow> region r = None"

definition amap_new :: "vaddr \<times> vaddr \<Rightarrow> AddressMap" where
  "amap_new complete_range =
     bt_insert (snd complete_range)
       \<lparr> region = None, span_start = fst complete_range, span_end = snd complete_range,
         kind = Kind_Unoccupied, permissions = FLAG_NONE \<rparr> []"

definition userspace_map :: AddressMap where
  "userspace_map = amap_new userspace_range"

section \<open>Operations\<close>

definition amap_alloc ::
  "AddressMap \<Rightarrow> vaddr \<Rightarrow> vaddr \<Rightarrow> MemoryRegion \<Rightarrow> AddressRegionKind \<Rightarrow> flags \<Rightarrow> AddressMappingError + AddressMap" where
  "amap_alloc m start stop backing k perms =
     (case bt_range_from m start of
        None \<Rightarrow> Inl OutOfBounds
      | Some (key, rg) \<Rightarrow>
          if span_start rg > start \<or> span_end rg < stop \<or> region rg \<noteq> None then Inl Occupied
          else
            (let m = bt_remove key m;
                 active = \<lparr> region = Some backing, span_start = start, span_end = stop, kind = k, permissions = perms \<rparr>;
                 free = (\<lambda>a b. \<lparr> region = None, span_start = a, span_end = b, kind = Kind_Unoccupied, permissions = FLAG_NONE \<rparr>)
             in Inr
               (case (span_start rg = start, span_end rg = stop) of
                  (True, False) \<Rightarrow>
                    (let old = rg\<lparr>span_start := stop\<rparr> in
                     bt_insert (unchecked_offset stop (- 1)) active
                       (bt_insert (unchecked_offset (span_end old) (- 1)) old m))
                | (False, True) \<Rightarrow>
                    (let old = rg\<lparr>span_end := start\<rparr> in
                     bt_insert (unchecked_offset stop (- 1)) active
                       (bt_insert (unchecked_offset (span_end old) (- 1)) old m))
                | (True, True) \<Rightarrow> bt_insert (unchecked_offset stop (- 1)) active m
                | (False, False) \<Rightarrow>
                    (let before = free (span_start rg) start; after = free stop (span_end rg) in
                     bt_insert (unchecked_offset (span_end after) (- 1)) after
                       (bt_insert (unchecked_offset (span_end active) (- 1)) active
                         (bt_insert (unchecked_offset (span_end before) (- 1)) before m))))))"

text \<open>
  The two loops of \<open>free\<close> that merge the freed region with free neighbours. Each removes a region
  from the map, so they end.
\<close>

function coalesce_lower :: "AddressMap \<Rightarrow> AddressRegion \<Rightarrow> AddressMap \<times> AddressRegion" where
  "coalesce_lower m rg =
     (case bt_range_to m (span_start rg) of
        Some (key, q) \<Rightarrow>
          if region q = None then coalesce_lower (bt_remove key m) (rg\<lparr>span_start := span_start q\<rparr>)
          else (m, rg)
      | None \<Rightarrow> (m, rg))"
  by pat_completeness auto
termination
  by (relation "measure (\<lambda>(m, r). length m)") (auto dest!: bt_range_to_Some intro!: length_bt_remove, force)

function coalesce_upper :: "AddressMap \<Rightarrow> AddressRegion \<Rightarrow> AddressMap \<times> AddressRegion" where
  "coalesce_upper m rg =
     (case bt_range_from m (span_end rg) of
        Some (key, q) \<Rightarrow>
          if region q = None then coalesce_upper (bt_remove key m) (rg\<lparr>span_end := span_end q\<rparr>)
          else (m, rg)
      | None \<Rightarrow> (m, rg))"
  by pat_completeness auto
termination
  by (relation "measure (\<lambda>(m, r). length m)") (auto dest!: bt_range_from_Some intro!: length_bt_remove, force)

definition amap_free ::
  "AddressMap \<Rightarrow> vaddr \<Rightarrow> vaddr \<Rightarrow> (AddressMappingError + (MemoryRegion \<times> AddressMap)) panics" where
  "amap_free m start stop =
     (case bt_range_from m start of
        None \<Rightarrow> Some (Inl OutOfBounds)
      | Some (_, cur) \<Rightarrow>
          if span_start cur \<noteq> start \<or> span_end cur \<noteq> stop \<or> region cur = None then Some (Inl Nonexistent)
          else do {
            key \<leftarrow> vaddr_offset stop (- 1);
            rg \<leftarrow> bt_get m key;
            let (m1, range1) = coalesce_lower (bt_remove key m) rg;
            let (m2, range2) = coalesce_upper m1 range1;
            ret \<leftarrow> region range2;
            Some (Inr (ret, bt_insert (unchecked_offset (span_end range2) (- 1)) (range2\<lparr>region := None\<rparr>) m2))
          })"

definition amap_find :: "AddressMap \<Rightarrow> vaddr \<Rightarrow> AddressRegion option" where
  "amap_find m address = map_option snd (bt_range_from m address)"

definition unoccupied_regions :: "AddressMap \<Rightarrow> AddressRegion list" where
  "unoccupied_regions m = filter (\<lambda>r. region r = None) (map snd m)"

definition occupied_regions :: "AddressMap \<Rightarrow> AddressRegion list" where
  "occupied_regions m = filter (\<lambda>r. region r \<noteq> None) (map snd m)"

section \<open>Specification vocabulary\<close>

text \<open>
  The regions, in the order of the map, tile the address space from \<open>lo\<close> to \<open>hi\<close>, and each is keyed
  by its last address; only a last region that is free may be keyed by its end.
\<close>

fun tiles :: "vaddr \<Rightarrow> vaddr \<Rightarrow> AddressMap \<Rightarrow> bool" where
  "tiles lo hi [] \<longleftrightarrow> lo = hi"
| "tiles lo hi ((k, r) # m) \<longleftrightarrow>
     span_start r = lo \<and> lo < span_end r \<and> (k = span_end r - 1 \<or> m = [] \<and> k = span_end r \<and> region r = None) \<and>
     tiles (span_end r) hi m"

fun tiles_strict :: "vaddr \<Rightarrow> vaddr \<Rightarrow> AddressMap \<Rightarrow> bool" where
  "tiles_strict lo hi [] \<longleftrightarrow> lo = hi"
| "tiles_strict lo hi ((k, r) # m) \<longleftrightarrow>
     span_start r = lo \<and> lo < span_end r \<and> k = span_end r - 1 \<and> tiles_strict (span_end r) hi m"

text \<open>The occupied region at an address, if any.\<close>

definition occupant :: "AddressMap \<Rightarrow> vaddr \<Rightarrow> AddressRegion option" where
  "occupant m x = (case amap_find m x of
     Some r \<Rightarrow> if region r \<noteq> None \<and> span_start r \<le> x \<and> x < span_end r then Some r else None
   | None \<Rightarrow> None)"

section \<open>Tilings\<close>

lemma tiles_strict_le: "tiles_strict lo hi m \<Longrightarrow> lo \<le> hi"
  by (induction lo hi m rule: tiles_strict.induct) auto

lemma tiles_le: "tiles lo hi m \<Longrightarrow> lo \<le> hi"
  by (induction lo hi m rule: tiles.induct) auto

lemma tiles_strict_tiles: "tiles_strict lo hi m \<Longrightarrow> tiles lo hi m"
  by (induction lo hi m rule: tiles_strict.induct) auto

lemma tiles_strict_append:
  "tiles_strict lo hi (xs @ ys) \<longleftrightarrow> (\<exists>mid. tiles_strict lo mid xs \<and> tiles_strict mid hi ys)"
  by (induction xs arbitrary: lo) auto

lemma tiles_append:
  "ys \<noteq> [] \<Longrightarrow> tiles lo hi (xs @ ys) \<longleftrightarrow> (\<exists>mid. tiles_strict lo mid xs \<and> tiles mid hi ys)"
  by (induction xs arbitrary: lo) auto

lemma tiles_glue: "tiles_strict lo mid xs \<Longrightarrow> tiles mid hi ys \<Longrightarrow> tiles lo hi (xs @ ys)"
proof (cases "ys = []")
  case True
  assume "tiles_strict lo mid xs" "tiles mid hi ys"
  then show ?thesis using True tiles_strict_tiles by simp
next
  case False
  assume "tiles_strict lo mid xs" "tiles mid hi ys"
  then show ?thesis using tiles_append [OF False] by blast
qed

lemma less_end_pred: "(a :: vaddr) < e \<Longrightarrow> a \<le> e - 1 \<and> e - 1 < e"
proof -
  assume "a < e"
  then have "0 < e" by (simp add: word_less_nat_alt)
  with \<open>a < e\<close> show ?thesis using word_less_imp_le_pred [of a e] word_pred_less [of e] by simp
qed

lemma tiles_strict_keys: "tiles_strict lo hi m \<Longrightarrow> k \<in> set (map fst m) \<Longrightarrow> lo \<le> k \<and> k < hi"
proof (induction lo hi m rule: tiles_strict.induct)
  case (2 lo hi k' r m)
  have h: "lo < span_end r" "k' = span_end r - 1" "tiles_strict (span_end r) hi m" using 2(2) by auto
  note le = tiles_strict_le [OF h(3)] less_end_pred [OF h(1)]
  show ?case
  proof (cases "k = k'")
    case True
    then show ?thesis using h(2) le by auto
  next
    case False
    then have "span_end r \<le> k \<and> k < hi" using 2 h(3) by auto
    then show ?thesis using h(1) by auto
  qed
qed simp

lemma tiles_keys: "tiles lo hi m \<Longrightarrow> k \<in> set (map fst m) \<Longrightarrow> lo \<le> k"
proof (induction lo hi m rule: tiles.induct)
  case (2 lo hi k' r m)
  have h: "lo < span_end r" "k' = span_end r - 1 \<or> k' = span_end r" "tiles (span_end r) hi m" using 2(2) by auto
  show ?case
  proof (cases "k = k'")
    case True
    then show ?thesis using h(2) less_end_pred [OF h(1)] h(1) by auto
  next
    case False
    then have "span_end r \<le> k" using 2 h(3) by auto
    then show ?thesis using h(1) by auto
  qed
qed simp

lemma bt_range_from_mid:
  "(\<forall>k' \<in> set (map fst xs). k' < x) \<Longrightarrow> x \<le> k \<Longrightarrow> bt_range_from (xs @ (k, r) # ys) x = Some (k, r)"
  by (induction xs) auto

lemma bt_remove_mid:
  "k \<notin> set (map fst xs) \<Longrightarrow> bt_remove k (xs @ (k, r) # ys) = xs @ ys"
  by (induction xs) auto

lemma bt_insert_mid:
  "(\<forall>k' \<in> set (map fst xs). k' < k) \<Longrightarrow> (\<forall>k' \<in> set (map fst ys). k < k') \<Longrightarrow>
   bt_insert k v (xs @ ys) = xs @ (k, v) # ys"
proof (induction xs)
  case Nil
  then show ?case by (cases ys) auto
qed auto

text \<open>The region of an address inside the tiled space, and that \<open>find\<close> returns it.\<close>

lemma tiles_mid:
  assumes "tiles lo hi (xs @ (k, r) # ys)"
  shows "tiles_strict lo (span_start r) xs" "span_start r < span_end r" "tiles (span_end r) hi ys"
    "k = span_end r - 1 \<or> ys = [] \<and> k = span_end r \<and> region r = None"
    "\<forall>k' \<in> set (map fst xs). k' < span_start r" "\<forall>k' \<in> set (map fst ys). span_end r \<le> k'"
    "span_end r - 1 \<le> k" "k \<notin> set (map fst xs)" "span_start r \<le> k"
proof -
  obtain mid where m: "tiles_strict lo mid xs" "tiles mid hi ((k, r) # ys)"
    using assms tiles_append [of "(k, r) # ys"] by auto
  then show 1: "tiles_strict lo (span_start r) xs" and 2: "span_start r < span_end r" and 3: "tiles (span_end r) hi ys"
    and 4: "k = span_end r - 1 \<or> ys = [] \<and> k = span_end r \<and> region r = None" by auto
  show 5: "\<forall>k' \<in> set (map fst xs). k' < span_start r" using tiles_strict_keys [OF 1] by blast
  show "\<forall>k' \<in> set (map fst ys). span_end r \<le> k'" using tiles_keys [OF 3] by blast
  show 6: "span_end r - 1 \<le> k" using 4 less_end_pred [OF 2] by auto
  then show 7: "span_start r \<le> k" using less_end_pred [OF 2] by auto
  show "k \<notin> set (map fst xs)" using 5 7 by auto
qed

lemma tiles_find:
  assumes "tiles lo hi (xs @ (k, r) # ys)" "span_start r \<le> x" "x < span_end r"
  shows "bt_range_from (xs @ (k, r) # ys) x = Some (k, r)" "amap_find (xs @ (k, r) # ys) x = Some r"
proof -
  note t = tiles_mid [OF assms(1)]
  have "x \<le> k" using less_end_pred [OF assms(3)] t(7) by auto
  moreover have "\<forall>k' \<in> set (map fst xs). k' < x" using t(5) assms(2) by force
  ultimately show "bt_range_from (xs @ (k, r) # ys) x = Some (k, r)" by (simp add: bt_range_from_mid)
  then show "amap_find (xs @ (k, r) # ys) x = Some r" by (simp add: amap_find_def)
qed

lemma tiles_region_of:
  "tiles lo hi m \<Longrightarrow> lo \<le> x \<Longrightarrow> x < hi \<Longrightarrow>
   \<exists>xs k r ys. m = xs @ (k, r) # ys \<and> span_start r \<le> x \<and> x < span_end r"
proof (induction lo hi m rule: tiles.induct)
  case (2 lo hi k r m)
  show ?case
  proof (cases "x < span_end r")
    case True
    then have "(k, r) # m = [] @ (k, r) # m \<and> span_start r \<le> x \<and> x < span_end r" using 2 by auto
    then show ?thesis by blast
  next
    case False
    then have "\<exists>xs k r ys. m = xs @ (k, r) # ys \<and> span_start r \<le> x \<and> x < span_end r"
      using 2 by (simp add: not_less)
    then obtain xs k' r' ys where "m = xs @ (k', r') # ys" "span_start r' \<le> x" "x < span_end r'"
      by blast
    then have "(k, r) # m = ((k, r) # xs) @ (k', r') # ys \<and> span_start r' \<le> x \<and> x < span_end r'" by simp
    then show ?thesis by blast
  qed
qed auto

lemma tiles_inside: "tiles lo hi m \<Longrightarrow> (k, r) \<in> set m \<Longrightarrow> lo \<le> span_start r \<and> span_end r \<le> hi"
proof -
  assume t: "tiles lo hi m" and "(k, r) \<in> set m"
  then obtain xs ys where m: "m = xs @ (k, r) # ys" by (metis split_list)
  show ?thesis using tiles_mid [OF t [unfolded m]] tiles_strict_le tiles_le by blast
qed

lemma tiles_bt_ok: "tiles lo hi m \<Longrightarrow> bt_ok m"
proof (induction lo hi m rule: tiles.induct)
  case (2 lo hi k r m)
  note t = tiles_mid [of lo hi "[]" k r m]
  have "\<forall>k' \<in> set (map fst m). k < k'"
    using t(4,6) 2(2) less_end_pred [of lo "span_end r"] by fastforce
  then show ?case using 2 by (auto simp: bt_ok_Cons)
qed simp

lemma occupant_mid:
  assumes "tiles lo hi (xs @ (k, r) # ys)" "span_start r \<le> x" "x < span_end r"
  shows "occupant (xs @ (k, r) # ys) x = (if region r = None then None else Some r)"
  using tiles_find(2) [OF assms] assms(2,3) by (simp add: occupant_def)

lemma occupant_SomeD:
  assumes "occupant m x = Some r"
  shows "\<exists>k. (k, r) \<in> set m" "region r \<noteq> None" "span_start r \<le> x" "x < span_end r"
proof -
  obtain k where k: "bt_range_from m x = Some (k, r)"
    and h: "region r \<noteq> None \<and> span_start r \<le> x \<and> x < span_end r"
    using assms by (auto simp: occupant_def amap_find_def split: option.splits if_splits)
  then show "\<exists>k. (k, r) \<in> set m" "region r \<noteq> None" "span_start r \<le> x" "x < span_end r"
    using bt_range_from_Some [OF k] by auto
qed

lemma occupant_iff:
  assumes "tiles lo hi m"
  shows "occupant m x = Some r \<longleftrightarrow> (\<exists>k. (k, r) \<in> set m) \<and> region r \<noteq> None \<and> span_start r \<le> x \<and> x < span_end r"
proof
  assume "occupant m x = Some r"
  then show "(\<exists>k. (k, r) \<in> set m) \<and> region r \<noteq> None \<and> span_start r \<le> x \<and> x < span_end r"
    using occupant_SomeD by blast
next
  assume h: "(\<exists>k. (k, r) \<in> set m) \<and> region r \<noteq> None \<and> span_start r \<le> x \<and> x < span_end r"
  then obtain k xs ys where m: "m = xs @ (k, r) # ys" by (metis split_list)
  show "occupant m x = Some r" using occupant_mid [OF assms [unfolded m]] h m by simp
qed

lemma occupant_eqI:
  assumes "tiles lo hi m" "tiles lo hi m'"
    and "\<And>r. (\<exists>k. (k, r) \<in> set m') \<and> region r \<noteq> None \<and> span_start r \<le> x \<and> x < span_end r \<longleftrightarrow>
             (\<exists>k. (k, r) \<in> set m) \<and> region r \<noteq> None \<and> span_start r \<le> x \<and> x < span_end r"
  shows "occupant m' x = occupant m x"
  using occupant_iff [OF assms(1), of x] occupant_iff [OF assms(2), of x] assms(3)
  by (metis not_Some_eq)

section \<open>Allocation\<close>

text \<open>The regions an allocation puts in the place of the free region \<open>r\<close>.\<close>

definition active_region :: "vaddr \<Rightarrow> vaddr \<Rightarrow> MemoryRegion \<Rightarrow> AddressRegionKind \<Rightarrow> flags \<Rightarrow> AddressRegion" where
  "active_region start stop backing k perms =
     \<lparr> region = Some backing, span_start = start, span_end = stop, kind = k, permissions = perms \<rparr>"

lemma unchecked_minus_1: "unchecked_offset a (- 1) = a - 1"
  by (simp add: unchecked_offset_def)

lemma amap_alloc_splits:
  assumes t: "tiles lo hi (xs @ (key, r) # ys)" and r: "region r = None" "span_start r \<le> start" "stop \<le> span_end r"
    and se: "start < stop"
  shows "\<exists>pre post. amap_alloc (xs @ (key, r) # ys) start stop backing k perms =
      Inr (xs @ (pre @ (stop - 1, active_region start stop backing k perms) # post) @ ys) \<and>
    tiles_strict (span_start r) start pre \<and> tiles_strict stop (span_end r) post \<and>
    (\<forall>kq \<in> set (pre @ post). region (snd kq) = None)"
proof -
  let ?a = "active_region start stop backing k perms"
  note m = tiles_mid [OF t]
  have se': "start < span_end r" using se r(3) by simp
  have f: "bt_range_from (xs @ (key, r) # ys) start = Some (key, r)" by (rule tiles_find(1) [OF t r(2) se'])
  have rm: "bt_remove key (xs @ (key, r) # ys) = xs @ ys" by (rule bt_remove_mid [OF m(8)])
  have k1: "start \<le> stop - 1" "stop - 1 < stop" using less_end_pred [OF se] by auto
  have lt_xs: "\<forall>k' \<in> set (map fst xs). k' < x" if "span_start r \<le> x" for x using m(5) that by force
  have gt_ys: "\<forall>k' \<in> set (map fst ys). x < k'" if "x < span_end r" for x using m(6) that by force
  have e1: "span_end r - 1 < span_end r" "span_start r \<le> span_end r - 1" using less_end_pred [OF m(2)] by auto
  show ?thesis
  proof (cases "span_start r = start")
    case s: True
    show ?thesis
    proof (cases "span_end r = stop")
      case e: True
      have "amap_alloc (xs @ (key, r) # ys) start stop backing k perms = Inr (xs @ ([] @ (stop - 1, ?a) # []) @ ys)"
        using f r s e rm bt_insert_mid [of xs "stop - 1" ys ?a] lt_xs [of "stop - 1"] gt_ys [of "stop - 1"] k1
        by (simp add: amap_alloc_def unchecked_minus_1 active_region_def Let_def not_less)
      then show ?thesis using s e by (intro exI [of _ "[]"]) simp
    next
      case e: False
      let ?old = "r\<lparr>span_start := stop\<rparr>"
      have lt: "stop < span_end r" using r(3) e by simp
      have st: "stop \<le> span_end r - 1" using less_end_pred [OF lt] by simp
      have "amap_alloc (xs @ (key, r) # ys) start stop backing k perms =
          Inr (xs @ ([] @ (stop - 1, ?a) # [(span_end r - 1, ?old)]) @ ys)"
        using f r s e rm bt_insert_mid [of xs "span_end r - 1" ys ?old] lt_xs [of "span_end r - 1"] gt_ys [of "span_end r - 1"]
          e1 bt_insert_mid [of xs "stop - 1" "(span_end r - 1, ?old) # ys" ?a] lt_xs [of "stop - 1"] gt_ys [of "stop - 1"] k1 st lt
        by (simp add: amap_alloc_def unchecked_minus_1 active_region_def Let_def not_less)
      then show ?thesis using s lt r(1)
        by (intro exI [of _ "[]"] exI [of _ "[(span_end r - 1, ?old)]"]) simp
    qed
  next
    case s: False
    then have slt: "span_start r < start" using r(2) by simp
    have s1: "start - 1 < start" "span_start r \<le> start - 1" using less_end_pred [OF slt] by auto
    have lt1: "start - 1 < stop - 1" using s1 k1 by simp
    show ?thesis
    proof (cases "span_end r = stop")
      case e: True
      let ?old = "r\<lparr>span_end := start\<rparr>"
      have "bt_insert (start - 1) ?old (xs @ ys) = (xs @ [(start - 1, ?old)]) @ ys"
        using bt_insert_mid [of xs "start - 1" ys ?old] lt_xs [of "start - 1"] gt_ys [of "start - 1"] s1 se' by simp
      moreover have "bt_insert (stop - 1) ?a ((xs @ [(start - 1, ?old)]) @ ys) =
          (xs @ [(start - 1, ?old)]) @ (stop - 1, ?a) # ys"
        using bt_insert_mid [of "xs @ [(start - 1, ?old)]" "stop - 1" ys ?a] lt_xs [of "stop - 1"]
          gt_ys [of "stop - 1"] s1 k1 lt1 r(2) e by simp
      ultimately have "amap_alloc (xs @ (key, r) # ys) start stop backing k perms =
          Inr (xs @ ([(start - 1, ?old)] @ (stop - 1, ?a) # []) @ ys)"
        using f r s e rm by (simp add: amap_alloc_def unchecked_minus_1 active_region_def Let_def not_less)
      then show ?thesis using e slt r(1)
        by (intro exI [of _ "[(start - 1, ?old)]"] exI [of _ "[]"]) simp
    next
      case e: False
      let ?b = "\<lparr> region = None, span_start = span_start r, span_end = start, kind = Kind_Unoccupied, permissions = FLAG_NONE \<rparr>"
      let ?c = "\<lparr> region = None, span_start = stop, span_end = span_end r, kind = Kind_Unoccupied, permissions = FLAG_NONE \<rparr>"
      have lt: "stop < span_end r" using r(3) e by simp
      have st: "stop \<le> span_end r - 1" using less_end_pred [OF lt] by simp
      have lt2: "stop - 1 < span_end r - 1" "start - 1 < span_end r - 1"
        using less_le_trans [OF k1(2) st] lt1 less_trans by blast+
      have "bt_insert (start - 1) ?b (xs @ ys) = (xs @ [(start - 1, ?b)]) @ ys"
        using bt_insert_mid [of xs "start - 1" ys ?b] lt_xs [of "start - 1"] gt_ys [of "start - 1"] s1 se' by simp
      moreover have "bt_insert (stop - 1) ?a ((xs @ [(start - 1, ?b)]) @ ys) =
          (xs @ [(start - 1, ?b), (stop - 1, ?a)]) @ ys"
        using bt_insert_mid [of "xs @ [(start - 1, ?b)]" "stop - 1" ys ?a] lt_xs [of "stop - 1"]
          gt_ys [of "stop - 1"] s1 k1 lt1 r(2) lt by simp
      moreover have "bt_insert (span_end r - 1) ?c ((xs @ [(start - 1, ?b), (stop - 1, ?a)]) @ ys) =
          (xs @ [(start - 1, ?b), (stop - 1, ?a)]) @ (span_end r - 1, ?c) # ys"
        using bt_insert_mid [of "xs @ [(start - 1, ?b), (stop - 1, ?a)]" "span_end r - 1" ys ?c]
          lt_xs [of "span_end r - 1"] gt_ys [of "span_end r - 1"] e1 lt2 by simp
      ultimately have "amap_alloc (xs @ (key, r) # ys) start stop backing k perms =
          Inr (xs @ ([(start - 1, ?b)] @ (stop - 1, ?a) # [(span_end r - 1, ?c)]) @ ys)"
        using f r s e rm by (simp add: amap_alloc_def unchecked_minus_1 active_region_def Let_def not_less)
      then show ?thesis using slt lt
        by (intro exI [of _ "[(start - 1, ?b)]"] exI [of _ "[(span_end r - 1, ?c)]"]) simp
    qed
  qed
qed

lemma amap_alloc_Inr_iff:
  assumes "tiles lo hi m" "start < stop"
  shows "(\<exists>m'. amap_alloc m start stop backing k perms = Inr m') \<longleftrightarrow>
    (\<exists>r \<in> set (unoccupied_regions m). span_start r \<le> start \<and> stop \<le> span_end r)"
proof
  assume "\<exists>m'. amap_alloc m start stop backing k perms = Inr m'"
  then obtain key r where f: "bt_range_from m start = Some (key, r)"
    and r: "span_start r \<le> start" "stop \<le> span_end r" "region r = None"
    by (auto simp: amap_alloc_def not_less split: option.splits if_splits)
  show "\<exists>r \<in> set (unoccupied_regions m). span_start r \<le> start \<and> stop \<le> span_end r"
    using bt_range_from_Some [OF f] r by (force simp: unoccupied_regions_def)
next
  assume "\<exists>r \<in> set (unoccupied_regions m). span_start r \<le> start \<and> stop \<le> span_end r"
  then obtain key r where r: "(key, r) \<in> set m" "region r = None" "span_start r \<le> start" "stop \<le> span_end r"
    by (auto simp: unoccupied_regions_def)
  then obtain xs ys where m: "m = xs @ (key, r) # ys" by (metis split_list)
  show "\<exists>m'. amap_alloc m start stop backing k perms = Inr m'"
    using amap_alloc_splits [OF assms(1) [unfolded m] r(2-4) assms(2)] m by blast
qed

lemma amap_alloc_spec:
  assumes t: "tiles lo hi m" and se: "start < stop"
    and a: "amap_alloc m start stop backing k perms = Inr m'"
  shows "tiles lo hi m'"
    "occupant m' x = (if start \<le> x \<and> x < stop then Some (active_region start stop backing k perms) else occupant m x)"
    "start \<le> x \<Longrightarrow> x < stop \<Longrightarrow> occupant m x = None"
    "m \<noteq> [] \<Longrightarrow> region (snd (hd m)) \<noteq> None \<Longrightarrow> region (snd (hd m')) \<noteq> None"
proof -
  let ?a = "active_region start stop backing k perms"
  obtain key r where r: "(key, r) \<in> set m" "region r = None" "span_start r \<le> start" "stop \<le> span_end r"
    using amap_alloc_Inr_iff [OF t se] a by (fastforce simp: unoccupied_regions_def)
  then obtain xs ys where m: "m = xs @ (key, r) # ys" by (metis split_list)
  note tm = tiles_mid [OF t [unfolded m]]
  obtain pre post where p: "m' = xs @ (pre @ (stop - 1, ?a) # post) @ ys"
    "tiles_strict (span_start r) start pre" "tiles_strict stop (span_end r) post"
    "\<forall>kq \<in> set (pre @ post). region (snd kq) = None"
    using amap_alloc_splits [OF t [unfolded m] r(2-4) se, of backing k perms] a m by auto
  have sa: "span_start ?a = start" "span_end ?a = stop" "region ?a = Some backing" by (simp_all add: active_region_def)
  have mid: "tiles_strict (span_start r) (span_end r) (pre @ (stop - 1, ?a) # post)"
    using p(2,3) se sa by (auto simp: tiles_strict_append)
  show t': "tiles lo hi m'"
    unfolding p(1) by (intro tiles_glue [OF tm(1)] tiles_glue [OF mid] tm(3))
  show none: "occupant m x = None" if "start \<le> x" "x < stop" for x
  proof -
    have "span_start r \<le> x" "x < span_end r" using that r(3,4) by auto
    then show ?thesis using occupant_mid [OF t [unfolded m], of x] r(2) m by simp
  qed
  show "occupant m' x = (if start \<le> x \<and> x < stop then Some ?a else occupant m x)"
  proof (cases "start \<le> x \<and> x < stop")
    case True
    then show ?thesis using occupant_iff [OF t', of x ?a] p(1) sa by auto
  next
    case False
    have "occupant m' x = occupant m x"
      by (rule occupant_eqI [OF t t']) (use False p(1,4) m r(2) sa in force)
    with False show ?thesis by auto
  qed
  show "region (snd (hd m')) \<noteq> None" if "m \<noteq> []" "region (snd (hd m)) \<noteq> None"
    using that r(2) p(1) m by (cases xs) auto
qed

section \<open>Release\<close>

declare coalesce_lower.simps [simp del] coalesce_upper.simps [simp del]

text \<open>The invariant of a task's map: the regions tile user space, and the lowest is occupied.\<close>

definition amap_ok :: "vaddr \<Rightarrow> vaddr \<Rightarrow> AddressMap \<Rightarrow> bool" where
  "amap_ok lo hi m \<longleftrightarrow> tiles lo hi m \<and> m \<noteq> [] \<and> region (snd (hd m)) \<noteq> None"

lemma coalesce_lower_stop:
  assumes "m = [] \<or> region (snd (hd m)) \<noteq> None \<or> \<not> fst (hd m) < span_start r"
  shows "coalesce_lower m r = (m, r)"
  using assms by (subst coalesce_lower.simps, cases m) (auto split: prod.splits)

lemma coalesce_upper_spec:
  assumes "tiles (span_end r) hi ys" "\<forall>k \<in> set (map fst xs). k < span_end r"
  shows "\<exists>fs ys' mid. ys = fs @ ys' \<and> (\<forall>kq \<in> set fs. region (snd kq) = None) \<and> span_end r \<le> mid \<and>
    tiles mid hi ys' \<and> (ys' = [] \<or> region (snd (hd ys')) \<noteq> None) \<and>
    coalesce_upper (xs @ ys) r = (xs @ ys', r\<lparr>span_end := mid\<rparr>)"
  using assms
proof (induction ys arbitrary: r)
  case Nil
  have "coalesce_upper xs r = (xs, r)"
    using Nil(2) bt_range_from_None [of xs "span_end r"] by (simp add: coalesce_upper.simps [of xs r])
  then show ?case using Nil(1) by (intro exI [of _ "[]"] exI [of _ "span_end r"]) simp
next
  case (Cons kq ys)
  obtain k q where kq: "kq = (k, q)" by force
  have t: "span_start q = span_end r" "span_end r < span_end q" "tiles (span_end q) hi ys"
    "k = span_end q - 1 \<or> k = span_end q"
    using Cons.prems(1) kq by auto
  have kge: "span_end r \<le> k" using t(4) less_end_pred [OF t(2)] t(2) by auto
  have f: "bt_range_from (xs @ kq # ys) (span_end r) = Some (k, q)"
    unfolding kq by (rule bt_range_from_mid [OF Cons.prems(2) kge])
  show ?case
  proof (cases "region q = None")
    case True
    let ?r = "r\<lparr>span_end := span_end q\<rparr>"
    have "k \<notin> set (map fst xs)" using Cons.prems(2) kge by auto
    then have rm: "bt_remove k (xs @ kq # ys) = xs @ ys" unfolding kq by (rule bt_remove_mid)
    have "\<forall>k \<in> set (map fst xs). k < span_end ?r" using Cons.prems(2) t(2) by force
    from Cons.IH [of ?r, OF _ this] t(3) obtain fs ys' mid where IH:
      "ys = fs @ ys'" "\<forall>kq \<in> set fs. region (snd kq) = None" "span_end ?r \<le> mid" "tiles mid hi ys'"
      "ys' = [] \<or> region (snd (hd ys')) \<noteq> None" "coalesce_upper (xs @ ys) ?r = (xs @ ys', ?r\<lparr>span_end := mid\<rparr>)" by auto
    have "coalesce_upper (xs @ kq # ys) r = coalesce_upper (xs @ ys) ?r"
      using f rm True by (simp add: coalesce_upper.simps [of "xs @ kq # ys" r])
    then have "coalesce_upper (xs @ kq # ys) r = (xs @ ys', r\<lparr>span_end := mid\<rparr>)" using IH(6) by simp
    then show ?thesis using IH True kq t(2)
      by (intro exI [of _ "kq # fs"] exI [of _ ys'] exI [of _ mid]) auto
  next
    case False
    have "coalesce_upper (xs @ kq # ys) r = (xs @ kq # ys, r)"
      by (subst coalesce_upper.simps) (use f False in auto)
    then show ?thesis using Cons.prems(1) False kq
      by (intro exI [of _ "[]"] exI [of _ "kq # ys"] exI [of _ "span_end r"]) simp
  qed
qed

lemma user_offset_minus_1:
  assumes "a < e" "e \<le> 0x3FFFFFFFFF"
  shows "vaddr_offset e (- 1) = Some (e - 1)"
proof -
  have p: "e - 1 < e" "e \<noteq> 0" using less_end_pred [OF assms(1)] assms(1) by (auto simp: word_less_nat_alt)
  have 1: "(1 :: usize) \<le> e" using p(2) by (simp add: word_le_nat_alt Suc_le_eq unat_gt_0)
  have u: "in_userspace (e - 1)" using p(1) assms(2) by (simp add: in_userspace_iff)
  have ue: "unat e \<le> 0x3FFFFFFFFF" using assms(2) by (simp add: word_le_nat_alt)
  have "\<not> is_kernel_region e" using ue unfolding is_kernel_region_iff bit_last_iff_le by linarith
  then show ?thesis
    using 1 u in_userspace_not_kernel [OF u]
    by (simp add: vaddr_offset_def vaddr_checked_offset_def checked_sub_Some_iff [THEN iffD2] in_userspace_def)
qed

lemma coalesce_lower_first:
  assumes "span_start q0 = lo" "region q0 = None" "k0 < span_start r" "k0 \<notin> set (map fst (xs @ ys))"
    "\<forall>k \<in> set (map fst (xs @ ys)). lo \<le> k"
  shows "coalesce_lower ((k0, q0) # xs @ ys) r = (xs @ ys, r\<lparr>span_start := lo\<rparr>)"
proof -
  have rm: "bt_remove k0 ((k0, q0) # xs @ ys) = xs @ ys" using bt_remove_mid [of k0 "[]" q0 "xs @ ys"] by simp
  have "coalesce_lower (xs @ ys) (r\<lparr>span_start := lo\<rparr>) = (xs @ ys, r\<lparr>span_start := lo\<rparr>)"
    by (rule coalesce_lower_stop) (use assms(5) in \<open>cases "xs @ ys"; auto\<close>)
  then show ?thesis using assms(1-3) rm by (subst coalesce_lower.simps) simp
qed

text \<open>What \<^const>\<open>amap_free\<close> leaves, given what the loop over the lower neighbours does.\<close>

lemma amap_free_run:
  assumes t: "tiles lo hi (xs @ (k, r) # ys)" and hi: "hi \<le> 0x3FFFFFFFFF" and bk: "region r = Some backing"
    and cl: "coalesce_lower (xs @ ys) r = (zs @ ys, r\<lparr>span_start := s0\<rparr>)"
    and zs: "\<forall>k \<in> set (map fst zs). k < span_start r"
  obtains fs ys' mid where "ys = fs @ ys'" "\<forall>kq \<in> set fs. region (snd kq) = None" "span_end r \<le> mid" "tiles mid hi ys'"
    "ys' = [] \<or> region (snd (hd ys')) \<noteq> None"
    "amap_free (xs @ (k, r) # ys) (span_start r) (span_end r) =
      Some (Inr (backing, zs @ (mid - 1, r\<lparr>span_start := s0, span_end := mid, region := None\<rparr>) # ys'))"
proof -
  let ?m = "xs @ (k, r) # ys" and ?r = "r\<lparr>span_start := s0\<rparr>"
  note tm = tiles_mid [OF t]
  have k: "k = span_end r - 1" using tm(4) bk by auto
  have f: "bt_range_from ?m (span_start r) = Some (k, r)" by (rule tiles_find(1) [OF t]) (use tm(2) in auto)
  have "distinct (map fst ?m)" by (rule bt_ok_distinct [OF tiles_bt_ok [OF t]])
  then have g: "bt_get ?m k = Some r" unfolding bt_get_def by (subst map_of_eq_Some_iff) auto
  have rm: "bt_remove k ?m = xs @ ys" by (rule bt_remove_mid [OF tm(8)])
  have off: "vaddr_offset (span_end r) (- 1) = Some k"
    unfolding k by (rule user_offset_minus_1 [OF tm(2)]) (use tiles_inside [OF t, of k r] hi in auto)
  have t3: "tiles (span_end ?r) hi ys" and lt: "\<forall>k \<in> set (map fst zs). k < span_end ?r" using tm(2,3) zs by force+
  obtain fs ys' mid where u: "ys = fs @ ys'" "\<forall>kq \<in> set fs. region (snd kq) = None" "span_end r \<le> mid"
    "tiles mid hi ys'" "ys' = [] \<or> region (snd (hd ys')) \<noteq> None" "coalesce_upper (zs @ ys) ?r = (zs @ ys', ?r\<lparr>span_end := mid\<rparr>)"
    using coalesce_upper_spec [OF t3 lt] by auto
  have sm: "span_start r < mid" using tm(2) u(3) by auto
  have "bt_insert (mid - 1) v (zs @ ys') = zs @ (mid - 1, v) # ys'" for v
  proof (rule bt_insert_mid)
    show "\<forall>k' \<in> set (map fst zs). k' < mid - 1" using zs less_end_pred [OF sm] by force
    show "\<forall>k' \<in> set (map fst ys'). mid - 1 < k'" using tiles_keys [OF u(4)] less_end_pred [OF sm] by force
  qed
  then have "amap_free ?m (span_start r) (span_end r) =
      Some (Inr (backing, zs @ (mid - 1, r\<lparr>span_start := s0, span_end := mid, region := None\<rparr>) # ys'))"
    using f g rm cl u(6) off bk by (simp add: amap_free_def unchecked_minus_1)
  with u(1-5) show ?thesis by (rule that)
qed

lemma occupant_freed:
  assumes t: "tiles lo hi (xs @ (k, r) # fs @ ys')" and t': "tiles lo hi (zs @ (k', q) # ys')" and q: "region q = None"
    "span_start q \<le> span_start r" "span_end r \<le> span_end q" and r: "region r \<noteq> None"
    and fr: "\<forall>kq \<in> set fs. region (snd kq) = None"
    and xs: "\<And>s. region s \<noteq> None \<Longrightarrow> (\<exists>k. (k, s) \<in> set zs) \<longleftrightarrow> (\<exists>k. (k, s) \<in> set xs)"
  shows "occupant (zs @ (k', q) # ys') x =
    (if span_start r \<le> x \<and> x < span_end r then None else occupant (xs @ (k, r) # fs @ ys') x)"
proof (cases "span_start r \<le> x \<and> x < span_end r")
  case True
  then show ?thesis using occupant_mid [OF t', of x] q by auto
next
  case False
  have "occupant (zs @ (k', q) # ys') x = occupant (xs @ (k, r) # fs @ ys') x"
  proof (rule occupant_eqI [OF t t'])
    fix s
    have "region s \<noteq> None \<Longrightarrow> (\<exists>k. (k, s) \<in> set (zs @ (k', q) # ys')) \<longleftrightarrow> (\<exists>k. (k, s) \<in> set (xs @ fs @ ys'))"
      using xs [of s] q(1) fr by auto
    moreover have "span_start s \<le> x \<and> x < span_end s \<Longrightarrow> s \<noteq> r" using False by auto
    ultimately show "(\<exists>k. (k, s) \<in> set (zs @ (k', q) # ys')) \<and> region s \<noteq> None \<and> span_start s \<le> x \<and> x < span_end s \<longleftrightarrow>
        (\<exists>ka. (ka, s) \<in> set (xs @ (k, r) # fs @ ys')) \<and> region s \<noteq> None \<and> span_start s \<le> x \<and> x < span_end s"
      by auto
  qed
  with False show ?thesis by auto
qed

text \<open>
  The loop over the lower neighbours looks at the lowest region of the map instead of the one below the freed
  span. This is harmless only when that region is occupied, or free and itself the neighbour.
\<close>

definition lowest_harmless :: "AddressMap \<Rightarrow> vaddr \<Rightarrow> bool" where
  "lowest_harmless m start \<longleftrightarrow> region (snd (hd m)) \<noteq> None \<or> span_end (snd (hd m)) = start"

lemma tiles_after_free:
  assumes "tiles mid hi ys'" "span_end q = mid" "span_start q < mid" "tiles_strict lo (span_start q) zs"
  shows "tiles lo hi (zs @ (mid - 1, q) # ys')"
  using assms by (intro tiles_glue) auto

lemma tiles_next:
  assumes t: "tiles lo hi (zs @ (k, q) # ys)" and p: "(k2, p) \<in> set (zs @ (k, q) # ys)" "span_start p = span_end q"
  shows "ys \<noteq> [] \<and> p = snd (hd ys)"
proof -
  note tm = tiles_mid [OF t]
  consider "(k2, p) \<in> set zs" | "p = q" | "(k2, p) \<in> set ys" using p(1) by auto
  then show ?thesis
  proof cases
    case 1
    then obtain as bs where zs: "zs = as @ (k2, p) # bs" by (metis split_list)
    have tp: "tiles lo hi (as @ (k2, p) # bs @ (k, q) # ys)" using t zs by simp
    have "span_end p \<le> span_start q" using tiles_inside [OF tiles_mid(3) [OF tp], of k q] by simp
    then show ?thesis using tiles_mid(2) [OF tp] tm(2) p(2) by auto
  next
    case 2
    then show ?thesis using p(2) tm(2) by simp
  next
    case 3
    then obtain k1 p1 zs' where ys: "ys = (k1, p1) # zs'" by (cases ys) auto
    have t1: "tiles (span_end p1) hi zs'" "span_start p1 = span_end q" "span_end q < span_end p1" using tm(3) ys by auto
    then have "(k2, p) \<notin> set zs'" using tiles_inside [OF t1(1), of k2 p] p(2) by auto
    then show ?thesis using 3 ys by auto
  qed
qed

lemma amap_free_harmless:
  assumes t: "tiles lo hi m" and hi: "hi \<le> 0x3FFFFFFFFF" and m: "m = xs @ (k, r) # ys" and bk: "region r = Some backing"
    and cl: "coalesce_lower (xs @ ys) r = (zs @ ys, r\<lparr>span_start := s0\<rparr>)" and s0: "s0 \<le> span_start r"
    and zs: "\<forall>k \<in> set (map fst zs). k < span_start r" "tiles_strict lo s0 zs"
      "\<And>s. region s \<noteq> None \<Longrightarrow> (\<exists>k. (k, s) \<in> set zs) \<longleftrightarrow> (\<exists>k. (k, s) \<in> set xs)"
  obtains m' where "amap_free m (span_start r) (span_end r) = Some (Inr (backing, m'))" "tiles lo hi m'"
    "\<And>x. occupant m' x = (if span_start r \<le> x \<and> x < span_end r then None else occupant m x)"
    "zs \<noteq> [] \<Longrightarrow> hd m' = hd zs"
    "\<exists>k' q. (k', q) \<in> set m' \<and> region q = None \<and> span_end r \<le> span_end q \<and> span_start q = s0 \<and>
        (\<forall>k2 p. (k2, p) \<in> set m' \<and> span_start p = span_end q \<longrightarrow> region p \<noteq> None)"
proof -
  have tr: "span_start r < span_end r" using tiles_mid(2) [OF t [unfolded m]] .
  obtain fs ys' mid where u: "ys = fs @ ys'" "\<forall>kq \<in> set fs. region (snd kq) = None" "span_end r \<le> mid" "tiles mid hi ys'"
    "ys' = [] \<or> region (snd (hd ys')) \<noteq> None"
    "amap_free m (span_start r) (span_end r) =
      Some (Inr (backing, zs @ (mid - 1, r\<lparr>span_start := s0, span_end := mid, region := None\<rparr>) # ys'))"
    using amap_free_run [OF t [unfolded m] hi bk cl zs(1)] unfolding m by metis
  let ?q = "r\<lparr>span_start := s0, span_end := mid, region := None\<rparr>"
  let ?m = "zs @ (mid - 1, ?q) # ys'"
  have t': "tiles lo hi ?m" by (rule tiles_after_free [OF u(4)]) (use zs(2) tr u(3) s0 in auto)
  have mm: "m = xs @ (k, r) # fs @ ys'" using m u(1) by simp
  have occ: "occupant ?m x = (if span_start r \<le> x \<and> x < span_end r then None else occupant m x)" for x
    unfolding mm by (rule occupant_freed [OF _ t' _ _ _ _ u(2) zs(3)]) (use t mm s0 u(3) bk in auto)
  have "\<forall>k2 p. (k2, p) \<in> set ?m \<and> span_start p = span_end ?q \<longrightarrow> region p \<noteq> None"
    using tiles_next [OF t'] u(5) by blast
  then have ex: "\<exists>k' q. (k', q) \<in> set ?m \<and> region q = None \<and> span_end r \<le> span_end q \<and> span_start q = s0 \<and>
        (\<forall>k2 p. (k2, p) \<in> set ?m \<and> span_start p = span_end q \<longrightarrow> region p \<noteq> None)"
    by (intro exI [of _ "mid - 1"] exI [of _ ?q]) (use u(3) in simp)
  show ?thesis by (rule that [OF u(6) t' occ _ ex]) simp
qed

lemma amap_free_harmful:
  assumes t: "tiles lo hi m" and hi: "hi \<le> 0x3FFFFFFFFF" and r: "(k, r) \<in> set m" "region r = Some backing"
    and h: "\<not> lowest_harmless m (span_start r)"
  shows "\<exists>m'. amap_free m (span_start r) (span_end r) = Some (Inr (backing, m')) \<and> \<not> tiles lo hi m'"
proof -
  obtain xs ys where m: "m = xs @ (k, r) # ys" using r(1) by (metis split_list)
  note tm = tiles_mid [OF t [unfolded m]]
  obtain k0 q0 xs' where xs: "xs = (k0, q0) # xs'" "region q0 = None" "span_end q0 \<noteq> span_start r"
    using h r(2) unfolding m lowest_harmless_def by (cases xs) auto
  obtain k1 q1 zs where xs': "xs' = (k1, q1) # zs" using tm(1) xs by (cases xs') auto
  have t0: "tiles lo hi ((k0, q0) # xs' @ (k, r) # ys)" using t m xs by simp
  have q1: "span_start q1 = span_end q0" "lo < span_end q0" using t0 xs' by auto
  have "bt_ok ((k0, q0) # xs' @ (k, r) # ys)" using tiles_bt_ok [OF t0] .
  then have d: "distinct (map fst ((k0, q0) # xs' @ (k, r) # ys))" by (rule bt_ok_distinct)
  have ge: "lo \<le> k2" if "k2 \<in> set (map fst (xs' @ ys))" for k2 using tiles_keys [OF t0, of k2] that by auto
  have rm: "coalesce_lower (xs @ ys) r = (xs' @ ys, r\<lparr>span_start := lo\<rparr>)"
  proof -
    have "k0 < span_start r" using tm(5) xs by simp
    then show ?thesis using coalesce_lower_first [of q0 lo k0 r xs' ys] t0 xs(1,2) d ge by auto
  qed
  have zs: "\<forall>k \<in> set (map fst xs'). k < span_start r" using tm(5) xs(1) by simp
  obtain fs ys' mid where "amap_free m (span_start r) (span_end r) =
      Some (Inr (backing, xs' @ (mid - 1, r\<lparr>span_start := lo, span_end := mid, region := None\<rparr>) # ys'))"
    using amap_free_run [OF t [unfolded m] hi r(2) rm zs] unfolding m by metis
  then show ?thesis using q1 xs' by auto
qed

lemma amap_free_general:
  assumes t: "tiles lo hi m" and hi: "hi \<le> 0x3FFFFFFFFF"
    and r: "(k, r) \<in> set m" "span_start r = start" "span_end r = stop" "region r = Some backing"
  shows "\<exists>m'. amap_free m start stop = Some (Inr (backing, m')) \<and> (tiles lo hi m' \<longleftrightarrow> lowest_harmless m start) \<and>
    (lowest_harmless m start \<longrightarrow>
      (\<forall>x. occupant m' x = (if start \<le> x \<and> x < stop then None else occupant m x)) \<and>
      (lo < start \<and> region (snd (hd m)) \<noteq> None \<longrightarrow> amap_ok lo hi m') \<and>
      (\<exists>k' q. (k', q) \<in> set m' \<and> region q = None \<and> stop \<le> span_end q \<and>
        span_start q = (if region (snd (hd m)) = None then lo else start) \<and>
        (\<forall>k2 p. (k2, p) \<in> set m' \<and> span_start p = span_end q \<longrightarrow> region p \<noteq> None)))"
proof (cases "lowest_harmless m start")
  case False
  then show ?thesis using amap_free_harmful [OF t hi r(1,4)] r(2,3) by auto
next
  case harmless: True
  obtain xs ys where m: "m = xs @ (k, r) # ys" using r(1) by (metis split_list)
  note tm = tiles_mid [OF t [unfolded m]]
  show ?thesis
  proof (cases "region (snd (hd m)) = None")
    case False
    have cl: "coalesce_lower (xs @ ys) r = (xs @ ys, r\<lparr>span_start := span_start r\<rparr>)"
    proof -
      have "\<not> fst (hd ys) < span_start r" if "ys \<noteq> []" using tm(6) tm(2) that by (cases ys) auto
      then show ?thesis using False m by (subst coalesce_lower_stop) (cases xs; auto)+
    qed
    obtain m' where m': "amap_free m start stop = Some (Inr (backing, m'))" "tiles lo hi m'"
      "\<And>x. occupant m' x = (if start \<le> x \<and> x < stop then None else occupant m x)" "xs \<noteq> [] \<Longrightarrow> hd m' = hd xs"
      "\<exists>k' q. (k', q) \<in> set m' \<and> region q = None \<and> stop \<le> span_end q \<and> span_start q = start \<and>
        (\<forall>k2 p. (k2, p) \<in> set m' \<and> span_start p = span_end q \<longrightarrow> region p \<noteq> None)"
      by (rule amap_free_harmless [OF t hi m r(4) cl order_refl tm(5,1), unfolded r(2,3)]) blast+
    have "amap_ok lo hi m'" if "lo < start"
    proof -
      have "xs \<noteq> []" using tm(1) r(2) that by (cases xs) auto
      moreover have "m' \<noteq> []" using m'(5) by auto
      ultimately show ?thesis using False m'(2,4) m by (simp add: amap_ok_def)
    qed
    then show ?thesis using m' harmless False by auto
  next
    case True
    obtain k0 q0 where xs: "xs = [(k0, q0)]"
    proof (cases xs)
      case Nil
      then show ?thesis using True r(4) m by simp
    next
      case (Cons a xs')
      have "span_end (snd a) = span_start r" using harmless True r(2) m Cons by (simp add: lowest_harmless_def)
      then have ts: "tiles_strict (span_start r) (span_start r) xs'" using tm(1) Cons by (cases a) auto
      have "xs' = []"
      proof (rule ccontr)
        assume "xs' \<noteq> []"
        then obtain b bs where "xs' = b # bs" by (cases xs') auto
        then show False using ts tiles_strict_le [of "span_end (snd b)" "span_start r" bs] by (cases b) auto
      qed
      then show ?thesis using Cons that by (cases a) auto
    qed
    have q0: "span_start q0 = lo" "region q0 = None" "lo \<le> span_start r" using tm(1) True m xs by auto
    have "k0 \<notin> set (map fst ([] @ ys))" "\<forall>k \<in> set (map fst ([] @ ys)). lo \<le> k"
      using bt_ok_distinct [OF tiles_bt_ok [OF t]] m xs tm(2,6) q0(3) by force+
    then have cl: "coalesce_lower (xs @ ys) r = ([] @ ys, r\<lparr>span_start := lo\<rparr>)"
      using coalesce_lower_first [OF q0(1,2), of k0 r "[]" ys] tm(5) xs by auto
    obtain m' where m': "amap_free m start stop = Some (Inr (backing, m'))" "tiles lo hi m'"
      "\<And>x. occupant m' x = (if start \<le> x \<and> x < stop then None else occupant m x)"
      "\<exists>k' q. (k', q) \<in> set m' \<and> region q = None \<and> stop \<le> span_end q \<and> span_start q = lo \<and>
        (\<forall>k2 p. (k2, p) \<in> set m' \<and> span_start p = span_end q \<longrightarrow> region p \<noteq> None)"
      by (rule amap_free_harmless [OF t hi m r(4) cl q0(3), unfolded r(2,3)]) (use xs q0(2) in auto)
    then show ?thesis using harmless True by simp
  qed
qed

lemma amap_free_spec:
  assumes ok: "amap_ok lo hi m" and hi: "hi \<le> 0x3FFFFFFFFF"
    and r: "(k, r) \<in> set m" "span_start r = start" "span_end r = stop" "region r = Some backing"
  shows "\<exists>m'. amap_free m start stop = Some (Inr (backing, m')) \<and> tiles lo hi m' \<and>
    (lo < start \<longrightarrow> amap_ok lo hi m') \<and>
    (\<forall>x. occupant m' x = (if start \<le> x \<and> x < stop then None else occupant m x))"
  using amap_free_general [OF _ hi r, of lo] ok by (auto simp: amap_ok_def lowest_harmless_def)

lemma amap_free_iff:
  assumes "tiles lo hi m" "start < stop"
    and "\<not> (\<exists>k r. (k, r) \<in> set m \<and> span_start r = start \<and> span_end r = stop \<and> region r \<noteq> None)"
  shows "\<exists>e. amap_free m start stop = Some (Inl e)"
proof (cases "bt_range_from m start")
  case (Some kr)
  obtain k r where kr: "kr = (k, r)" by force
  have "(k, r) \<in> set m" using bt_range_from_Some [OF Some [unfolded kr]] by simp
  then have "span_start r \<noteq> start \<or> span_end r \<noteq> stop \<or> region r = None" using assms(3) by blast
  then show ?thesis using Some kr by (auto simp: amap_free_def)
qed (simp add: amap_free_def)

section \<open>Properties\<close>

text \<open>The map every task starts from: page zero is taken by a guard, the rest of user space is free.\<close>

definition guard_region :: AddressRegion where
  "guard_region = active_region 0 0x1000 GuardPage Kind_Guard FLAG_NONE"

definition demo_map :: AddressMap where
  "demo_map = (case amap_alloc userspace_map 0 0x1000 GuardPage Kind_Guard FLAG_NONE of Inr m \<Rightarrow> m | Inl _ \<Rightarrow> [])"

lemma demo_map_eq:
  "demo_map = [(0xFFF, guard_region),
     (0x3FFFFFFFFE, \<lparr> region = None, span_start = 0x1000, span_end = 0x3FFFFFFFFF, kind = Kind_Unoccupied, permissions = FLAG_NONE \<rparr>)]"
  by code_simp

text \<open>
  C14. Allocation in a task's address map takes exactly the requested span: when the
  regions tile user space, \<^const>\<open>amap_alloc\<close> succeeds exactly when one free region
  covers the span; then the regions still tile it, every address of the span now
  belongs to the new region, which none belonged to before, and every other address
  keeps its occupant.
\<close>

theorem amap_alloc_takes_free_span:
  assumes "tiles lo hi m" "start < stop"
  shows "case amap_alloc m start stop backing k perms of
      Inl e \<Rightarrow> \<not> (\<exists>r \<in> set (unoccupied_regions m). span_start r \<le> start \<and> stop \<le> span_end r)
    | Inr m' \<Rightarrow> (\<exists>r \<in> set (unoccupied_regions m). span_start r \<le> start \<and> stop \<le> span_end r) \<and> tiles lo hi m' \<and>
        (\<forall>x. (start \<le> x \<and> x < stop \<longrightarrow> occupant m x = None) \<and>
          occupant m' x = (if start \<le> x \<and> x < stop then Some (active_region start stop backing k perms) else occupant m x))"
proof (cases "amap_alloc m start stop backing k perms")
  case (Inl e)
  then show ?thesis using amap_alloc_Inr_iff [OF assms, of backing k perms] by simp
next
  case (Inr m')
  then show ?thesis
    using amap_alloc_Inr_iff [OF assms, of backing k perms] amap_alloc_spec(1-3) [OF assms Inr] by simp
qed

lemma demo_map_tiles: "tiles 0 0x3FFFFFFFFF demo_map"
  unfolding demo_map_eq by (simp add: guard_region_def active_region_def)

theorem amap_alloc_takes_free_span_witness:
  "\<exists>m'. amap_alloc demo_map 0x4000 0x6000 GuardPage Kind_Data FLAG_NONE = Inr m' \<and>
    occupant demo_map 0x4000 = None \<and>
    occupant m' 0x4000 = Some (active_region 0x4000 0x6000 GuardPage Kind_Data FLAG_NONE)"
proof -
  have e: "\<exists>m'. amap_alloc demo_map 0x4000 0x6000 GuardPage Kind_Data FLAG_NONE = Inr m'"
    unfolding demo_map_eq by (simp add: guard_region_def active_region_def amap_alloc_def)
  show ?thesis
    using amap_alloc_takes_free_span [OF demo_map_tiles, of "0x4000" "0x6000" GuardPage Kind_Data FLAG_NONE] e by auto
qed

lemma demo_map_ok: "amap_ok 0 0x3FFFFFFFFF demo_map"
  unfolding amap_ok_def using demo_map_tiles by (simp add: demo_map_eq guard_region_def active_region_def)

text \<open>
  C24. Release, for every map whose regions tile user space. Freeing the exact span of an occupied region does not
  panic and returns the memory that backed it. Which lower regions are merged is decided by looking at the lowest
  region of the whole map, not at the one below the span. The regions still tile user space exactly when that lowest
  region is occupied or lies directly below the span. Then exactly the addresses of the span become unoccupied, and
  one free region covers them that is merged with every free region above; below, it is merged with nothing when the
  lowest region is occupied, as it is in the map of every task, even when the region just below the span is free. In
  the remaining case the freed region is stretched down over the regions in between, which stay in the map, so two
  regions claim the same addresses.
\<close>

theorem amap_free_releases_span:
  assumes "tiles lo hi m" "hi \<le> 0x3FFFFFFFFF"
    and "(k, r) \<in> set m" "span_start r = start" "span_end r = stop" "region r = Some backing"
  shows "\<exists>m'. amap_free m start stop = Some (Inr (backing, m')) \<and>
    (tiles lo hi m' \<longleftrightarrow> region (snd (hd m)) \<noteq> None \<or> span_end (snd (hd m)) = start) \<and>
    (tiles lo hi m' \<longrightarrow>
      (\<forall>x. occupant m' x = (if start \<le> x \<and> x < stop then None else occupant m x)) \<and>
      (lo < start \<and> region (snd (hd m)) \<noteq> None \<longrightarrow> amap_ok lo hi m') \<and>
      (\<exists>k' q. (k', q) \<in> set m' \<and> region q = None \<and> stop \<le> span_end q \<and>
        span_start q = (if region (snd (hd m)) = None then lo else start) \<and>
        (\<forall>k2 p. (k2, p) \<in> set m' \<and> span_start p = span_end q \<longrightarrow> region p \<noteq> None)))"
  using amap_free_general [OF assms] unfolding lowest_harmless_def by blast

definition low_free_map :: AddressMap where
  "low_free_map =
     (let unused = (\<lambda>a b. (b - 1, \<lparr> region = None, span_start = a, span_end = b, kind = Kind_Unoccupied, permissions = FLAG_NONE \<rparr>));
          used = (\<lambda>a b. (b - 1, active_region a b GuardPage Kind_Guard FLAG_NONE))
      in [unused 0 0x1000, used 0x1000 0x2000, used 0x2000 0x3000, unused 0x3000 0x4000])"

theorem amap_free_releases_span_witness:
  "(\<exists>m'. amap_free demo_map 0 0x1000 = Some (Inr (GuardPage, m')) \<and> tiles 0 0x3FFFFFFFFF m' \<and> occupant m' 0 = None) \<and>
   (\<exists>m'. amap_free low_free_map 0x2000 0x3000 = Some (Inr (GuardPage, m')) \<and> \<not> tiles 0 0x4000 m')"
proof
  have i: "(0xFFF, guard_region) \<in> set demo_map" by (simp add: demo_map_eq)
  obtain m' where m': "amap_free demo_map 0 0x1000 = Some (Inr (GuardPage, m'))" "tiles 0 0x3FFFFFFFFF m'"
    and o: "\<forall>x. occupant m' x = (if 0 \<le> x \<and> x < 0x1000 then None else occupant demo_map x)"
    using amap_free_releases_span [OF demo_map_tiles _ i, of 0 "0x1000" GuardPage]
    by (auto simp: guard_region_def active_region_def demo_map_eq)
  have "occupant m' 0 = None" using o [rule_format, of 0] by simp
  then show "\<exists>m'. amap_free demo_map 0 0x1000 = Some (Inr (GuardPage, m')) \<and> tiles 0 0x3FFFFFFFFF m' \<and> occupant m' 0 = None"
    using m' by blast
  have t: "tiles 0 0x4000 low_free_map" by (simp add: low_free_map_def active_region_def)
  have j: "(0x2FFF, active_region 0x2000 0x3000 GuardPage Kind_Guard FLAG_NONE) \<in> set low_free_map"
    by (simp add: low_free_map_def)
  show "\<exists>m'. amap_free low_free_map 0x2000 0x3000 = Some (Inr (GuardPage, m')) \<and> \<not> tiles 0 0x4000 m'"
    using amap_free_releases_span [OF t _ j, of "0x2000" "0x3000" GuardPage]
    by (auto simp: low_free_map_def active_region_def)
qed

lemma amap_alloc_free:
  assumes ok: "amap_ok lo hi m" "hi \<le> 0x3FFFFFFFFF" and s: "start < stop"
    and a: "amap_alloc m start stop backing k perms = Inr m1"
  shows "\<exists>m2. amap_free m1 start stop = Some (Inr (backing, m2)) \<and> amap_ok lo hi m2 \<and> occupant m2 = occupant m"
proof -
  have t: "tiles lo hi m" using ok(1) by (simp add: amap_ok_def)
  note sp = amap_alloc_spec [OF t s a]
  let ?r = "active_region start stop backing k perms"
  have ne: "m \<noteq> []" "region (snd (hd m)) \<noteq> None" using ok(1) by (simp_all add: amap_ok_def)
  have o: "occupant m1 start = Some ?r" using sp(2) [of start] s by simp
  obtain key where key: "(key, ?r) \<in> set m1" using occupant_SomeD [OF o] by blast
  then have ok1: "amap_ok lo hi m1" using sp(1) sp(4) [OF ne] by (auto simp: amap_ok_def)
  obtain k0 r0 where hd: "hd m = (k0, r0)" by force
  have lo: "lo < start"
  proof -
    have h: "span_start r0 = lo" "lo < span_end r0" "(k0, r0) \<in> set m" "region r0 \<noteq> None"
      using t ne hd by (cases m; auto)+
    have "occupant m lo = Some r0" unfolding occupant_iff [OF t] using h by auto
    moreover have "lo \<le> start" using tiles_inside [OF sp(1) key] by (simp add: active_region_def)
    ultimately show ?thesis using sp(3) [of start] s by (metis option.distinct(1) order_le_imp_less_or_eq order_refl)
  qed
  show ?thesis
    using amap_free_spec [OF ok1 ok(2) key, of start stop backing] lo sp(2,3)
    by (auto simp: active_region_def fun_eq_iff)
qed

text \<open>
  Allocation and release are inverse on what the map says of every address: after
  a successful allocation above the guard page, freeing the same span returns the same
  backing memory, and every address has the occupant it had before.
\<close>

theorem amap_alloc_free_roundtrip:
  assumes ok: "amap_ok lo hi m" "hi \<le> 0x3FFFFFFFFF" and s: "start < stop"
    and a: "amap_alloc m start stop backing k perms = Inr m1"
  shows "\<exists>m2. amap_free m1 start stop = Some (Inr (backing, m2)) \<and> amap_ok lo hi m2 \<and> occupant m2 = occupant m"
  by (rule amap_alloc_free [OF assms])

theorem amap_alloc_free_roundtrip_witness:
  "\<exists>m1 m2. amap_alloc demo_map 0x4000 0x6000 GuardPage Kind_Data FLAG_NONE = Inr m1 \<and>
    amap_free m1 0x4000 0x6000 = Some (Inr (GuardPage, m2)) \<and> occupant m2 = occupant demo_map"
proof -
  obtain m1 where e: "amap_alloc demo_map 0x4000 0x6000 GuardPage Kind_Data FLAG_NONE = Inr m1"
    unfolding demo_map_eq by (simp add: guard_region_def active_region_def amap_alloc_def)
  show ?thesis using amap_alloc_free_roundtrip [OF demo_map_ok _ _ e] e by auto
qed

text \<open>
  The lower half of the coalescing of \<^const>\<open>amap_free\<close> looks at the lowest region of the
  whole map, not at the region just below. With the guard page in place it never merges,
  so two adjacent free regions stay apart and an allocation over both is refused though
  every address of it is free.
\<close>

definition split_map :: AddressMap where
  "split_map =
     (case amap_alloc demo_map 0x1000 0x2000 GuardPage Kind_Data FLAG_NONE of Inl _ \<Rightarrow> [] | Inr m1 \<Rightarrow>
      case amap_alloc m1 0x2000 0x3000 GuardPage Kind_Data FLAG_NONE of Inl _ \<Rightarrow> [] | Inr m2 \<Rightarrow>
      case amap_alloc m2 0x3000 0x4000 GuardPage Kind_Data FLAG_NONE of Inl _ \<Rightarrow> [] | Inr m3 \<Rightarrow>
      case amap_free m3 0x1000 0x2000 of Some (Inr (_, m4)) \<Rightarrow>
       (case amap_free m4 0x2000 0x3000 of Some (Inr (_, m5)) \<Rightarrow> m5 | _ \<Rightarrow> []) | _ \<Rightarrow> [])"

lemma adjacent_free_not_merged:
  "map (\<lambda>r. (span_start r, span_end r)) (unoccupied_regions split_map) =
     [(0x1000, 0x2000), (0x2000, 0x3000), (0x4000, 0x3FFFFFFFFF)]"
  "amap_alloc split_map 0x1000 0x3000 GuardPage Kind_Data FLAG_NONE = Inl Occupied"
  by code_simp+

end
