(* ===== verification/Page_Table.thy ===== *)
theory Page_Table
  imports Phys_Bitmap
begin

text \<open>
  Page tables, \<open>src/kernel/vanadinite/src/mem/paging/table.rs\<close>, with their allocator
  (\<open>table/allocator.rs\<close>) and \<open>zalloc_page\<close> (\<open>mem/phys/mod.rs\<close>).

  The kernel reaches a table through its physical address and the direct map (\<open>phys2virt\<close>), so
  the state maps the physical address of a frame to its 512 entries; next to it stands the
  physical page allocator new tables come from. A \<open>PageTable\<close> is the address of its root.
\<close>

section \<open>State\<close>

type_synonym tables = "paddr \<Rightarrow> nat \<Rightarrow> pte"

record PageMem =
  tables :: tables
  pma :: BitmapAllocator

definition set_entry :: "PageMem \<Rightarrow> paddr \<Rightarrow> nat \<Rightarrow> pte \<Rightarrow> PageMem" where
  "set_entry m t v e = m\<lparr>tables := (tables m)(t := (tables m t)(v := e))\<rparr>"

definition alloc_page :: "PageMem \<Rightarrow> (paddr \<times> PageMem) panics" where
  "alloc_page m = do {
     (r, b) \<leftarrow> bitmap_alloc (pma m) Kilopage;
     p \<leftarrow> r;
     Some (p, m\<lparr>pma := b\<rparr>)
   }"

definition zalloc_page :: "PageMem \<Rightarrow> (paddr \<times> PageMem) panics" where
  "zalloc_page m = do {
     (p, m') \<leftarrow> alloc_page m;
     Some (p, m'\<lparr>tables := (tables m')(p := (\<lambda>_. 0))\<rparr>)
   }"

text \<open>\<open>new_table\<close> boxes a zeroed page from \<open>PageTableAllocator\<close>.\<close>

definition new_table :: "PageMem \<Rightarrow> (paddr \<times> PageMem) panics" where
  "new_table m = zalloc_page m"

section \<open>Mapping\<close>

text \<open>
  The walk that \<open>map\<close> and \<open>static_map\<close> share: \<open>install\<close> is what they do to the entry at the
  level of the wanted page size.
\<close>

fun map_walk :: "(pte \<Rightarrow> pte) \<Rightarrow> PageSize \<Rightarrow> PageMem \<Rightarrow> paddr \<Rightarrow> PageSize \<Rightarrow> nat list \<Rightarrow> PageMem panics" where
  "map_walk install sz m table current [] = Some m"
| "map_walk install sz m table current (vpn # rest) =
     (let entry = tables m table vpn in
      if current = sz then do {
        ensure (\<not> pte_is_valid entry);
        Some (set_entry m table vpn (install entry))
      }
      else do {
        kind \<leftarrow> pte_kind entry;
        case kind of
          Leaf \<Rightarrow> panic
        | Branch paddr \<Rightarrow> do {
            next \<leftarrow> page_size_next current;
            map_walk install sz m paddr next rest
          }
        | NotValid \<Rightarrow> do {
            (subtable, m') \<leftarrow> new_table m;
            let m'' = set_entry m' table vpn (pte_set_ppn (pte_set_flags entry FLAG_VALID) subtable);
            next \<leftarrow> page_size_next current;
            map_walk install sz m'' subtable next rest
          }
      })"

definition install_map :: "paddr \<Rightarrow> flags \<Rightarrow> rsw \<Rightarrow> pte \<Rightarrow> pte" where
  "install_map from flags rsw entry =
     pte_set_rsw (pte_set_ppn (pte_set_flags entry flags) from) rsw"

definition pt_map :: "PageMem \<Rightarrow> paddr \<Rightarrow> paddr \<Rightarrow> vaddr \<Rightarrow> flags \<Rightarrow> PageSize \<Rightarrow> rsw \<Rightarrow> PageMem panics" where
  "pt_map m root from to flags sz rsw = do {
     assert_addr_aligned sz from;
     assert_addr_aligned sz to;
     map_walk (install_map from flags rsw) sz m root top_level (rev (vpns to))
   }"

definition static_map :: "PageMem \<Rightarrow> paddr \<Rightarrow> paddr \<Rightarrow> vaddr \<Rightarrow> flags \<Rightarrow> PageSize \<Rightarrow> PageMem panics" where
  "static_map m root from to flags sz = do {
     assert_addr_aligned sz from;
     assert_addr_aligned sz to;
     map_walk (\<lambda>entry. pte_set_ppn (pte_set_flags entry flags) from) sz m root top_level (rev (vpns to))
   }"

section \<open>Reading and changing entries\<close>

text \<open>
  \<open>with_entry\<close> applies \<open>f\<close> to the leaf entry of an address. A branch entry in a table of the
  lowest level reaches the source's \<open>unreachable!\<close>.
\<close>

fun with_entry :: "tables \<Rightarrow> paddr \<Rightarrow> PageSize \<Rightarrow> nat list \<Rightarrow> (pte \<Rightarrow> PageSize \<Rightarrow> 'a) \<Rightarrow> 'a option panics" where
  "with_entry T table current [] f = Some None"
| "with_entry T table current (vpn # rest) f =
     (let entry = T table vpn in do {
        kind \<leftarrow> pte_kind entry;
        case kind of
          Leaf \<Rightarrow> Some (Some (f entry current))
        | Branch paddr \<Rightarrow> do { next \<leftarrow> page_size_next current; with_entry T paddr next rest f }
        | NotValid \<Rightarrow> Some None
      })"

fun with_entry_mut ::
  "PageMem \<Rightarrow> paddr \<Rightarrow> PageSize \<Rightarrow> nat list \<Rightarrow> (pte \<Rightarrow> PageSize \<Rightarrow> 'a \<times> pte) \<Rightarrow> ('a option \<times> PageMem) panics" where
  "with_entry_mut m table current [] f = Some (None, m)"
| "with_entry_mut m table current (vpn # rest) f =
     (let entry = tables m table vpn in do {
        kind \<leftarrow> pte_kind entry;
        case kind of
          Leaf \<Rightarrow> (let (r, entry') = f entry current in Some (Some r, set_entry m table vpn entry'))
        | Branch paddr \<Rightarrow> do { next \<leftarrow> page_size_next current; with_entry_mut m paddr next rest f }
        | NotValid \<Rightarrow> Some (None, m)
      })"

definition unmap :: "PageMem \<Rightarrow> paddr \<Rightarrow> vaddr \<Rightarrow> PageMem panics" where
  "unmap m root address = do {
     (r, m') \<leftarrow> with_entry_mut m root top_level (rev (vpns address)) (\<lambda>e _. (pte_is_valid e, pte_new));
     (case r of Some valid \<Rightarrow> if valid then Some m' else panic | None \<Rightarrow> panic)
   }"

definition modify_page_flags :: "PageMem \<Rightarrow> paddr \<Rightarrow> vaddr \<Rightarrow> (flags \<Rightarrow> flags) \<Rightarrow> (bool \<times> PageMem) panics" where
  "modify_page_flags m root address f = do {
     (r, m') \<leftarrow> with_entry_mut m root top_level (rev (vpns address))
       (\<lambda>e _. (True, pte_set_flags e (f (pte_flags e))));
     Some (case r of Some b \<Rightarrow> b | None \<Rightarrow> False, m')
   }"

definition page_rsw :: "PageMem \<Rightarrow> paddr \<Rightarrow> vaddr \<Rightarrow> rsw option panics" where
  "page_rsw m root address = with_entry (tables m) root top_level (rev (vpns address)) (\<lambda>e _. pte_rsw e)"

definition modify_page_rsw :: "PageMem \<Rightarrow> paddr \<Rightarrow> vaddr \<Rightarrow> (rsw \<Rightarrow> rsw) \<Rightarrow> (bool \<times> PageMem) panics" where
  "modify_page_rsw m root address f = do {
     (r, m') \<leftarrow> with_entry_mut m root top_level (rev (vpns address))
       (\<lambda>e _. (True, pte_set_rsw e (f (pte_rsw e))));
     Some (case r of Some b \<Rightarrow> b | None \<Rightarrow> False, m')
   }"

definition page_flags :: "PageMem \<Rightarrow> paddr \<Rightarrow> vaddr \<Rightarrow> flags option panics" where
  "page_flags m root address = with_entry (tables m) root top_level (rev (vpns address)) (\<lambda>e _. pte_flags e)"

definition resolve :: "PageMem \<Rightarrow> paddr \<Rightarrow> vaddr \<Rightarrow> paddr option panics" where
  "resolve m root address =
     map_option opt_flatten (with_entry (tables m) root top_level (rev (vpns address)) (\<lambda>e _. pte_ppn e))"

section \<open>Creation and release\<close>

text \<open>The discriminant of a page size, \<open>self as usize\<close>: the level of a table whose leaves have that size.\<close>

fun level :: "PageSize \<Rightarrow> nat" where
  "level Kilopage = 0"
| "level Megapage = 1"
| "level Gigapage = 2"

definition new_raw :: "PageMem \<Rightarrow> (paddr \<times> PageMem) panics" where
  "new_raw m = new_table m"

text \<open>\<open>active\<close> is the root page table in the \<open>satp\<close> register.\<close>

definition copy_kernel_regions :: "PageMem \<Rightarrow> paddr \<Rightarrow> paddr \<Rightarrow> PageMem" where
  "copy_kernel_regions m root active =
     (let start_idx = last (vpns (fst kernelspace_range)) in
      fold (\<lambda>i m. set_entry m root i (tables m active i)) [start_idx..<512] m)"

definition pt_new :: "PageMem \<Rightarrow> paddr \<Rightarrow> (paddr \<times> PageMem) panics" where
  "pt_new m active = do {
     (root, m') \<leftarrow> new_table m;
     Some (root, copy_kernel_regions m' root active)
   }"

text \<open>
  One table of \<open>deallocate\<close>: the loop over its entries, given the recursive call for the tables
  one level below.
\<close>

definition dealloc_table ::
  "(paddr \<Rightarrow> BitmapAllocator \<Rightarrow> BitmapAllocator panics) \<Rightarrow> (nat \<Rightarrow> pte) \<Rightarrow> PageSize \<Rightarrow>
   BitmapAllocator \<Rightarrow> BitmapAllocator panics" where
  "dealloc_table below entries page_size b =
     for_loop (\<lambda>v b. do {
         kind \<leftarrow> pte_kind (entries v);
         case kind of
           Branch branch \<Rightarrow> do {
             b' \<leftarrow> below branch b;
             p \<leftarrow> page_from_ptr branch;
             bitmap_dealloc b' p Kilopage
           }
         | Leaf \<Rightarrow>
             if pte_rsw (entries v) = RSW_NONE then do {
               ppn \<leftarrow> pte_ppn (entries v);
               p \<leftarrow> page_from_ptr ppn;
               bitmap_dealloc b p page_size
             }
             else Some b
         | NotValid \<Rightarrow> Some b
       }) [0..<512] b"

function pt_deallocate :: "tables \<Rightarrow> PageSize \<Rightarrow> paddr \<Rightarrow> BitmapAllocator \<Rightarrow> BitmapAllocator panics" where
  "pt_deallocate T page_size page_table =
     dealloc_table
       (\<lambda>branch b. case page_size_next page_size of
          None \<Rightarrow> panic
        | Some next \<Rightarrow> pt_deallocate T next branch b)
       (T page_table) page_size"
  by pat_completeness auto
termination
  by (relation "measure (\<lambda>(T, sz, t). level sz)") (auto elim: page_size_next.elims)

text \<open>\<open>Drop\<close>: the tables and frames below the root, then the boxed root itself.\<close>

definition pt_drop :: "PageMem \<Rightarrow> paddr \<Rightarrow> PageMem panics" where
  "pt_drop m root = do {
     b \<leftarrow> pt_deallocate (tables m) top_level root (pma m);
     p \<leftarrow> page_from_ptr root;
     b' \<leftarrow> bitmap_dealloc b p Kilopage;
     Some (m\<lparr>pma := b'\<rparr>)
   }"

section \<open>Specification vocabulary\<close>

text \<open>
  The frames a table of level \<open>n\<close> reaches through branch entries, that they form a tree, and
  the frames the walk for one address visits.
\<close>

fun branch_of :: "pte \<Rightarrow> paddr option" where
  "branch_of e = (case pte_kind e of Some (Branch p) \<Rightarrow> Some p | _ \<Rightarrow> None)"

primrec frames :: "tables \<Rightarrow> nat \<Rightarrow> paddr \<Rightarrow> paddr set" where
  "frames T 0 t = {t}"
| "frames T (Suc n) t = insert t (\<Union>v < 512. case branch_of (T t v) of Some p \<Rightarrow> frames T n p | None \<Rightarrow> {})"

primrec tree :: "tables \<Rightarrow> nat \<Rightarrow> paddr \<Rightarrow> bool" where
  "tree T 0 t \<longleftrightarrow> True"
| "tree T (Suc n) t \<longleftrightarrow>
     (\<forall>v < 512. \<forall>p. branch_of (T t v) = Some p \<longrightarrow> tree T n p \<and> t \<notin> frames T n p) \<and>
     (\<forall>v < 512. \<forall>w < 512. \<forall>p q. v \<noteq> w \<longrightarrow> branch_of (T t v) = Some p \<longrightarrow> branch_of (T t w) = Some q \<longrightarrow>
        frames T n p \<inter> frames T n q = {})"

primrec visited :: "tables \<Rightarrow> paddr \<Rightarrow> nat list \<Rightarrow> paddr set" where
  "visited T t [] = {}"
| "visited T t (v # vs) = insert t (case branch_of (T t v) of Some p \<Rightarrow> visited T p vs | None \<Rightarrow> {})"

text \<open>The invariant of an address space, and the page of size \<open>sz\<close> an address lies in.\<close>

definition tbl_ok :: "PageMem \<Rightarrow> nat \<Rightarrow> paddr \<Rightarrow> bool" where
  "tbl_ok m n t \<longleftrightarrow> bm_inv (pma m) \<and> tree (tables m) n t \<and> frames (tables m) n t \<subseteq> used_pages (pma m)"

definition pt_ok :: "PageMem \<Rightarrow> paddr \<Rightarrow> bool" where
  "pt_ok m root \<longleftrightarrow> tbl_ok m 2 root"

definition same_page :: "PageSize \<Rightarrow> vaddr \<Rightarrow> vaddr \<Rightarrow> bool" where
  "same_page sz a b \<longleftrightarrow> drop (level sz) (vpns a) = drop (level sz) (vpns b)"

abbreviation entry_at :: "tables \<Rightarrow> paddr \<Rightarrow> PageSize \<Rightarrow> nat list \<Rightarrow> (pte \<times> PageSize) option panics" where
  "entry_at T t cur vs \<equiv> with_entry T t cur vs Pair"

section \<open>Frames, trees and walks\<close>

declare branch_of.simps [simp del]

lemma branch_of_eq:
  "branch_of e = (if bit e 0 \<and> \<not> bit e 1 \<and> \<not> bit e 3 then Some (shl (shr e 10) 12) else None)"
  by (simp add: branch_of.simps pte_kind_eq)

lemma pte_kind_cases:
  obtains (NotValid) "pte_kind e = Some NotValid" "branch_of e = None" "\<not> pte_is_valid e"
  | (Leaf) "pte_kind e = Some Leaf" "branch_of e = None" "pte_is_valid e"
  | (Branch) p where "pte_kind e = Some (Branch p)" "branch_of e = Some p" "pte_is_valid e"
  by (cases "bit e 0"; cases "bit e 1 \<or> bit e 3") (auto simp: branch_of_eq pte_kind_eq pte_is_valid_iff)

lemma invalid_no_branch: "\<not> pte_is_valid e \<Longrightarrow> branch_of e = None"
  by (cases e rule: pte_kind_cases) simp_all

lemma root_in_frames [simp]: "t \<in> frames T n t"
  by (cases n) auto

lemma frames_branch:
  "v < 512 \<Longrightarrow> branch_of (T t v) = Some p \<Longrightarrow> frames T n p \<subseteq> frames T (Suc n) t"
  by (auto split: option.splits intro!: bexI [of _ v])

lemma frames_cong:
  "(\<And>x. x \<in> frames T n t \<Longrightarrow> T' x = T x) \<Longrightarrow> frames T' n t = frames T n t"
proof (induction n arbitrary: t)
  case (Suc n)
  have t: "T' t = T t" using Suc.prems by simp
  have "frames T' n p = frames T n p" if "v < 512" "branch_of (T t v) = Some p" for v p
    by (rule Suc.IH, rule Suc.prems) (use frames_branch [of v T t p n] that in blast)
  then show ?case
    unfolding frames.simps t by (auto split: option.splits)
qed simp

lemma tree_cong:
  "(\<And>x. x \<in> frames T n t \<Longrightarrow> T' x = T x) \<Longrightarrow> tree T' n t = tree T n t"
proof (induction n arbitrary: t)
  case (Suc n)
  have t: "T' t = T t" using Suc.prems by simp
  have sub: "T' x = T x" if "v < 512" "branch_of (T t v) = Some p" "x \<in> frames T n p" for v p x
    using frames_branch [of v T t p n] that Suc.prems by blast
  have h: "frames T' n p = frames T n p" "tree T' n p = tree T n p"
    if "v < 512" "branch_of (T t v) = Some p" for v p
    using frames_cong [of T n p T'] Suc.IH [of p] sub [OF that] by blast+
  show ?case unfolding tree.simps t
    by (intro conj_cong iff_allI imp_cong refl) (simp_all add: h)
qed simp

lemma visited_subset_frames:
  "length vs \<le> Suc n \<Longrightarrow> set vs \<subseteq> {..<512} \<Longrightarrow> visited T t vs \<subseteq> frames T n t"
proof (induction vs arbitrary: n t)
  case (Cons v vs)
  show ?case
  proof (cases "branch_of (T t v)")
    case (Some p)
    show ?thesis
    proof (cases n)
      case 0
      then show ?thesis using Cons.prems Some by simp
    next
      case (Suc k)
      then have "visited T p vs \<subseteq> frames T k p" using Cons by simp
      then show ?thesis
        using frames_branch [of v T t p k] Some Suc Cons.prems by auto
    qed
  qed simp
qed simp

lemma with_entry_cong:
  "(\<And>x. x \<in> visited T t vs \<Longrightarrow> T' x = T x) \<Longrightarrow> with_entry T' t cur vs f = with_entry T t cur vs f"
proof (induction vs arbitrary: t cur)
  case (Cons v vs)
  then have t: "T' t v = T t v" by simp
  show ?case
  proof (cases "T t v" rule: pte_kind_cases)
    case (Branch p)
    have "with_entry T' p c vs f = with_entry T p c vs f" for c
      by (rule Cons.IH, rule Cons.prems) (use Branch in simp)
    then show ?thesis using Branch t by (cases "page_size_next cur") simp_all
  qed (use t in simp_all)
qed simp

lemma visited_cong:
  "(\<And>x. x \<in> visited T t vs \<Longrightarrow> T' x = T x) \<Longrightarrow> visited T' t vs = visited T t vs"
proof (induction vs arbitrary: t)
  case (Cons v vs)
  then have t: "T' t v = T t v" by simp
  show ?case
  proof (cases "branch_of (T t v)")
    case (Some p)
    have "visited T' p vs = visited T p vs"
      by (rule Cons.IH, rule Cons.prems) (use Some in simp)
    then show ?thesis using Some t by simp
  qed (use t in simp)
qed simp

lemma with_entry_entry_at:
  "with_entry T t cur vs f = map_option (map_option (\<lambda>(e, s). f e s)) (entry_at T t cur vs)"
proof (induction vs arbitrary: t cur)
  case (Cons v vs)
  then show ?case
    by (cases "T t v" rule: pte_kind_cases; cases "page_size_next cur") simp_all
qed simp

text \<open>An empty table.\<close>

lemma branch_of_0 [simp]: "branch_of 0 = None"
  by (simp add: branch_of_eq)

lemma pte_kind_0 [simp]: "pte_kind 0 = Some NotValid"
  by (simp add: pte_kind_eq)

lemma frames_zero: "T t = (\<lambda>_. 0) \<Longrightarrow> frames T n t = {t}"
  by (cases n) simp_all

lemma tree_zero: "T t = (\<lambda>_. 0) \<Longrightarrow> tree T n t"
  by (cases n) simp_all

lemma visited_zero: "T t = (\<lambda>_. 0) \<Longrightarrow> visited T t vs \<subseteq> {t}"
  by (cases vs) simp_all

lemma with_entry_zero: "T t = (\<lambda>_. 0) \<Longrightarrow> with_entry T t cur vs f = Some None"
  by (cases vs) simp_all

lemma tables_set_entry [simp]:
  "tables (set_entry m t v e) = (tables m)(t := (tables m t)(v := e))" "pma (set_entry m t v e) = pma m"
  by (simp_all add: set_entry_def)

lemma new_table_SomeD:
  assumes "new_table m = Some (p, m')" "bm_inv (pma m)"
  shows "p \<notin> used_pages (pma m)" "used_pages (pma m') = insert p (used_pages (pma m))" "bm_inv (pma m')"
    "tables m' = (tables m)(p := (\<lambda>_. 0))" "is_aligned p Kilopage"
proof -
  obtain b where b: "bitmap_alloc (pma m) Kilopage = Some (Some p, b)"
    "m' = m\<lparr>pma := b, tables := (tables m)(p := (\<lambda>_. 0))\<rparr>"
    using assms(1) by (auto simp: new_table_def zalloc_page_def alloc_page_def split: bind_splits)
  note f = pma.falloc_Some [OF assms(2) b(1)]
  show "p \<notin> used_pages (pma m)" "used_pages (pma m') = insert p (used_pages (pma m))" "bm_inv (pma m')"
    "tables m' = (tables m)(p := (\<lambda>_. 0))"
    using f b(2) by simp_all
  show "is_aligned p Kilopage" using f aligned_mod [of p Kilopage] by (simp add: kib_def)
qed

section \<open>What mapping does\<close>

text \<open>
  A step from \<open>m\<close> to \<open>m'\<close> along the path \<open>vs\<close> below table \<open>t\<close>: it only allocates, adds only freshly
  allocated frames to the tree and to the path, and writes only to tables on the path.
\<close>

definition extends_on :: "PageMem \<Rightarrow> nat \<Rightarrow> paddr \<Rightarrow> nat list \<Rightarrow> PageMem \<Rightarrow> bool" where
  "extends_on m n t vs m' \<longleftrightarrow>
     used_pages (pma m) \<subseteq> used_pages (pma m') \<and>
     frames (tables m') n t \<subseteq> frames (tables m) n t \<union> (used_pages (pma m') - used_pages (pma m)) \<and>
     visited (tables m) t vs \<subseteq> visited (tables m') t vs \<and>
     visited (tables m') t vs \<subseteq> visited (tables m) t vs \<union> (used_pages (pma m') - used_pages (pma m)) \<and>
     (\<forall>x. x \<notin> visited (tables m') t vs \<longrightarrow> tables m' x = tables m x)"

lemma extends_onD:
  assumes "extends_on m n t vs m'"
  shows "used_pages (pma m) \<subseteq> used_pages (pma m')"
    "x \<in> frames (tables m') n t \<Longrightarrow> x \<in> used_pages (pma m) \<Longrightarrow> x \<in> frames (tables m) n t"
    "x \<in> visited (tables m') t vs \<Longrightarrow> x \<in> used_pages (pma m) \<Longrightarrow> x \<in> visited (tables m) t vs"
    "x \<notin> visited (tables m') t vs \<Longrightarrow> tables m' x = tables m x"
proof -
  have h: "used_pages (pma m) \<subseteq> used_pages (pma m')"
    "frames (tables m') n t \<subseteq> frames (tables m) n t \<union> (used_pages (pma m') - used_pages (pma m))"
    "visited (tables m') t vs \<subseteq> visited (tables m) t vs \<union> (used_pages (pma m') - used_pages (pma m))"
    "\<forall>x. x \<notin> visited (tables m') t vs \<longrightarrow> tables m' x = tables m x"
    using assms unfolding extends_on_def by satx+
  show "used_pages (pma m) \<subseteq> used_pages (pma m')" by (rule h(1))
  show "x \<in> frames (tables m') n t \<Longrightarrow> x \<in> used_pages (pma m) \<Longrightarrow> x \<in> frames (tables m) n t"
    using h(2) by auto
  show "x \<in> visited (tables m') t vs \<Longrightarrow> x \<in> used_pages (pma m) \<Longrightarrow> x \<in> visited (tables m) t vs"
    using h(3) by auto
  show "x \<notin> visited (tables m') t vs \<Longrightarrow> tables m' x = tables m x"
    using h(4) by simp
qed

lemma extends_on_trans:
  assumes "extends_on m n t vs m1" "extends_on m1 n t vs m'"
  shows "extends_on m n t vs m'"
proof -
  have v: "visited (tables m) t vs \<subseteq> visited (tables m1) t vs" "visited (tables m1) t vs \<subseteq> visited (tables m') t vs"
    and f: "frames (tables m1) n t \<subseteq> frames (tables m) n t \<union> (used_pages (pma m1) - used_pages (pma m))"
      "frames (tables m') n t \<subseteq> frames (tables m1) n t \<union> (used_pages (pma m') - used_pages (pma m1))"
    and w: "visited (tables m1) t vs \<subseteq> visited (tables m) t vs \<union> (used_pages (pma m1) - used_pages (pma m))"
      "visited (tables m') t vs \<subseteq> visited (tables m1) t vs \<union> (used_pages (pma m') - used_pages (pma m1))"
    using assms unfolding extends_on_def by satx+
  note u = extends_onD(1) [OF assms(1)] extends_onD(1) [OF assms(2)]
  have "tables m' x = tables m x" if "x \<notin> visited (tables m') t vs" for x
    using extends_onD(4) [OF assms(1), of x] extends_onD(4) [OF assms(2), of x] that v(2) by auto
  then show ?thesis unfolding extends_on_def using u v f w by auto
qed

text \<open>The entry the walk reads after an installation: \<open>e\<close> is now the entry at level \<open>sz\<close>.\<close>

definition leaf_read :: "pte \<Rightarrow> PageSize \<Rightarrow> (pte \<times> PageSize) option panics" where
  "leaf_read e sz = (case pte_kind e of
       Some Leaf \<Rightarrow> Some (Some (e, sz)) | Some NotValid \<Rightarrow> Some None | _ \<Rightarrow> panic)"

definition reads_after :: "PageMem \<Rightarrow> nat \<Rightarrow> paddr \<Rightarrow> PageSize \<Rightarrow> nat list \<Rightarrow> nat \<Rightarrow> (pte \<times> PageSize) option panics \<Rightarrow> PageMem \<Rightarrow> bool" where
  "reads_after m n t cur vs d r m' \<longleftrightarrow>
     (\<forall>ws. length ws = Suc n \<longrightarrow> set ws \<subseteq> {..<512} \<longrightarrow>
        entry_at (tables m') t cur ws =
          (if take d ws = take d vs then r else entry_at (tables m) t cur ws))"

text \<open>Installing an entry in the table itself.\<close>

lemma map_here:
  assumes "tbl_ok m n t" "v < 512" "branch_of (tables m t v) = None"
    and "n = 0 \<or> branch_of e = None" "level cur = n" "length vs = n"
  defines "m' \<equiv> set_entry m t v e"
  shows "tbl_ok m' n t" "extends_on m n t (v # vs) m'"
    "reads_after m n t cur (v # vs) 1 (leaf_read e cur) m'"
proof -
  note old = assms(3)
  let ?T = "tables m" and ?T' = "tables m'"
  have T': "?T' = ?T(t := (?T t)(v := e))" "pma m' = pma m" by (simp_all add: m'_def)
  have br: "branch_of (?T' t w) = branch_of (?T t w)" if "0 < n" for w
    using assms(4) old that by (simp add: T')
  have nt: "t \<notin> frames ?T k p" if "n = Suc k" "w < 512" "branch_of (?T t w) = Some p" for k p w
    using assms(1) that by (simp add: tbl_ok_def)
  have cong: "frames ?T' k p = frames ?T k p" "tree ?T' k p = tree ?T k p"
    if "n = Suc k" "w < 512" "branch_of (?T t w) = Some p" for k p w
    using nt [OF that] frames_cong [of ?T k p ?T'] tree_cong [of ?T k p ?T'] by (metis T'(1) fun_upd_other)+
  have fr: "frames ?T' n t = frames ?T n t"
  proof (cases n)
    case (Suc k)
    show ?thesis unfolding Suc frames.simps using br cong(1) [OF Suc] Suc
      by (auto split: option.splits)
  qed simp
  have tr: "tree ?T' n t"
  proof (cases n)
    case (Suc k)
    then have "tree ?T (Suc k) t" using assms(1) by (simp add: tbl_ok_def)
    then show ?thesis unfolding Suc using br Suc
      by (simp add: cong [OF Suc]) 
  qed simp
  show "tbl_ok m' n t" using assms(1) fr tr by (simp add: tbl_ok_def T'(2))
  have vis: "visited ?T' t (v # vs) = {t}" "visited ?T t (v # vs) = {t}"
    using old assms(4,6) by (auto simp: T' split: option.splits)
  show "extends_on m n t (v # vs) m'"
    unfolding extends_on_def vis fr T'(2) by (simp add: T'(1))
  show "reads_after m n t cur (v # vs) 1 (leaf_read e cur) m'"
    unfolding reads_after_def
  proof (intro allI impI)
    fix ws :: "nat list" assume ws: "length ws = Suc n" "set ws \<subseteq> {..<512}"
    then obtain w us where w: "ws = w # us" "w < 512" "length us = n" by (cases ws) auto
    show "entry_at ?T' t cur ws = (if take 1 ws = take 1 (v # vs) then leaf_read e cur else entry_at ?T t cur ws)"
    proof (cases "w = v")
      case True
      then have "entry_at ?T' t cur ws = leaf_read e cur" using assms(4,5) w
        by (cases e rule: pte_kind_cases; cases cur) (simp_all add: T' leaf_read_def)
      then show ?thesis using True w(1) by simp
    next
      case False
      have "entry_at ?T' p c us = entry_at ?T p c us" if "branch_of (?T t w) = Some p" "0 < n" for p c
      proof -
        note br0 = that(1)
        obtain k where k: "n = Suc k" using \<open>0 < n\<close> by (cases n) auto
        have "visited ?T p us \<subseteq> frames ?T k p"
          using visited_subset_frames [of us k ?T p] w ws k by auto
        then show ?thesis
          using nt [OF k w(2) br0] by (intro with_entry_cong) (auto simp: T')
      qed
      then have "entry_at ?T' t cur ws = entry_at ?T t cur ws" using w False assms(5)
        by (cases "?T t w" rule: pte_kind_cases; cases cur) (simp_all add: T')
      then show ?thesis using False w(1) by simp
    qed
  qed
qed

text \<open>A step below a branch entry is a step below the table that holds the entry.\<close>

lemma UN_remove: "v \<in> A \<Longrightarrow> (\<Union>w \<in> A. f w) = f v \<union> (\<Union>w \<in> A - {v}. f w)"
  by auto

lemma frames_split:
  assumes "v < 512" "branch_of (T t v) = Some p"
  shows "frames T (Suc n) t = insert t (frames T n p) \<union>
    (\<Union>w \<in> {..<512} - {v}. case branch_of (T t w) of Some q \<Rightarrow> frames T n q | None \<Rightarrow> {})"
  unfolding frames.simps using assms by (subst UN_remove [of v]) simp_all

lemma treeD:
  assumes "tree T (Suc n) t" "v < 512" "branch_of (T t v) = Some p"
  shows "tree T n p" "t \<notin> frames T n p"
    "w < 512 \<Longrightarrow> w \<noteq> v \<Longrightarrow> branch_of (T t w) = Some q \<Longrightarrow> frames T n p \<inter> frames T n q = {}"
  using assms by auto

lemma tbl_ok_branch:
  assumes "tbl_ok m (Suc n) t" "v < 512" "branch_of (tables m t v) = Some p"
  shows "tbl_ok m n p"
  using assms frames_branch [of v "tables m" t p n] treeD(1) [of "tables m" n t v p]
  unfolding tbl_ok_def by blast

lemma branch_step:
  assumes ok: "tbl_ok m (Suc n) t" and v: "v < 512" "branch_of (tables m t v) = Some p"
    and vs: "length vs = Suc n" "set vs \<subseteq> {..<512}"
    and ok': "tbl_ok m' n p" and ext: "extends_on m n p vs m'"
  shows "tbl_ok m' (Suc n) t" "extends_on m (Suc n) t (v # vs) m'" "tables m' t = tables m t"
    "w < 512 \<Longrightarrow> w \<noteq> v \<Longrightarrow> branch_of (tables m t w) = Some q \<Longrightarrow> x \<in> frames (tables m) n q \<Longrightarrow>
       tables m' x = tables m x"
proof -
  let ?T = "tables m" and ?T' = "tables m'" and ?U = "used_pages (pma m)" and ?U' = "used_pages (pma m')"
  have tree: "tree ?T (Suc n) t" and U: "frames ?T (Suc n) t \<subseteq> ?U" using ok by (simp_all only: tbl_ok_def)
  have fU: "frames ?T n q \<subseteq> ?U" if "w < 512" "branch_of (?T t w) = Some q" for w q
    using frames_branch [of w ?T t q n, OF that] U by blast
  have tU: "t \<in> ?U" using U root_in_frames by blast
  have vis: "visited ?T p vs \<subseteq> frames ?T n p" using visited_subset_frames [of vs n] vs by simp
  have t': "t \<notin> visited ?T' p vs" using extends_onD(3) [OF ext, of t] tU vis treeD(2) [OF tree v] by blast
  then show T't: "?T' t = ?T t" by (rule extends_onD(4) [OF ext])
  have tF': "t \<notin> frames ?T' n p" using extends_onD(2) [OF ext, of t] tU treeD(2) [OF tree v] by blast
  have sib: "?T' x = ?T x" if "w < 512" "w \<noteq> v" "branch_of (?T t w) = Some q" "x \<in> frames ?T n q" for w q x
  proof (rule extends_onD(4) [OF ext], rule notI)
    assume "x \<in> visited ?T' p vs"
    then have "x \<in> frames ?T n p" using extends_onD(3) [OF ext, of x] fU [OF that(1,3)] that(4) vis by blast
    then show False using treeD(3) [OF tree v that(1-3)] that(4) by blast
  qed
  then show "w < 512 \<Longrightarrow> w \<noteq> v \<Longrightarrow> branch_of (?T t w) = Some q \<Longrightarrow> x \<in> frames ?T n q \<Longrightarrow> ?T' x = ?T x" .
  have fsib: "frames ?T' n q = frames ?T n q" "tree ?T' n q = tree ?T n q"
    if "w < 512" "w \<noteq> v" "branch_of (?T t w) = Some q" for w q
    using frames_cong [of ?T n q ?T'] tree_cong [of ?T n q ?T'] sib [OF that] by blast+
  have dj: "frames ?T' n p \<inter> frames ?T n q = {}"
    if "w < 512" "w \<noteq> v" "branch_of (?T t w) = Some q" for w q
    using extends_onD(2) [OF ext] fU [OF that(1,3)] treeD(3) [OF tree v that] by blast
  have v': "branch_of (?T' t v) = Some p" using v(2) T't by simp
  have rest: "(\<Union>w \<in> {..<512} - {v}. case branch_of (?T t w) of Some q \<Rightarrow> frames ?T' n q | None \<Rightarrow> {}) =
      (\<Union>w \<in> {..<512} - {v}. case branch_of (?T t w) of Some q \<Rightarrow> frames ?T n q | None \<Rightarrow> {})"
    using fsib(1) by (intro SUP_cong refl) (auto split: option.splits)
  have fr: "frames ?T' (Suc n) t = insert t (frames ?T' n p) \<union>
      (\<Union>w \<in> {..<512} - {v}. case branch_of (?T t w) of Some q \<Rightarrow> frames ?T n q | None \<Rightarrow> {})"
    unfolding frames_split [of v ?T' t p n, OF v(1) v'] T't rest ..
  have ext_fr: "frames ?T' n p \<subseteq> frames ?T n p \<union> (?U' - ?U)"
    and ext_vis: "visited ?T p vs \<subseteq> visited ?T' p vs" "visited ?T' p vs \<subseteq> visited ?T p vs \<union> (?U' - ?U)"
    using ext unfolding extends_on_def by satx+
  have fr_sub: "frames ?T' (Suc n) t \<subseteq> frames ?T (Suc n) t \<union> (?U' - ?U)"
    unfolding fr frames_split [of v ?T t p n, OF v] using ext_fr by auto
  have "tree ?T' (Suc n) t"
    unfolding tree.simps T't
  proof (intro conjI allI impI)
    fix w q assume w: "w < 512" "branch_of (?T t w) = Some q"
    show "tree ?T' n q"
      using w v ok' fsib(2) [of w q] treeD(1) [OF tree w] by (cases "w = v") (auto simp: tbl_ok_def)
    show "t \<notin> frames ?T' n q"
      using w v tF' fsib(1) [of w q] treeD(2) [OF tree w] by (cases "w = v") auto
  next
    fix w w' q q'
    assume w: "w < 512" "w' < 512" "w \<noteq> w'" "branch_of (?T t w) = Some q" "branch_of (?T t w') = Some q'"
    consider "w = v" | "w' = v" | "w \<noteq> v" "w' \<noteq> v" by blast
    then show "frames ?T' n q \<inter> frames ?T' n q' = {}"
    proof cases
      case 1
      then have "q = p" "w' \<noteq> v" using w v by auto
      then show ?thesis using dj [of w' q'] fsib(1) [of w' q'] w by simp
    next
      case 2
      then have "q' = p" "w \<noteq> v" using w v by auto
      then show ?thesis using dj [of w q] fsib(1) [of w q] w by auto
    next
      case 3
      then show ?thesis using fsib(1) w treeD(3) [OF tree w(1,4,2) _ w(5)] by simp
    qed
  qed
  then show "tbl_ok m' (Suc n) t"
    using ok' fr_sub U extends_onD(1) [OF ext] unfolding tbl_ok_def by blast
  have "?T' x = ?T x" if "x \<notin> visited ?T' t (v # vs)" for x
    using that extends_onD(4) [OF ext, of x] v' by simp
  then show "extends_on m (Suc n) t (v # vs) m'"
    unfolding extends_on_def using extends_onD(1) [OF ext] fr_sub ext_vis v v' by auto
qed

lemma branch_step_reads:
  assumes ok: "tbl_ok m (Suc n) t" and v: "v < 512" "branch_of (tables m t v) = Some p"
    and vs: "length vs = Suc n" "set vs \<subseteq> {..<512}"
    and ok': "tbl_ok m' n p" and ext: "extends_on m n p vs m'"
    and cur: "page_size_next cur = Some nxt"
    and rd: "reads_after m n p nxt vs d r m'"
  shows "reads_after m (Suc n) t cur (v # vs) (Suc d) r m'"
  unfolding reads_after_def
proof (intro allI impI)
  note st = branch_step [OF ok v vs ok' ext]
  fix ws :: "nat list" assume ws: "length ws = Suc (Suc n)" "set ws \<subseteq> {..<512}"
  then obtain w us where w: "ws = w # us" "w < 512" "length us = Suc n" "set us \<subseteq> {..<512}" by (cases ws) auto
  have kv: "pte_kind (tables m t v) = Some (Branch p)"
    using v(2) by (cases "tables m t v" rule: pte_kind_cases) simp_all
  show "entry_at (tables m') t cur ws =
      (if take (Suc d) ws = take (Suc d) (v # vs) then r else entry_at (tables m) t cur ws)"
  proof (cases "w = v")
    case True
    then have "entry_at (tables m') t cur ws = entry_at (tables m') p nxt us"
      "entry_at (tables m) t cur ws = entry_at (tables m) p nxt us"
      using w kv st(3) cur by simp_all
    moreover have "entry_at (tables m') p nxt us =
        (if take d us = take d vs then r else entry_at (tables m) p nxt us)"
      using rd w unfolding reads_after_def by blast
    ultimately show ?thesis using True w(1) by simp
  next
    case False
    have "entry_at (tables m') t cur ws = entry_at (tables m) t cur ws"
    proof (cases "tables m t w" rule: pte_kind_cases)
      case (Branch q)
      have "visited (tables m) q us \<subseteq> frames (tables m) n q"
        using visited_subset_frames [of us n] w by simp
      then have "entry_at (tables m') q nxt us = entry_at (tables m) q nxt us"
        using st(4) [OF w(2) False Branch(2)] by (intro with_entry_cong) blast
      then show ?thesis using Branch w(1) st(3) cur by simp
    qed (use w(1) st(3) in simp_all)
    then show ?thesis using False w(1) by simp
  qed
qed

text \<open>Linking a fresh, empty table into an invalid entry changes no translation.\<close>

lemma branch_entry:
  assumes "is_aligned p Kilopage"
  shows "branch_of (pte_set_ppn (pte_set_flags e FLAG_VALID) p) = Some p"
  using shl_shr_set_ppn [OF assms]
  by (simp add: branch_of_eq bit_pte_set_ppn bit_pte_set_flags FLAG_VALID_def)

lemma link_step:
  assumes ok: "tbl_ok m (Suc n) t" and v: "v < 512" "\<not> pte_is_valid (tables m t v)"
    and nt: "new_table m = Some (p, m1)" and cur: "page_size_next cur \<noteq> None"
    and vs: "length vs = Suc n"
  defines "m2 \<equiv> set_entry m1 t v (pte_set_ppn (pte_set_flags (tables m t v) FLAG_VALID) p)"
  shows "tbl_ok m2 (Suc n) t" "branch_of (tables m2 t v) = Some p" "extends_on m (Suc n) t (v # vs) m2"
    "set ws \<subseteq> {..<512} \<Longrightarrow> length ws = Suc (Suc n) \<Longrightarrow> entry_at (tables m2) t cur ws = entry_at (tables m) t cur ws"
proof -
  let ?T = "tables m" and ?T2 = "tables m2" and ?U = "used_pages (pma m)"
  have tree: "tree ?T (Suc n) t" and U: "frames ?T (Suc n) t \<subseteq> ?U" and inv: "bm_inv (pma m)"
    using ok by (simp_all only: tbl_ok_def)
  note new = new_table_SomeD [OF nt inv]
  have tU: "t \<in> ?U" using U root_in_frames by blast
  then have tp: "t \<noteq> p" using new(1) by auto
  have T2: "?T2 = ?T(p := (\<lambda>_. 0), t := (?T t)(v := pte_set_ppn (pte_set_flags (?T t v) FLAG_VALID) p))"
    using tp new(4) by (simp add: m2_def)
  have U2: "used_pages (pma m2) = insert p ?U" "bm_inv (pma m2)" using new(2,3) by (simp_all add: m2_def)
  show b2: "branch_of (?T2 t v) = Some p" using branch_entry [OF new(5)] by (simp add: T2)
  have old: "branch_of (?T t v) = None" "pte_kind (?T t v) = Some NotValid"
    using v(2) by (cases "?T t v" rule: pte_kind_cases; simp)+
  have bw: "?T2 t w = ?T t w" if "w \<noteq> v" for w using that by (simp add: T2)
  have fU: "frames ?T n q \<subseteq> ?U" "t \<notin> frames ?T n q" if "w < 512" "branch_of (?T t w) = Some q" for w q
    using frames_branch [of w ?T t q n, OF that] U treeD(2) [OF tree that] by blast+
  have sib: "?T2 x = ?T x" if "w < 512" "branch_of (?T t w) = Some q" "x \<in> frames ?T n q" for w q x
    using fU [OF that(1,2)] that(3) new(1) by (auto simp: T2)
  have fsib: "frames ?T2 n q = frames ?T n q" "tree ?T2 n q = tree ?T n q"
    if "w < 512" "branch_of (?T t w) = Some q" for w q
    using frames_cong [of ?T n q ?T2] tree_cong [of ?T n q ?T2] sib [OF that] by blast+
  have p0: "?T2 p = (\<lambda>_. 0)" using tp by (simp add: T2)
  have rest: "(\<Union>w \<in> {..<512} - {v}. case branch_of (?T2 t w) of Some q \<Rightarrow> frames ?T2 n q | None \<Rightarrow> {}) =
      (\<Union>w \<in> {..<512} - {v}. case branch_of (?T t w) of Some q \<Rightarrow> frames ?T n q | None \<Rightarrow> {})"
    using fsib(1) bw by (intro SUP_cong refl) (auto split: option.splits)
  have old_fr: "frames ?T (Suc n) t = insert t
      (\<Union>w \<in> {..<512} - {v}. case branch_of (?T t w) of Some q \<Rightarrow> frames ?T n q | None \<Rightarrow> {})"
    unfolding frames.simps using v(1) old(1) by (subst UN_remove [of v]) simp_all
  have fr: "frames ?T2 (Suc n) t = insert p (frames ?T (Suc n) t)"
    unfolding frames_split [of v ?T2 t p n, OF v(1) b2] rest frames_zero [of ?T2 p n, OF p0] old_fr by auto
  have "tree ?T2 (Suc n) t"
    unfolding tree.simps
  proof (intro conjI allI impI)
    fix w q assume w: "w < 512" "branch_of (?T2 t w) = Some q"
    consider "w = v" "q = p" | "w \<noteq> v" "branch_of (?T t w) = Some q" using w(2) b2 bw by (cases "w = v") auto
    then show "tree ?T2 n q" "t \<notin> frames ?T2 n q"
      using w(1) tp fsib [of w q] treeD(1,2) [OF tree w(1)] tree_zero [of ?T2 p n, OF p0] frames_zero [of ?T2 p n, OF p0]
      by (cases; simp)+
  next
    fix w w' q q'
    assume w: "w < 512" "w' < 512" "w \<noteq> w'" "branch_of (?T2 t w) = Some q" "branch_of (?T2 t w') = Some q'"
    have *: "p \<notin> frames ?T2 n r" if "u < 512" "u \<noteq> v" "branch_of (?T2 t u) = Some r" for u r
      using that fU(1) [of u r] fsib(1) [of u r] bw [of u] new(1) by auto
    consider "w = v" | "w' = v" | "w \<noteq> v" "w' \<noteq> v" by blast
    then show "frames ?T2 n q \<inter> frames ?T2 n q' = {}"
    proof cases
      case 1
      then show ?thesis using w b2 * [of w' q'] frames_zero [of ?T2 p n, OF p0] by auto
    next
      case 2
      then show ?thesis using w b2 * [of w q] frames_zero [of ?T2 p n, OF p0] by auto
    next
      case 3
      then show ?thesis using fsib(1) w bw treeD(3) [OF tree w(1) _ w(2), of q q'] by simp
    qed
  qed
  then show ok2: "tbl_ok m2 (Suc n) t" using fr U U2 unfolding tbl_ok_def by auto
  have vis: "visited ?T t (v # vs) = {t}" using old by simp
  have "visited ?T2 t (v # vs) = {t, p}" using b2 vs by (cases vs) (simp_all add: p0)
  then show "extends_on m (Suc n) t (v # vs) m2"
    unfolding extends_on_def fr vis using U2(1) new(1) by (auto simp: T2)
  show "entry_at ?T2 t cur ws = entry_at ?T t cur ws" if "set ws \<subseteq> {..<512}" "length ws = Suc (Suc n)"
  proof -
    note ws = that
    obtain w us where w: "ws = w # us" "w < 512" "length us = Suc n" "set us \<subseteq> {..<512}"
      using ws by (cases ws) auto
    obtain nxt where nxt: "page_size_next cur = Some nxt" using cur by auto
    show ?thesis
    proof (cases "w = v")
      case True
      then show ?thesis
        using w(1) old(2) b2 nxt with_entry_zero [of ?T2 p nxt us, OF p0]
        by (cases "?T2 t v" rule: pte_kind_cases) simp_all
    next
      case False
      show ?thesis
      proof (cases "?T t w" rule: pte_kind_cases)
        case (Branch q)
        have "visited ?T q us \<subseteq> frames ?T n q"
          using visited_subset_frames [of us n] w by simp
        then have "entry_at ?T2 q nxt us = entry_at ?T q nxt us"
          using sib [OF w(2) Branch(2)] by (intro with_entry_cong) blast
        then show ?thesis using Branch w(1) bw [OF False] nxt by simp
      qed (use w(1) bw [OF False] in simp_all)
    qed
  qed
qed

text \<open>The whole walk of \<open>map\<close>.\<close>

lemma level_next: "level cur = Suc n \<Longrightarrow> \<exists>nxt. page_size_next cur = Some nxt \<and> level nxt = n"
  by (cases cur) simp_all

lemma level_inj: "level a = level b \<longleftrightarrow> a = b"
  by (cases a; cases b) simp_all

lemma map_walk_spec:
  assumes "map_walk install sz m t cur vs = Some m'" "tbl_ok m n t" "level cur = n" "level sz \<le> n"
    and "length vs = Suc n" "set vs \<subseteq> {..<512}"
    and "\<And>e. \<not> pte_is_valid e \<Longrightarrow> sz = Kilopage \<or> branch_of (install e) = None"
  shows "tbl_ok m' n t \<and> extends_on m n t vs m' \<and>
    (\<exists>e. \<not> pte_is_valid e \<and> reads_after m n t cur vs (Suc n - level sz) (leaf_read (install e) sz) m')"
  using assms(1-6)
proof (induction n arbitrary: m t cur vs)
  case 0
  then have c: "cur = Kilopage" "sz = Kilopage" by (metis level_inj level.simps(1) le_zero_eq)+
  obtain v where v: "vs = [v]" "v < 512" using 0 by (cases vs) auto
  have e: "\<not> pte_is_valid (tables m t v)" "m' = set_entry m t v (install (tables m t v))"
    using 0(1) c v by (auto simp: Let_def split: if_splits)
  have h: "tbl_ok m' 0 t" "extends_on m 0 t (v # []) m'"
    "reads_after m 0 t cur (v # []) 1 (leaf_read (install (tables m t v)) cur) m'"
    using map_here [OF 0(2) v(2) invalid_no_branch [OF e(1)], of "install (tables m t v)" cur "[]"] c e(2) by simp_all
  then show ?case unfolding v c level.simps diff_zero One_nat_def [symmetric] using e(1) by blast
next
  case (Suc n)
  obtain v us where v: "vs = v # us" "v < 512" "length us = Suc n" "set us \<subseteq> {..<512}"
    using Suc.prems(5,6) by (cases vs) auto
  obtain nxt where nxt: "page_size_next cur = Some nxt" "level nxt = n"
    using level_next [OF Suc.prems(3)] by blast
  show ?case
  proof (cases "cur = sz")
    case True
    have e: "\<not> pte_is_valid (tables m t v)" "m' = set_entry m t v (install (tables m t v))"
      using Suc.prems(1) True v by (auto simp: Let_def split: if_splits)
    have b: "branch_of (install (tables m t v)) = None"
      using assms(7) [OF e(1)] True Suc.prems(3) by auto
    have h: "tbl_ok m' (Suc n) t" "extends_on m (Suc n) t (v # us) m'"
      "reads_after m (Suc n) t cur (v # us) 1 (leaf_read (install (tables m t v)) cur) m'"
      using map_here [OF Suc.prems(2) v(2) invalid_no_branch [OF e(1)], of "install (tables m t v)" cur us] b Suc.prems(3) v e(2) by simp_all
    moreover have "Suc (Suc n) - level sz = 1" using True Suc.prems(3) by simp
    ultimately show ?thesis unfolding v(1) True using e(1) by auto
  next
    case False
    then have "level sz \<noteq> Suc n" using Suc.prems(3) level_inj [of cur sz] by simp
    then have lsz: "level sz \<le> n" "Suc (Suc n) - level sz = Suc (Suc n - level sz)" using Suc.prems(4) by auto
    show ?thesis
    proof (cases "tables m t v" rule: pte_kind_cases)
      case Leaf
      then show ?thesis using Suc.prems(1) False v(1) by simp
    next
      case (Branch p)
      then have w: "map_walk install sz m p nxt us = Some m'" using Suc.prems(1) False v(1) nxt by simp
      note okp = tbl_ok_branch [OF Suc.prems(2) v(2) Branch(2)]
      from Suc.IH [OF w okp nxt(2) lsz(1) v(3,4)] obtain e where
        IH: "tbl_ok m' n p" "extends_on m n p us m'" "\<not> pte_is_valid e"
          "reads_after m n p nxt us (Suc n - level sz) (leaf_read (install e) sz) m'" by blast
      show ?thesis
        unfolding v(1) lsz(2)
        using branch_step(1,2) [OF Suc.prems(2) v(2) Branch(2) v(3,4) IH(1,2)]
          branch_step_reads [OF Suc.prems(2) v(2) Branch(2) v(3,4) IH(1,2) nxt(1) IH(4)] IH(3) by blast
    next
      case NotValid
      obtain p m1 where nt: "new_table m = Some (p, m1)"
        using Suc.prems(1) False v(1) NotValid by (auto split: bind_splits)
      define m2 where "m2 = set_entry m1 t v (pte_set_ppn (pte_set_flags (tables m t v) FLAG_VALID) p)"
      have w: "map_walk install sz m2 p nxt us = Some m'"
        using Suc.prems(1) False v(1) nxt nt NotValid by (simp add: m2_def)
      note l = link_step [OF Suc.prems(2) v(2) NotValid(3) nt, of cur us, folded m2_def]
      have l1: "tbl_ok m2 (Suc n) t" "branch_of (tables m2 t v) = Some p" "extends_on m (Suc n) t (v # us) m2"
        using l(1-3) nxt v(3) by simp_all
      note okp = tbl_ok_branch [OF l1(1) v(2) l1(2)]
      from Suc.IH [OF w okp nxt(2) lsz(1) v(3,4)] obtain e where
        IH: "tbl_ok m' n p" "extends_on m2 n p us m'" "\<not> pte_is_valid e"
          "reads_after m2 n p nxt us (Suc n - level sz) (leaf_read (install e) sz) m'" by blast
      note st = branch_step(1,2) [OF l1(1) v(2) l1(2) v(3,4) IH(1,2)]
      have "reads_after m2 (Suc n) t cur (v # us) (Suc (Suc n - level sz)) (leaf_read (install e) sz) m'"
        by (rule branch_step_reads [OF l1(1) v(2) l1(2) v(3,4) IH(1,2) nxt(1) IH(4)])
      then have "reads_after m (Suc n) t cur (v # us) (Suc (Suc n - level sz)) (leaf_read (install e) sz) m'"
        unfolding reads_after_def using l(4) nxt(1) v(3) by simp
      then show ?thesis
        unfolding v(1) lsz(2) using st(1) extends_on_trans [OF l1(3) st(2)] IH(3) by blast
    qed
  qed
qed

text \<open>A page that is already mapped cannot be mapped again, and an unmapped one can.\<close>

lemma map_walk_mapped:
  "entry_at (tables m) t cur vs = Some (Some es) \<Longrightarrow> map_walk install sz m t cur vs = None"
proof (induction vs arbitrary: t cur)
  case (Cons v vs)
  then show ?case
    by (cases "tables m t v" rule: pte_kind_cases; cases "page_size_next cur") (auto simp: Let_def)
qed simp

lemma alloc_loop_less: "alloc_loop al (Suc n) s \<noteq> None \<Longrightarrow> alloc_loop al n s \<noteq> None"
proof (induction n arbitrary: s)
  case (Suc n)
  then obtain p s1 where "al s = Some (Some p, s1)" "alloc_loop al (Suc n) s1 \<noteq> None"
    by (auto split: bind_splits)
  then show ?case using Suc.IH [of s1] by (auto split: bind_splits)
qed simp

lemma map_walk_unmapped:
  assumes "entry_at (tables m) t cur vs = Some None" "tbl_ok m n t" "level cur = n" "sz = Kilopage"
    and "length vs = Suc n" "set vs \<subseteq> {..<512}" "alloc_loop alloc4k n (pma m) \<noteq> None"
  shows "\<exists>m'. map_walk install sz m t cur vs = Some m'"
  using assms
proof (induction n arbitrary: m t cur vs)
  case 0
  then obtain v where v: "vs = [v]" by (cases vs) auto
  have "cur = Kilopage" using 0 by (cases cur) simp_all
  then have "\<not> pte_is_valid (tables m t v)"
    using 0(1) v by (cases "tables m t v" rule: pte_kind_cases) simp_all
  then show ?case using v 0(4) \<open>cur = Kilopage\<close> by (simp add: Let_def)
next
  case (Suc n)
  obtain v us where v: "vs = v # us" "v < 512" "length us = Suc n" "set us \<subseteq> {..<512}"
    using Suc.prems(5,6) by (cases vs) auto
  obtain nxt where nxt: "page_size_next cur = Some nxt" "level nxt = n"
    using level_next [OF Suc.prems(3)] by blast
  have ne: "cur \<noteq> sz" using Suc.prems(3,4) by auto
  show ?case
  proof (cases "tables m t v" rule: pte_kind_cases)
    case Leaf
    then show ?thesis using Suc.prems(1) v(1) by simp
  next
    case (Branch p)
    have "entry_at (tables m) p nxt us = Some None" using Suc.prems(1) v(1) Branch nxt by simp
    from Suc.IH [OF this tbl_ok_branch [OF Suc.prems(2) v(2) Branch(2)] nxt(2) Suc.prems(4) v(3,4)
        alloc_loop_less [OF Suc.prems(7)]]
    show ?thesis using ne v(1) Branch nxt by simp
  next
    case NotValid
    obtain p b where b: "bitmap_alloc (pma m) Kilopage = Some (Some p, b)" "alloc_loop alloc4k n b \<noteq> None"
      using Suc.prems(7) by (auto split: bind_splits)
    define m1 where "m1 = m\<lparr>pma := b, tables := (tables m)(p := (\<lambda>_. 0))\<rparr>"
    have nt: "new_table m = Some (p, m1)"
      using b(1) by (simp add: new_table_def zalloc_page_def alloc_page_def m1_def)
    define m2 where "m2 = set_entry m1 t v (pte_set_ppn (pte_set_flags (tables m t v) FLAG_VALID) p)"
    note l = link_step [OF Suc.prems(2) v(2) NotValid(3) nt, of cur us, folded m2_def]
    have l1: "tbl_ok m2 (Suc n) t" "branch_of (tables m2 t v) = Some p"
      using l(1,2) nxt v(3) by simp_all
    have "entry_at (tables m2) t cur vs = Some None"
      using l(4) [of vs] Suc.prems(1,5,6) nxt v(3) by simp
    then have "entry_at (tables m2) p nxt us = Some None"
      using l1(2) v(1) nxt by (cases "tables m2 t v" rule: pte_kind_cases) simp_all
    from Suc.IH [OF this tbl_ok_branch [OF l1(1) v(2) l1(2)] nxt(2) Suc.prems(4) v(3,4)]
    have "\<exists>m'. map_walk install sz m2 p nxt us = Some m'" using b(2) by (simp add: m2_def m1_def)
    then show ?thesis using ne v(1) NotValid nxt nt by (simp add: m2_def)
  qed
qed

section \<open>What changing a leaf entry does\<close>

lemma with_entry_mut_None:
  "entry_at (tables m) t cur vs = Some None \<Longrightarrow> with_entry_mut m t cur vs f = Some (None, m)"
proof (induction vs arbitrary: t cur)
  case (Cons v vs)
  then show ?case
    by (cases "tables m t v" rule: pte_kind_cases; cases "page_size_next cur") simp_all
qed simp

lemma with_entry_mut_panic:
  "entry_at (tables m) t cur vs = None \<Longrightarrow> with_entry_mut m t cur vs f = None"
proof (induction vs arbitrary: t cur)
  case (Cons v vs)
  then show ?case
    by (cases "tables m t v" rule: pte_kind_cases; cases "page_size_next cur") simp_all
qed simp

lemma with_entry_mut_spec:
  assumes "entry_at (tables m) t cur vs = Some (Some (e, s))" "tbl_ok m n t" "level cur = n"
    and "length vs = Suc n" "set vs \<subseteq> {..<512}" "f e s = (r, e')" "s = Kilopage \<or> branch_of e' = None"
  shows "\<exists>m'. with_entry_mut m t cur vs f = Some (Some r, m') \<and> tbl_ok m' n t \<and> extends_on m n t vs m' \<and>
    level s \<le> n \<and> reads_after m n t cur vs (Suc n - level s) (leaf_read e' s) m' \<and> pma m' = pma m"
  using assms(1-5)
proof (induction n arbitrary: t cur vs)
  case 0
  then have c: "cur = Kilopage" by (metis level_inj level.simps(1))
  obtain v where v: "vs = [v]" "v < 512" using 0 by (cases vs) auto
  have k: "pte_kind (tables m t v) = Some Leaf" "branch_of (tables m t v) = None" "tables m t v = e" "s = cur"
    using 0(1) c v by (cases "tables m t v" rule: pte_kind_cases; simp)+
  have "with_entry_mut m t cur vs f = Some (Some r, set_entry m t v e')"
    using v k assms(6) by simp
  moreover note map_here [OF 0(2) v(2) k(2), of e' cur "[]"]
  ultimately show ?case using k(4) v(1) c 0(3) by simp
next
  case (Suc n)
  obtain v us where v: "vs = v # us" "v < 512" "length us = Suc n" "set us \<subseteq> {..<512}"
    using Suc.prems(4,5) by (cases vs) auto
  obtain nxt where nxt: "page_size_next cur = Some nxt" "level nxt = n"
    using level_next [OF Suc.prems(3)] by blast
  show ?case
  proof (cases "tables m t v" rule: pte_kind_cases)
    case NotValid
    then show ?thesis using Suc.prems(1) v(1) by simp
  next
    case Leaf
    then have k: "tables m t v = e" "s = cur" using Suc.prems(1) v(1) by simp_all
    have b: "branch_of e' = None" using assms(7) k(2) Suc.prems(3) by auto
    have "with_entry_mut m t cur vs f = Some (Some r, set_entry m t v e')"
      using v k Leaf assms(6) by simp
    moreover note map_here [OF Suc.prems(2) v(2) Leaf(2), of e' cur us]
    ultimately show ?thesis using k(2) v(1,3) b Suc.prems(3) by simp
  next
    case (Branch p)
    have "entry_at (tables m) p nxt us = Some (Some (e, s))" using Suc.prems(1) v(1) Branch nxt by simp
    note okp = tbl_ok_branch [OF Suc.prems(2) v(2) Branch(2)]
    from Suc.IH [OF \<open>entry_at (tables m) p nxt us = Some (Some (e, s))\<close> okp nxt(2) v(3,4)] obtain m' where
      IH: "with_entry_mut m p nxt us f = Some (Some r, m')" "tbl_ok m' n p" "extends_on m n p us m'" "level s \<le> n"
        "reads_after m n p nxt us (Suc n - level s) (leaf_read e' s) m'" "pma m' = pma m" by blast
    have d: "Suc (Suc n) - level s = Suc (Suc n - level s)" using IH(4) by simp
    show ?thesis
      unfolding v(1) d
      using branch_step(1,2) [OF Suc.prems(2) v(2) Branch(2) v(3,4) IH(2,3)]
        branch_step_reads [OF Suc.prems(2) v(2) Branch(2) v(3,4) IH(2,3) nxt(1) IH(5)] IH(1,4,6) Branch nxt by simp
  qed
qed

section \<open>Address spaces\<close>

lemma take_rev_vpns:
  "take (3 - level sz) (rev (vpns a)) = take (3 - level sz) (rev (vpns b)) \<longleftrightarrow> same_page sz a b"
proof -
  have "level sz \<le> 3" by (cases sz) simp_all
  then show ?thesis by (simp add: take_rev same_page_def)
qed

lemma same_page_refl [simp]: "same_page sz a a"
  by (simp add: same_page_def)

lemma page_shift_level: "page_shift sz = 12 + 9 * level sz"
  by (cases sz) simp_all

lemma same_page_nth: "same_page sz a b \<longleftrightarrow> (\<forall>i < 3. level sz \<le> i \<longrightarrow> vpns a ! i = vpns b ! i)"
proof -
  have l: "level sz \<le> 2" by (cases sz) simp_all
  have "same_page sz a b \<longleftrightarrow> (\<forall>j < 3 - level sz. vpns a ! (level sz + j) = vpns b ! (level sz + j))"
    using l by (simp add: same_page_def list_eq_iff_nth_eq)
  moreover have "\<exists>j < 3 - level sz. i = level sz + j" if "i < 3" "level sz \<le> i" for i
    using that by (intro exI [of _ "i - level sz"]) simp
  ultimately show ?thesis by auto
qed

lemma same_page_bits:
  "same_page sz a b \<longleftrightarrow> (\<forall>n < 39. page_shift sz \<le> n \<longrightarrow> bit a n = bit b n)"
proof
  assume h: "same_page sz a b"
  show "\<forall>n < 39. page_shift sz \<le> n \<longrightarrow> bit a n = bit b n"
  proof (intro allI impI)
    fix n assume n: "n < 39" "page_shift sz \<le> n"
    have "12 \<le> n" using n by (simp add: page_shift_level)
    then obtain i k where i: "i < 3" "k < 9" "n = 12 + 9 * i + k" using n vpn_bit_index by blast
    have "level sz \<le> i" using n i by (simp add: page_shift_level)
    then show "bit a n = bit b n" using h i vpns_nth_eq_iff [OF i(1), of a b] by (simp add: same_page_nth)
  qed
next
  assume h: "\<forall>n < 39. page_shift sz \<le> n \<longrightarrow> bit a n = bit b n"
  show "same_page sz a b"
    unfolding same_page_nth
  proof (intro allI impI)
    fix i assume i: "i < 3" "level sz \<le> i"
    have "bit a (12 + 9 * i + n) = bit b (12 + 9 * i + n)" if "n < 9" for n
      using h i that by (simp add: page_shift_level)
    then show "vpns a ! i = vpns b ! i" using vpns_nth_eq_iff [OF i(1), of a b] by simp
  qed
qed

lemma userspace_bits:
  assumes "in_userspace a" "bit a n"
  shows "n < 38"
proof -
  have "unat a < 2 ^ 38" using assms(1) by (simp add: in_userspace_iff word_less_nat_alt)
  then have "a AND mask 38 = a"
    unfolding word_unat_eq_iff unat_and_mask by (rule mod_less)
  then have "bit (a AND mask 38) n" using assms(2) by simp
  then show ?thesis by (simp add: bit_and_iff bit_mask_iff)
qed

lemma bit_align_down: "bit (align_down_to a sz) n \<longleftrightarrow> page_shift sz \<le> n \<and> bit a n"
  unfolding align_down_to_def to_byte_size_mask
  by (auto simp: bit_and_iff bit_not_iff bit_mask_iff page_shift_less dest: bit_word_bound)

lemma same_page_user:
  assumes "in_userspace a" "in_userspace b" "is_aligned b sz"
  shows "same_page sz a b \<longleftrightarrow> align_down_to a sz = b"
proof
  assume h: "same_page sz a b"
  show "align_down_to a sz = b"
  proof (rule bit_word_eqI)
    fix n
    show "bit (align_down_to a sz) n = bit b n"
      using h userspace_bits [OF assms(1), of n] userspace_bits [OF assms(2), of n] assms(3)
      unfolding bit_align_down same_page_bits is_aligned_iff_bits
      by (cases "page_shift sz \<le> n"; cases "n < 38") auto
  qed
next
  assume "align_down_to a sz = b"
  then show "same_page sz a b"
    unfolding same_page_bits using bit_align_down [of a sz] by auto
qed

lemma vpns_user:
  assumes "in_userspace a"
  shows "hd (rev (vpns a)) < 256"
proof -
  have "bit (of_nat (vpns a ! 2) :: usize) n \<longleftrightarrow> n < 9 \<and> bit a (30 + n)" for n
    using bit_of_nat_vpn [of 2 a n] by simp
  then have "\<not> bit (of_nat (vpns a ! 2) :: usize) n" if "8 \<le> n" for n
    using userspace_bits [OF assms, of "30 + n"] that by auto
  then have "(of_nat (vpns a ! 2) :: usize) AND mask 8 = of_nat (vpns a ! 2)"
    by (intro bit_word_eqI) (auto simp: bit_and_iff bit_mask_iff intro: leI ccontr)
  then have "unat (of_nat (vpns a ! 2) :: usize) mod 2 ^ 8 = unat (of_nat (vpns a ! 2) :: usize)"
    by (simp only: unat_and_mask [symmetric])
  then have "unat (of_nat (vpns a ! 2) :: usize) < 2 ^ 8"
    by (metis mod_less_divisor zero_less_numeral zero_less_power)
  moreover have "vpns a ! 2 < 512" by (rule vpns_less [of _ a]) simp
  ultimately show ?thesis by (simp add: unat_of_nat hd_rev last_conv_nth vpns_def)
qed

lemma rev_vpns: "length (rev (vpns a)) = 3" "set (rev (vpns a)) \<subseteq> {..<512}"
  using vpns_less by auto

definition leaf_flags :: "flags \<Rightarrow> bool" where
  "leaf_flags f \<longleftrightarrow> flags_bitand f FLAG_VALID \<and> (flags_bitand f FLAG_READ \<or> flags_bitand f FLAG_EXECUTE)"

lemma install_map_props:
  shows "pte_flags (install_map from fl rsw e) = fl OR (rsw AND 3)"
    and "leaf_flags fl \<Longrightarrow> pte_kind (install_map from fl rsw e) = Some Leaf"
    and "leaf_flags fl \<Longrightarrow> branch_of (install_map from fl rsw e) = None"
    and "leaf_flags fl \<Longrightarrow> is_aligned from Kilopage \<Longrightarrow> pte_ppn (install_map from fl rsw e) = Some from"
proof -
  show "pte_flags (install_map from fl rsw e) = fl OR (rsw AND 3)"
    by (simp add: install_map_def pte_flags_set_rsw pte_flags_set_ppn pte_flags_set_flags)
  have b: "bit (install_map from fl rsw e) n" if "bit fl n" "n < 8" for n
    using that by (simp add: install_map_def bit_pte_set_rsw bit_pte_set_ppn bit_pte_set_flags)
  assume lf: "leaf_flags fl"
  have b0: "bit (install_map from fl rsw e) 0" and b13: "bit (install_map from fl rsw e) 1 \<or> bit (install_map from fl rsw e) 3"
    using lf b [of 0] b [of 1] b [of 3] by (auto simp: leaf_flags_def flags_bitand_iff)
  show "pte_kind (install_map from fl rsw e) = Some Leaf" using b0 b13 by (simp add: pte_kind_eq)
  then show "branch_of (install_map from fl rsw e) = None" by (simp add: branch_of.simps)
  assume al: "is_aligned from Kilopage"
  have "shl (shr (install_map from fl rsw e) 10) 12 = from"
  proof (rule bit_word_eqI)
    fix n
    have "bit (shl (shr (install_map from fl rsw e) 10) 12) n \<longleftrightarrow> bit (shl (shr (pte_set_ppn (pte_set_flags e fl) from) 10) 12) n"
      unfolding bit_pte_ppn_val install_map_def by (auto simp: bit_pte_set_rsw)
    then show "bit (shl (shr (install_map from fl rsw e) 10) 12) n = bit from n"
      using shl_shr_set_ppn [OF al] by simp
  qed
  then show "pte_ppn (install_map from fl rsw e) = Some from"
    using b0 by (simp add: pte_ppn_def pte_is_valid_iff)
qed

lemma is_aligned_Kilopage: "is_aligned a sz \<Longrightarrow> is_aligned a Kilopage"
  by (cases sz) (auto simp: is_aligned_iff_bits)

lemma pt_map_walk:
  assumes "pt_map m root from to fl sz rsw = Some m'"
  shows "is_aligned from sz" "is_aligned to sz"
    "map_walk (install_map from fl rsw) sz m root top_level (rev (vpns to)) = Some m'"
  using assms by (auto simp: pt_map_def assert_addr_aligned_iff split: bind_splits)

lemma pt_map_spec:
  assumes "pt_map m root from to fl sz rsw = Some m'" "pt_ok m root" "leaf_flags fl \<or> sz = Kilopage"
  shows "pt_ok m' root" "extends_on m 2 root (rev (vpns to)) m'"
    "\<exists>e. \<not> pte_is_valid e \<and> (\<forall>a. entry_at (tables m') root top_level (rev (vpns a)) =
       (if same_page sz a to then leaf_read (install_map from fl rsw e) sz
        else entry_at (tables m) root top_level (rev (vpns a))))"
proof -
  have l: "level sz \<le> 2" by (cases sz) simp_all
  from map_walk_spec [OF pt_map_walk(3) [OF assms(1)], of 2]
  have h: "tbl_ok m' 2 root \<and> extends_on m 2 root (rev (vpns to)) m' \<and>
      (\<exists>e. \<not> pte_is_valid e \<and> reads_after m 2 root top_level (rev (vpns to)) (3 - level sz)
         (leaf_read (install_map from fl rsw e) sz) m')"
    using assms(2,3) l rev_vpns [of to] install_map_props(3) [of fl "from" rsw]
    by (auto simp: pt_ok_def top_level_def)
  then show "pt_ok m' root" "extends_on m 2 root (rev (vpns to)) m'" by (simp_all add: pt_ok_def)
  from h obtain e where e: "\<not> pte_is_valid e"
    "reads_after m 2 root top_level (rev (vpns to)) (3 - level sz) (leaf_read (install_map from fl rsw e) sz) m'"
    by blast
  show "\<exists>e. \<not> pte_is_valid e \<and> (\<forall>a. entry_at (tables m') root top_level (rev (vpns a)) =
       (if same_page sz a to then leaf_read (install_map from fl rsw e) sz
        else entry_at (tables m) root top_level (rev (vpns a))))"
    using e rev_vpns unfolding reads_after_def by (intro exI [of _ e]) (simp add: take_rev_vpns)
qed

lemma leaf_read_Leaf: "pte_kind e = Some Leaf \<Longrightarrow> leaf_read e sz = Some (Some (e, sz))"
  by (simp add: leaf_read_def)

lemma pt_map_reads:
  assumes "pt_map m root from to fl sz rsw = Some m'" "pt_ok m root" "leaf_flags fl"
  shows "resolve m' root a = (if same_page sz a to then Some (Some from) else resolve m root a)"
    "page_flags m' root a = (if same_page sz a to then Some (Some (fl OR (rsw AND 3))) else page_flags m root a)"
proof -
  obtain e where e: "entry_at (tables m') root top_level (rev (vpns a)) =
       (if same_page sz a to then leaf_read (install_map from fl rsw e) sz
        else entry_at (tables m) root top_level (rev (vpns a)))"
    using pt_map_spec(3) [OF assms(1,2)] assms(3) by blast
  note al = is_aligned_Kilopage [OF pt_map_walk(1) [OF assms(1)]]
  note p = install_map_props(1,2,4) [where fl = fl and rsw = rsw and e = e]
  show "resolve m' root a = (if same_page sz a to then Some (Some from) else resolve m root a)"
    "page_flags m' root a = (if same_page sz a to then Some (Some (fl OR (rsw AND 3))) else page_flags m root a)"
    using e p assms(3) al unfolding resolve_def page_flags_def
    by (subst (1 2) with_entry_entry_at, simp add: leaf_read_Leaf)+
qed

lemma entry_at_Leaf:
  "entry_at T t cur vs = Some (Some (e, s)) \<Longrightarrow> pte_kind e = Some Leaf \<and> pte_is_valid e"
proof (induction vs arbitrary: t cur)
  case (Cons v vs)
  then show ?case
    by (cases "T t v" rule: pte_kind_cases; cases "page_size_next cur") auto
qed simp

lemma unmap_spec:
  assumes "pt_ok m root"
  shows "case entry_at (tables m) root top_level (rev (vpns a)) of
      Some (Some (e, s)) \<Rightarrow> (\<exists>m'. unmap m root a = Some m' \<and> pt_ok m' root \<and> pma m' = pma m \<and>
        (\<forall>b. entry_at (tables m') root top_level (rev (vpns b)) =
           (if same_page s b a then Some None else entry_at (tables m) root top_level (rev (vpns b)))))
    | _ \<Rightarrow> unmap m root a = None"
proof (cases "entry_at (tables m) root top_level (rev (vpns a))")
  case None
  then show ?thesis by (simp add: unmap_def with_entry_mut_panic [OF None])
next
  case (Some r)
  show ?thesis
  proof (cases r)
    case None
    then show ?thesis using Some by (simp add: unmap_def with_entry_mut_None)
  next
    case (Some es)
    obtain e s where es: "es = (e, s)" by force
    let ?f = "\<lambda>e (_ :: PageSize). (pte_is_valid e, pte_new)"
    have ea: "entry_at (tables m) root top_level (rev (vpns a)) = Some (Some (e, s))"
      using \<open>entry_at _ _ _ _ = Some r\<close> Some es by simp
    have valid: "pte_is_valid e" using entry_at_Leaf [OF ea] by simp
    from with_entry_mut_spec [OF ea, of 2 ?f "pte_is_valid e" pte_new] obtain m' where
      m': "with_entry_mut m root top_level (rev (vpns a)) ?f = Some (Some (pte_is_valid e), m')" "tbl_ok m' 2 root"
        "reads_after m 2 root top_level (rev (vpns a)) (3 - level s) (leaf_read pte_new s) m'" "pma m' = pma m"
      using assms rev_vpns [of a] by (auto simp: pt_ok_def top_level_def pte_new_def)
    have "\<forall>b. entry_at (tables m') root top_level (rev (vpns b)) =
           (if same_page s b a then Some None else entry_at (tables m) root top_level (rev (vpns b)))"
      using m'(3) rev_vpns unfolding reads_after_def by (simp add: take_rev_vpns leaf_read_def pte_new_def)
    then show ?thesis using ea m' valid by (simp add: unmap_def pt_ok_def)
  qed
qed

declare frames.simps(2) [simp del] tree.simps(2) [simp del]

lemma map_walk_panic:
  "entry_at (tables m) t cur vs = None \<Longrightarrow> map_walk install Kilopage m t cur vs = None"
proof (induction vs arbitrary: t cur)
  case (Cons v vs)
  then show ?case
    by (cases "tables m t v" rule: pte_kind_cases; cases cur) (simp_all add: Let_def)
qed simp

lemma resolve_entry_at:
  "resolve m root a = (case entry_at (tables m) root top_level (rev (vpns a)) of
     None \<Rightarrow> None | Some None \<Rightarrow> Some None | Some (Some (e, s)) \<Rightarrow> Some (Some (shl (shr e 10) 12)))"
  unfolding resolve_def
  by (subst with_entry_entry_at)
    (auto split: option.splits prod.splits simp: pte_ppn_def dest: entry_at_Leaf)

lemma page_flags_entry_at:
  "page_flags m root a = (case entry_at (tables m) root top_level (rev (vpns a)) of
     None \<Rightarrow> None | Some None \<Rightarrow> Some None | Some (Some (e, s)) \<Rightarrow> Some (Some (pte_flags e)))"
  unfolding page_flags_def
  by (subst with_entry_entry_at) (auto split: option.splits prod.splits)

section \<open>Two address spaces\<close>

text \<open>
  Page tables share the tables of the kernel half, so the separation of two address spaces is
  between the user half of one and all of the other.
\<close>

definition user_frames :: "tables \<Rightarrow> paddr \<Rightarrow> paddr set" where
  "user_frames T root =
     insert root (\<Union>v < 256. case branch_of (T root v) of Some p \<Rightarrow> frames T 1 p | None \<Rightarrow> {})"

definition separate :: "PageMem \<Rightarrow> paddr \<Rightarrow> paddr \<Rightarrow> bool" where
  "separate m r1 r2 \<longleftrightarrow> user_frames (tables m) r1 \<inter> frames (tables m) 2 r2 = {}"

lemma frames_2: "frames T 2 t = insert t (\<Union>v < 512. case branch_of (T t v) of Some p \<Rightarrow> frames T 1 p | None \<Rightarrow> {})"
  using frames.simps(2) [of T 1 t] by (simp add: numeral_2_eq_2)

lemma user_frames_sub: "user_frames T root \<subseteq> frames T 2 root"
  unfolding user_frames_def frames_2 by (intro insert_mono UN_mono) auto

lemma user_frames_branch: "v < 256 \<Longrightarrow> branch_of (T root v) = Some p \<Longrightarrow> frames T 1 p \<subseteq> user_frames T root"
  unfolding user_frames_def by (force split: option.splits)

lemma frames_user_or_kernel:
  assumes "x \<in> frames T 2 root" "x \<notin> user_frames T root"
  obtains w q where "256 \<le> w" "w < 512" "branch_of (T root w) = Some q" "x \<in> frames T 1 q"
proof -
  from assms have "x \<noteq> root" by (auto simp: user_frames_def)
  with assms(1) obtain w q where w: "w < 512" "branch_of (T root w) = Some q" "x \<in> frames T 1 q"
    unfolding frames_2 by (auto split: option.splits)
  moreover have "256 \<le> w" using user_frames_branch [of w T root q] w assms(2) by (meson not_less subsetD)
  ultimately show thesis using that by blast
qed

lemma visited_user_frames:
  assumes "in_userspace a"
  shows "visited T root (rev (vpns a)) \<subseteq> user_frames T root"
proof -
  obtain v vs where v: "rev (vpns a) = v # vs" "length vs = 2" "set vs \<subseteq> {..<512}"
    using rev_vpns [of a] by (cases "rev (vpns a)") auto
  have v256: "v < 256" using vpns_user [OF assms] v(1) by simp
  show ?thesis
  proof (cases "branch_of (T root v)")
    case (Some p)
    have "visited T p vs \<subseteq> frames T 1 p" using visited_subset_frames [of vs 1 T] v(2,3) by simp
    also have "\<dots> \<subseteq> user_frames T root" using user_frames_branch [of v T root p, OF v256 Some] .
    finally show ?thesis using Some unfolding v(1) by (simp add: user_frames_def)
  qed (simp add: v(1) user_frames_def)
qed

lemma map_walk_row:
  assumes "map_walk install sz m t cur (v # us) = Some m'" "tbl_ok m (Suc n) t" "level cur = Suc n" "level sz \<le> Suc n"
    and "v < 512" "length us = Suc n" "set us \<subseteq> {..<512}" "w \<noteq> v"
    and "\<And>e. \<not> pte_is_valid e \<Longrightarrow> sz = Kilopage \<or> branch_of (install e) = None"
  shows "tables m' t w = tables m t w"
proof -
  obtain nxt where nxt: "page_size_next cur = Some nxt" "level nxt = n"
    using level_next [OF assms(3)] by blast
  show ?thesis
  proof (cases "cur = sz")
    case True
    then show ?thesis using assms(1,8) by (auto simp: Let_def split: if_splits)
  next
    case False
    then have lsz: "level sz \<le> n" using assms(3,4) level_inj [of cur sz] by (metis le_SucE)
    show ?thesis
    proof (cases "tables m t v" rule: pte_kind_cases)
      case Leaf
      then show ?thesis using assms(1) False by simp
    next
      case (Branch p)
      have w: "map_walk install sz m p nxt us = Some m'" using assms(1) False nxt Branch by simp
      note r = map_walk_spec [OF w tbl_ok_branch [OF assms(2,5) Branch(2)] nxt(2) lsz assms(6,7,9)]
      show ?thesis using branch_step(3) [OF assms(2,5) Branch(2) assms(6,7)] r by metis
    next
      case NotValid
      obtain p m1 where nt: "new_table m = Some (p, m1)"
        using assms(1) False NotValid by (auto split: bind_splits)
      define m2 where "m2 = set_entry m1 t v (pte_set_ppn (pte_set_flags (tables m t v) FLAG_VALID) p)"
      have w: "map_walk install sz m2 p nxt us = Some m'"
        using assms(1) False nxt nt NotValid by (simp add: m2_def)
      note l = link_step [OF assms(2,5) NotValid(3) nt, of cur us, folded m2_def]
      have l1: "tbl_ok m2 (Suc n) t" "branch_of (tables m2 t v) = Some p" using l(1,2) nxt assms(6) by simp_all
      note r = map_walk_spec [OF w tbl_ok_branch [OF l1(1) assms(5) l1(2)] nxt(2) lsz assms(6,7,9)]
      have "tables m' t = tables m2 t" using branch_step(3) [OF l1(1) assms(5) l1(2) assms(6,7)] r by metis
      moreover have "t \<noteq> p" "tables m1 = (tables m)(p := (\<lambda>_. 0))"
        using new_table_SomeD(1,4) [OF nt] assms(2) root_in_frames [of t "tables m" "Suc n"]
        unfolding tbl_ok_def by blast+
      ultimately show ?thesis using assms(8) by (simp add: m2_def)
    qed
  qed
qed

lemma pt_map_separate:
  assumes "pt_map m r1 from to fl sz rsw = Some m'" "pt_ok m r1" "pt_ok m r2" "separate m r1 r2"
    and "leaf_flags fl \<or> sz = Kilopage" "in_userspace to"
  shows "\<And>x. x \<in> frames (tables m) 2 r2 \<Longrightarrow> tables m' x = tables m x" "pt_ok m' r2" "separate m' r1 r2"
proof -
  let ?T = "tables m" and ?T' = "tables m'" and ?U = "used_pages (pma m)"
  note sp = pt_map_spec [OF assms(1,2,5)]
  have U1: "frames ?T 2 r1 \<subseteq> ?U" and U2: "frames ?T 2 r2 \<subseteq> ?U"
    and tr: "tree ?T 2 r1" "tree ?T' 2 r1" "tree ?T 2 r2" and inv': "bm_inv (pma m')"
    using assms(2,3) sp(1) by (auto simp: pt_ok_def tbl_ok_def)
  have touched: "x \<in> user_frames ?T r1" if "x \<in> visited ?T' r1 (rev (vpns to))" "x \<in> ?U" for x
    using extends_onD(3) [OF sp(2) that] visited_user_frames [OF assms(6), of ?T r1] by blast
  show same: "?T' x = ?T x" if "x \<in> frames ?T 2 r2" for x
    using extends_onD(4) [OF sp(2), of x] touched [of x] that U2 assms(4) unfolding separate_def by blast
  have fr2: "frames ?T' 2 r2 = frames ?T 2 r2" "tree ?T' 2 r2 = tree ?T 2 r2"
    using frames_cong [of ?T 2 r2 ?T'] tree_cong [of ?T 2 r2 ?T'] same by blast+
  show "pt_ok m' r2"
    using fr2 tr(3) inv' U2 extends_onD(1) [OF sp(2)] unfolding pt_ok_def tbl_ok_def by blast
  obtain v us where v: "rev (vpns to) = v # us" "length us = Suc 1" "set us \<subseteq> {..<512}" "v < 512"
    using rev_vpns [of to] by (cases "rev (vpns to)") auto
  have v256: "v < 256" using vpns_user [OF assms(6)] v(1) by simp
  have row: "?T' r1 w = ?T r1 w" if "w \<noteq> v" for w
    using map_walk_row [OF pt_map_walk(3) [OF assms(1), unfolded v(1)], of 1 w] assms(2,5) v that
      install_map_props(3) [of fl] by (cases sz) (auto simp: pt_ok_def top_level_def numeral_2_eq_2)
  have kern: "frames ?T' 1 q = frames ?T 1 q" if "256 \<le> w" "w < 512" "branch_of (?T r1 w) = Some q" for w q
  proof (rule frames_cong, rule extends_onD(4) [OF sp(2)], rule notI)
    fix x assume x: "x \<in> frames ?T 1 q" "x \<in> visited ?T' r1 (rev (vpns to))"
    have t1: "tree ?T (Suc 1) r1" using tr(1) by (simp add: numeral_2_eq_2)
    have "x \<in> ?U" using x(1) U1 that unfolding frames_2 by (force split: option.splits)
    then have "x \<in> user_frames ?T r1" using touched x(2) by blast
    then consider "x = r1" | u p where "u < 256" "branch_of (?T r1 u) = Some p" "x \<in> frames ?T 1 p"
      unfolding user_frames_def by (auto split: option.splits)
    then show False
    proof cases
      case 1
      then show ?thesis using treeD(2) [OF t1 that(2,3)] x(1) by simp
    next
      case 2
      then show ?thesis using treeD(3) [OF t1 _ 2(2) that(2) _ that(3)] that(1) x(1) by auto
    qed
  qed
  show "separate m' r1 r2"
    unfolding separate_def fr2(1)
  proof (rule ccontr)
    assume "user_frames ?T' r1 \<inter> frames ?T 2 r2 \<noteq> {}"
    then obtain x where x: "x \<in> user_frames ?T' r1" "x \<in> frames ?T 2 r2" by blast
    have "x \<in> frames ?T 2 r1"
      using extends_onD(2) [OF sp(2), of x] user_frames_sub x U2 by blast
    moreover have "x \<notin> user_frames ?T r1" using x(2) assms(4) unfolding separate_def by blast
    ultimately obtain w q where w: "256 \<le> w" "w < 512" "branch_of (?T r1 w) = Some q" "x \<in> frames ?T 1 q"
      by (rule frames_user_or_kernel)
    have w': "branch_of (?T' r1 w) = Some q" "x \<in> frames ?T' 1 q"
      using row [of w] w v256 kern [OF w(1-3)] by auto
    have t1: "tree ?T' (Suc 1) r1" using tr(2) by (simp add: numeral_2_eq_2)
    from x(1) consider "x = r1" | u p where "u < 256" "branch_of (?T' r1 u) = Some p" "x \<in> frames ?T' 1 p"
      unfolding user_frames_def by (auto split: option.splits)
    then show False
    proof cases
      case 1
      then show ?thesis using treeD(2) [OF t1 w(2) w'(1)] w'(2) by simp
    next
      case 2
      then show ?thesis using treeD(3) [OF t1 _ 2(2) w(2) _ w'(1)] w(1) w'(2) by auto
    qed
  qed
qed

section \<open>New and dropped address spaces\<close>

lemma start_idx: "last (vpns (fst kernelspace_range)) = 256"
  unfolding kernelspace_range_eq by code_simp

lemma copy_fold:
  assumes "root \<noteq> active"
  shows "tables (fold (\<lambda>i m. set_entry m root i (tables m active i)) is m) =
    (tables m)(root := (\<lambda>i. if i \<in> set is then tables m active i else tables m root i))"
  using assms
  by (induction "is" arbitrary: m) (auto simp: fun_eq_iff)

lemma with_entry_row:
  assumes "T t v = T' t' v'" "\<And>p. branch_of (T t v) = Some p \<Longrightarrow> with_entry T p (the (page_size_next cur)) vs f = with_entry T' p (the (page_size_next cur)) vs f"
  shows "with_entry T t cur (v # vs) f = with_entry T' t' cur (v' # vs) f"
  using assms by (cases "T t v" rule: pte_kind_cases; cases "page_size_next cur") simp_all

lemma pt_new_reads:
  assumes "pt_new m active = Some (root, m')" "pt_ok m active"
  shows "entry_at (tables m') root top_level (rev (vpns a)) =
    (if last (vpns a) < 256 then Some None else entry_at (tables m) active top_level (rev (vpns a)))"
proof -
  obtain m1 where nt: "new_table m = Some (root, m1)" and m': "m' = copy_kernel_regions m1 root active"
    using assms(1) by (auto simp: pt_new_def split: bind_splits)
  have inv: "bm_inv (pma m)" and U: "frames (tables m) 2 active \<subseteq> used_pages (pma m)"
    using assms(2) by (auto simp: pt_ok_def tbl_ok_def)
  note new = new_table_SomeD [OF nt inv]
  have ne: "root \<noteq> active" using U root_in_frames new(1) by blast
  have T': "tables m' = (tables m)(root := (\<lambda>i. if 256 \<le> i \<and> i < 512 then tables m active i else 0))"
    unfolding m' copy_kernel_regions_def start_idx Let_def copy_fold [OF ne] new(4) set_upt
    using ne by (auto simp: fun_eq_iff)
  obtain v vs where v: "rev (vpns a) = v # vs" "length vs = 2" "set vs \<subseteq> {..<512}" "v < 512"
    using rev_vpns [of a] by (cases "rev (vpns a)") auto
  have lv: "last (vpns a) = v" using v(1) by (metis hd_rev list.sel(1))
  show ?thesis
  proof (cases "v < 256")
    case True
    then show ?thesis using v(1) lv by (simp add: T')
  next
    case False
    have "entry_at (tables m') root top_level (v # vs) = entry_at (tables m) active top_level (v # vs)"
    proof (rule with_entry_row)
      show "tables m' root v = tables m active v" using False v(4) by (simp add: T')
      fix p assume "branch_of (tables m' root v) = Some p"
      then have b: "branch_of (tables m active v) = Some p" using False v(4) by (simp add: T')
      have "visited (tables m) p vs \<subseteq> frames (tables m) 1 p"
        using visited_subset_frames [of vs 1] v(2,3) by simp
      also have "\<dots> \<subseteq> frames (tables m) 2 active"
        using frames_branch [of v "tables m" active p 1, OF v(4) b] by (simp add: numeral_2_eq_2)
      finally have "root \<notin> visited (tables m) p vs" using U new(1) by blast
      then show "entry_at (tables m') p (the (page_size_next top_level)) vs =
          entry_at (tables m) p (the (page_size_next top_level)) vs"
        by (intro with_entry_cong) (auto simp: T')
    qed
    then show ?thesis using False lv v(1) by simp
  qed
qed

lemma for_loop_panic:
  "x \<in> set xs \<Longrightarrow> (\<And>s. f x s = None) \<Longrightarrow> for_loop f xs s = None"
proof (induction xs arbitrary: s)
  case (Cons y ys)
  then show ?case by (cases "f y s") auto
qed simp

lemma pt_drop_gigapage:
  assumes "v < 512" "pte_kind (tables m root v) = Some Leaf" "pte_rsw (tables m root v) = RSW_NONE"
  shows "pt_drop m root = None"
proof -
  have "pt_deallocate (tables m) Gigapage root b = None" for b
    unfolding pt_deallocate.simps [of _ Gigapage] dealloc_table_def
    by (rule for_loop_panic [of v])
      (use assms in \<open>auto simp: bitmap_dealloc_def pte_ppn_def page_from_ptr_def split: bind_splits\<close>)
  then show ?thesis by (simp add: pt_drop_def top_level_def)
qed

lemma guard_read:
  assumes "rsw AND 3 = 0"
  shows "leaf_read (install_map from (flags_bitor FLAG_USER FLAG_VALID) rsw e) Kilopage = None"
proof -
  let ?e = "install_map from (flags_bitor FLAG_USER FLAG_VALID) rsw e"
  have f: "pte_flags ?e = 0b10001"
    unfolding install_map_props(1) using assms by (simp add: flags_bitor_def flag_defs)
  have "bit ?e 0" "\<not> bit ?e 1" "\<not> bit ?e 3"
    using bit_pte_flags [of ?e 0] bit_pte_flags [of ?e 1] bit_pte_flags [of ?e 3] unfolding f by simp_all
  then show ?thesis by (simp add: leaf_read_def pte_kind_eq)
qed

section \<open>Properties\<close>

text \<open>
  C2. After \<open>map\<close> of a readable or executable user page, the address space is still well formed;
  \<open>resolve\<close> gives the mapped physical address for every user address inside the page, and what it
  gave before for every other user address.
\<close>

theorem map_then_resolve:
  assumes "pt_ok m root" "leaf_flags flags" "in_userspace to" "in_userspace a"
    and "pt_map m root from to flags sz rsw = Some m'"
  shows "pt_ok m' root \<and>
    resolve m' root a = (if align_down_to a sz = to then Some (Some from) else resolve m root a)"
  using pt_map_spec(1) [OF assms(5,1)] pt_map_reads(1) [OF assms(5,1,2), of a] assms(2)
    same_page_user [OF assms(4,3) pt_map_walk(2) [OF assms(5)]] by simp

definition demo_mem :: PageMem where
  "demo_mem = \<lparr> tables = (\<lambda>_ _. 0), pma = demo_bitmap 1 \<rparr>"

lemma demo_mem_ok: "pt_ok demo_mem 0x1000"
proof -
  have "0x1000 \<in> used_pages (demo_bitmap 1)"
    unfolding used_pages_def by (rule image_eqI [of _ _ 0]) (simp_all add: page_addr_def page_used_def demo_bitmap_def)
  then show ?thesis
    using demo_bitmap_inv [of 1] by (simp add: pt_ok_def tbl_ok_def demo_mem_def frames_zero tree_zero)
qed

abbreviation rw_flags :: flags where
  "rw_flags \<equiv> FLAG_VALID OR FLAG_READ OR FLAG_WRITE OR FLAG_USER"

lemma rw_leaf: "leaf_flags rw_flags"
  by (simp add: leaf_flags_def flags_bitand_def flag_defs)

lemma demo_map: "\<exists>m'. pt_map demo_mem 0x1000 0x5000 0x7000 rw_flags Kilopage RSW_NONE = Some m'"
proof -
  have "\<not> Option.is_none (pt_map demo_mem 0x1000 0x5000 0x7000 rw_flags Kilopage RSW_NONE)" by code_simp
  then show ?thesis by (simp add: Option.is_none_def)
qed

theorem map_then_resolve_witness:
  "\<exists>m'. pt_map demo_mem 0x1000 0x5000 0x7000 rw_flags Kilopage RSW_NONE = Some m' \<and>
     resolve m' 0x1000 0x7123 = Some (Some 0x5000)"
proof -
  obtain m' where m': "pt_map demo_mem 0x1000 0x5000 0x7000 rw_flags Kilopage RSW_NONE = Some m'"
    using demo_map by blast
  have "align_down_to 0x7123 Kilopage = 0x7000" by code_simp
  then have "resolve m' 0x1000 0x7123 = Some (Some 0x5000)"
    using map_then_resolve [OF demo_mem_ok rw_leaf _ _ m', of "0x7123"] by (simp add: in_userspace_iff)
  with m' show ?thesis by blast
qed

lemma read_cases:
  fixes x :: "(pte \<times> PageSize) option panics"
  obtains "x = None" | "x = Some None" | e s where "x = Some (Some (e, s))"
proof (cases x)
  case (Some y)
  then show thesis using that by (cases y) auto
qed

text \<open>
  C19. With two free frames at hand, \<open>map\<close> of an aligned 4 KiB page returns exactly when the address
  was unmapped; otherwise the kernel panics.
\<close>

theorem map_returns_iff_unmapped:
  assumes "pt_ok m root" "is_aligned from Kilopage" "is_aligned to Kilopage"
    and "alloc_loop (\<lambda>b. bitmap_alloc b Kilopage) 2 (pma m) \<noteq> None"
  shows "(\<exists>m'. pt_map m root from to flags Kilopage rsw = Some m') \<longleftrightarrow> resolve m root to = Some None"
proof -
  let ?e = "entry_at (tables m) root top_level (rev (vpns to))"
  have e: "pt_map m root from to flags Kilopage rsw =
      map_walk (install_map from flags rsw) Kilopage m root top_level (rev (vpns to))"
    using assms(2,3) by (simp add: pt_map_def assert_addr_aligned_iff [THEN iffD2])
  consider "?e = None" | "?e = Some None" | e s where "?e = Some (Some (e, s))" by (rule read_cases)
  then show ?thesis
  proof cases
    case 1
    then show ?thesis unfolding e using map_walk_panic [OF 1] by (simp add: resolve_entry_at)
  next
    case 2
    have "\<exists>m'. map_walk (install_map from flags rsw) Kilopage m root top_level (rev (vpns to)) = Some m'"
      using map_walk_unmapped [OF 2, of 2] assms(1,4) rev_vpns [of to] by (simp add: pt_ok_def top_level_def)
    then show ?thesis unfolding e using 2 by (simp add: resolve_entry_at)
  next
    case 3
    then show ?thesis unfolding e using map_walk_mapped [OF 3] by (simp add: resolve_entry_at)
  qed
qed

lemma demo_alloc_2: "alloc_loop (\<lambda>b. bitmap_alloc b Kilopage) 2 (pma demo_mem) \<noteq> None"
proof -
  have "\<not> Option.is_none (alloc_loop (\<lambda>b. bitmap_alloc b Kilopage) 2 (pma demo_mem))" by code_simp
  then show ?thesis by (simp add: Option.is_none_def)
qed

theorem map_returns_iff_unmapped_witness:
  "(\<exists>m'. pt_map demo_mem 0x1000 0x5000 0x7000 rw_flags Kilopage RSW_NONE = Some m') \<longleftrightarrow>
   resolve demo_mem 0x1000 0x7000 = Some None"
  by (rule map_returns_iff_unmapped [OF demo_mem_ok _ _ demo_alloc_2]) code_simp+

text \<open>
  C20. \<open>unmap\<close> of a mapped address takes away exactly the mapping of the page it lies in, whose size \<open>sz\<close> is that of
  the leaf entry the walk finds for the address: every address of that page is unmapped, every other one, also in the
  same larger page, keeps its translation and flags, and no frame is allocated or freed. \<open>unmap\<close> of an unmapped
  address panics.
\<close>

theorem unmap_then_resolve:
  assumes "pt_ok m root"
  shows "case with_entry (tables m) root top_level (rev (vpns a)) (\<lambda>e sz. (e, sz)) of
      Some (Some (e, sz)) \<Rightarrow> resolve m root a \<noteq> Some None \<and>
        (\<exists>m'. unmap m root a = Some m' \<and> pt_ok m' root \<and> pma m' = pma m \<and>
          (\<forall>b. resolve m' root b = (if same_page sz b a then Some None else resolve m root b) \<and>
            page_flags m' root b = (if same_page sz b a then Some None else page_flags m root b)))
    | _ \<Rightarrow> (\<forall>p. resolve m root a \<noteq> Some (Some p)) \<and> unmap m root a = None"
proof -
  let ?e = "entry_at (tables m) root top_level (rev (vpns a))"
  note u = unmap_spec [OF assms, of a]
  consider "?e = None" | "?e = Some None" | e s where "?e = Some (Some (e, s))" by (rule read_cases)
  then show ?thesis
  proof cases
    case 3
    obtain m' where m': "unmap m root a = Some m'" "pt_ok m' root" "pma m' = pma m"
      "\<And>b. entry_at (tables m') root top_level (rev (vpns b)) =
         (if same_page s b a then Some None else entry_at (tables m) root top_level (rev (vpns b)))"
      using u 3 by auto
    have "resolve m' root b = (if same_page s b a then Some None else resolve m root b)"
      "page_flags m' root b = (if same_page s b a then Some None else page_flags m root b)" for b
      unfolding resolve_entry_at page_flags_entry_at m'(4) by simp_all
    then show ?thesis using m'(1-3) 3 by (simp add: resolve_entry_at [of m root a])
  qed (use u in \<open>simp_all add: resolve_entry_at\<close>)
qed

text \<open>A page is mapped, and unmapped through an address in it; its neighbour is not affected.\<close>

theorem unmap_then_resolve_witness:
  "\<exists>m' m''. pt_map demo_mem 0x1000 0x5000 0x7000 rw_flags Kilopage RSW_NONE = Some m' \<and>
     resolve m' 0x1000 0x7123 = Some (Some 0x5000) \<and> unmap m' 0x1000 0x7123 = Some m'' \<and>
     resolve m'' 0x1000 0x7000 = Some None \<and> resolve m'' 0x1000 0x8000 = resolve m' 0x1000 0x8000"
proof -
  obtain m' where m': "pt_map demo_mem 0x1000 0x5000 0x7000 rw_flags Kilopage RSW_NONE = Some m'"
    using demo_map by blast
  have ok: "pt_ok m' 0x1000" using pt_map_spec(1) [OF m' demo_mem_ok] by simp
  have sp: "same_page Kilopage 0x7123 0x7000" "same_page Kilopage 0x7000 0x7123" "\<not> same_page Kilopage 0x8000 0x7123" by code_simp+
  have rd: "resolve m' 0x1000 0x7123 = Some (Some 0x5000)"
    using pt_map_reads(1) [OF m' demo_mem_ok rw_leaf, of "0x7123"] sp by simp
  obtain e where "entry_at (tables m') 0x1000 top_level (rev (vpns 0x7123)) = leaf_read (install_map 0x5000 rw_flags RSW_NONE e) Kilopage"
    using pt_map_spec(3) [OF m' demo_mem_ok] sp(1) by (metis (full_types))
  then have w: "with_entry (tables m') 0x1000 top_level (rev (vpns 0x7123)) (\<lambda>e sz. (e, sz)) =
      Some (Some (install_map 0x5000 rw_flags RSW_NONE e, Kilopage))"
    using leaf_read_Leaf [OF install_map_props(2) [OF rw_leaf]] by simp
  show ?thesis using unmap_then_resolve [OF ok, of "0x7123", unfolded w] m' rd sp by auto
qed

text \<open>
  \<open>unmap\<close> undoes \<open>map\<close>: after mapping a page that was unmapped and unmapping an address in it,
  every address resolves as before.
\<close>

theorem map_unmap_roundtrip:
  assumes "pt_ok m root" "leaf_flags flags" "pt_map m root from to flags sz rsw = Some m'"
    and "\<forall>b. same_page sz b to \<longrightarrow> resolve m root b = Some None" "same_page sz a to"
  shows "\<exists>m''. unmap m' root a = Some m'' \<and> pt_ok m'' root \<and> (\<forall>b. resolve m'' root b = resolve m root b)"
proof -
  obtain e where e: "\<And>b. entry_at (tables m') root top_level (rev (vpns b)) =
       (if same_page sz b to then leaf_read (install_map from flags rsw e) sz
        else entry_at (tables m) root top_level (rev (vpns b)))"
    using pt_map_spec(3) [OF assms(3,1)] assms(2) by blast
  have "entry_at (tables m') root top_level (rev (vpns a)) = Some (Some (install_map from flags rsw e, sz))"
    using e [of a] assms(5) by (simp add: leaf_read_Leaf [OF install_map_props(2) [OF assms(2)]])
  then obtain m'' where m'': "unmap m' root a = Some m''" "pt_ok m'' root"
    "\<And>b. entry_at (tables m'') root top_level (rev (vpns b)) =
         (if same_page sz b a then Some None else entry_at (tables m') root top_level (rev (vpns b)))"
    using unmap_spec [OF pt_map_spec(1) [OF assms(3,1)], of a] assms(2) by auto
  have sp: "same_page sz b a \<longleftrightarrow> same_page sz b to" for b using assms(5) by (simp add: same_page_def)
  have "resolve m'' root b = resolve m root b" for b
  proof (cases "same_page sz b to")
    case True
    then show ?thesis using assms(4) m''(3) [of b] sp by (simp add: resolve_entry_at [of m''])
  next
    case False
    then show ?thesis using m''(3) [of b] e [of b] sp by (simp add: resolve_entry_at)
  qed
  with m''(1,2) show ?thesis by blast
qed

lemma demo_unmapped: "resolve demo_mem 0x1000 b = Some None"
  by (simp add: resolve_entry_at demo_mem_def with_entry_zero)

theorem map_unmap_roundtrip_witness:
  "\<exists>m' m''. pt_map demo_mem 0x1000 0x5000 0x7000 rw_flags Kilopage RSW_NONE = Some m' \<and>
     unmap m' 0x1000 0x7000 = Some m'' \<and> (\<forall>b. resolve m'' 0x1000 b = resolve demo_mem 0x1000 b)"
proof -
  obtain m' where m': "pt_map demo_mem 0x1000 0x5000 0x7000 rw_flags Kilopage RSW_NONE = Some m'"
    using demo_map by blast
  from map_unmap_roundtrip [OF demo_mem_ok rw_leaf m', of "0x7000"] m' show ?thesis
    by (auto simp: demo_unmapped)
qed

text \<open>
  C5. Isolation: mapping a user page in one address space changes no translation of another one whose
  tables are separate, and keeps both well formed and separate.
\<close>

theorem map_keeps_other_space:
  assumes "pt_ok m r1" "pt_ok m r2" "separate m r1 r2" "leaf_flags flags" "in_userspace to"
    and "pt_map m r1 from to flags sz rsw = Some m'"
  shows "pt_ok m' r1 \<and> pt_ok m' r2 \<and> separate m' r1 r2 \<and> (\<forall>a. resolve m' r2 a = resolve m r2 a)"
proof -
  have lf: "leaf_flags flags \<or> sz = Kilopage" using assms(4) ..
  note sep = pt_map_separate [OF assms(6,1,2,3) lf assms(5)]
  have "entry_at (tables m') r2 top_level (rev (vpns a)) = entry_at (tables m) r2 top_level (rev (vpns a))" for a
    using visited_subset_frames [of "rev (vpns a)" 2 "tables m" r2] rev_vpns [of a] sep(1)
    by (intro with_entry_cong) auto
  then show ?thesis
    using pt_map_spec(1) [OF assms(6,1) lf] sep(2,3) by (simp add: resolve_entry_at)
qed

definition demo_mem2 :: PageMem where
  "demo_mem2 = \<lparr> tables = (\<lambda>_ _. 0), pma = demo_bitmap 3 \<rparr>"

lemma demo_mem2_ok: "pt_ok demo_mem2 0x1000" "pt_ok demo_mem2 0x2000" "separate demo_mem2 0x1000 0x2000"
proof -
  have "0x1000 \<in> used_pages (demo_bitmap 3)"
    unfolding used_pages_def by (rule image_eqI [of _ _ 0]) (simp_all add: page_addr_def page_used_def demo_bitmap_def)
  moreover have "0x2000 \<in> used_pages (demo_bitmap 3)"
    unfolding used_pages_def by (rule image_eqI [of _ _ 1]) (simp_all add: page_addr_def page_used_def demo_bitmap_def)
  ultimately show "pt_ok demo_mem2 0x1000" "pt_ok demo_mem2 0x2000"
    using demo_bitmap_inv [of 3] by (simp_all add: pt_ok_def tbl_ok_def demo_mem2_def frames_zero tree_zero)
  show "separate demo_mem2 0x1000 0x2000"
    by (simp add: separate_def user_frames_def demo_mem2_def frames_zero)
qed

theorem map_keeps_other_space_witness:
  "\<exists>m'. pt_map demo_mem2 0x1000 0x5000 0x7000 rw_flags Kilopage RSW_NONE = Some m' \<and>
     separate m' 0x1000 0x2000 \<and> (\<forall>a. resolve m' 0x2000 a = resolve demo_mem2 0x2000 a)"
proof -
  have "\<not> Option.is_none (pt_map demo_mem2 0x1000 0x5000 0x7000 rw_flags Kilopage RSW_NONE)" by code_simp
  then obtain m' where m': "pt_map demo_mem2 0x1000 0x5000 0x7000 rw_flags Kilopage RSW_NONE = Some m'"
    by (auto simp: Option.is_none_def)
  have "in_userspace 0x7000" by (simp add: in_userspace_iff)
  from map_keeps_other_space [OF demo_mem2_ok rw_leaf this m'] m' show ?thesis by blast
qed

text \<open>
  A new address space translates kernel addresses as the active one does and has no user page.
\<close>

theorem pt_new_copies_kernel_half:
  assumes "pt_ok m active" "pt_new m active = Some (root, m')"
  shows "resolve m' root a = (if last (vpns a) < 256 then Some None else resolve m active a)"
  using pt_new_reads [OF assms(2,1), of a] by (simp add: resolve_entry_at)

theorem pt_new_copies_kernel_half_witness:
  "\<exists>root m'. pt_new demo_mem 0x1000 = Some (root, m') \<and>
     resolve m' root 0x7000 = (if last (vpns 0x7000) < 256 then Some None else resolve demo_mem 0x1000 0x7000)"
proof -
  obtain root m' where r: "pt_new demo_mem 0x1000 = Some (root, m')"
    using demo_alloc by (auto simp: pt_new_def new_table_def zalloc_page_def alloc_page_def demo_mem_def)
  from pt_new_copies_kernel_half [OF demo_mem_ok r, of "0x7000"] r show ?thesis by blast
qed

text \<open>
  C23. The bits reserved for software are lost: whatever is stored with \<open>set_rsw\<close>, \<open>rsw\<close> reads
  \<open>NONE\<close>, and the value ends up in the low flag bits instead, so that mapping with
  \<open>SHARED_MEMORY\<close> or \<open>DIRECT\<close> sets \<open>VALID\<close> or \<open>READ\<close> on top of the flags asked for.
\<close>

theorem map_rsw_leaks_into_flags:
  assumes "pt_ok m root" "leaf_flags flags" "same_page sz a to"
    and "pt_map m root from to flags sz rsw = Some m'"
  shows "page_flags m' root a = Some (Some (flags OR (rsw AND 3))) \<and> page_rsw m' root a = Some (Some RSW_NONE)"
proof -
  obtain e where e: "entry_at (tables m') root top_level (rev (vpns a)) =
       Some (Some (install_map from flags rsw e, sz))"
    using pt_map_spec(3) [OF assms(4,1)] assms(2,3) by (auto simp: leaf_read_Leaf [OF install_map_props(2)])
  have "page_rsw m' root a = Some (Some RSW_NONE)"
    unfolding page_rsw_def by (subst with_entry_entry_at) (simp add: e install_map_def pte_rsw_set_rsw)
  then show ?thesis
    using pt_map_reads(2) [OF assms(4,1,2), of a] assms(3) by simp
qed

theorem map_rsw_leaks_into_flags_witness:
  "\<exists>m'. pt_map demo_mem 0x1000 0x5000 0x7000 (FLAG_VALID OR FLAG_EXECUTE OR FLAG_USER) Kilopage RSW_DIRECT = Some m' \<and>
     page_flags m' 0x1000 0x7000 = Some (Some ((FLAG_VALID OR FLAG_EXECUTE OR FLAG_USER) OR (RSW_DIRECT AND 3))) \<and>
     page_rsw m' 0x1000 0x7000 = Some (Some RSW_NONE)"
proof -
  have "\<not> Option.is_none (pt_map demo_mem 0x1000 0x5000 0x7000 (FLAG_VALID OR FLAG_EXECUTE OR FLAG_USER) Kilopage RSW_DIRECT)"
    by code_simp
  then obtain m' where m': "pt_map demo_mem 0x1000 0x5000 0x7000 (FLAG_VALID OR FLAG_EXECUTE OR FLAG_USER) Kilopage RSW_DIRECT = Some m'"
    by (auto simp: Option.is_none_def)
  have "leaf_flags (FLAG_VALID OR FLAG_EXECUTE OR FLAG_USER)"
    by (simp add: leaf_flags_def flags_bitand_def flag_defs)
  from map_rsw_leaks_into_flags [OF demo_mem_ok this same_page_refl m'] m' show ?thesis by blast
qed

text \<open>
  A page mapped with \<open>USER | VALID\<close> only, as the memory manager maps guard pages, is read back as a
  branch of the lowest level: \<open>page_flags\<close>, \<open>resolve\<close> and \<open>unmap\<close> of an address in it reach
  \<open>unreachable!\<close>.
\<close>

lemma guard_page_panics:
  assumes "pt_ok m root" "same_page Kilopage a to" "rsw AND 3 = 0"
    and "pt_map m root from to (flags_bitor FLAG_USER FLAG_VALID) Kilopage rsw = Some m'"
  shows "page_flags m' root a = None \<and> resolve m' root a = None \<and> unmap m' root a = None"
proof -
  have e: "entry_at (tables m') root top_level (rev (vpns a)) = None"
    using pt_map_spec(3) [OF assms(4,1)] assms(2) guard_read [OF assms(3)] by auto
  then show ?thesis
    using unmap_spec [OF pt_map_spec(1) [OF assms(4,1)], of a] by (simp add: resolve_entry_at page_flags_entry_at)
qed

text \<open>
  Dropping a page table that has a 1 GiB leaf, as every table with the copied kernel half has for
  the direct map, runs into the unimplemented release of such pages.
\<close>

lemma drop_with_gigapage_panics:
  assumes "v < 512" "pte_kind (tables m root v) = Some Leaf" "pte_rsw (tables m root v) = RSW_NONE"
  shows "pt_drop m root = None"
  using assms by (rule pt_drop_gigapage)

end
