(* ===== verification/Memory_Manager.thy ===== *)
theory Memory_Manager
  imports Address_Map Page_Table
begin

text \<open>
  The memory manager of a task (\<open>mem/manager/mod.rs\<close>): one page table and one address map, kept
  in step by every operation, over the physical memory all tasks share. The frames that hold page
  tables are the \<^const>\<open>tables\<close> of \<^typ>\<open>PageMem\<close>; the bytes of the frames that back regions are a
  separate memory, \<open>bytes\<close>. The successive readings of the \<open>time\<close> register are the argument
  \<open>time\<close>. \<open>sfence\<close> changes no modelled state and is left out.
\<close>

section \<open>State\<close>

record Machine =
  phys :: PageMem
  bytes :: pmem
  physical_offset :: usize

record UserspaceMemoryManager =
  mgr_table :: paddr
  mgr_map :: AddressMap

datatype FillOption = FillData "u8 list" | Unitialized | Zeroed

datatype InvalidRegion = RegionNotMapped | RegionInvalidPermissions

record RegionDescription =
  d_size :: PageSize
  d_count :: usize
  d_contiguous :: bool
  d_flags :: flags
  d_fill :: FillOption
  d_kind :: AddressRegionKind

section \<open>Searching for a free region\<close>

text \<open>A \<open>for\<close> loop that returns from the function at the first hit.\<close>

fun first_hit :: "('a \<Rightarrow> 'b option panics) \<Rightarrow> 'a list \<Rightarrow> 'b option panics" where
  "first_hit f [] = Some None"
| "first_hit f (x # xs) = do { r \<leftarrow> f x; (case r of Some y \<Rightarrow> Some (Some y) | None \<Rightarrow> first_hit f xs) }"

definition jittered_start :: "usize \<Rightarrow> usize" where
  "jittered_start t = (t * 717) mod snd userspace_range"

definition jitter_candidate :: "AddressMap \<Rightarrow> PageSize \<Rightarrow> usize \<Rightarrow> usize \<Rightarrow> vaddr option panics" where
  "jitter_candidate m sz total_bytes t =
     (case amap_find m (vaddr_new (jittered_start t)) of
        None \<Rightarrow> Some None
      | Some rg \<Rightarrow> do {
          up \<leftarrow> round_up_to_next (jittered_start t) (to_byte_size sz);
          let aligned_start = vaddr_new up;
          let region_size = span_end rg - aligned_start;
          Some (if aligned_start > span_end rg then None
                else if region_size \<ge> total_bytes then Some aligned_start else None)
        })"

definition linear_candidate :: "PageSize \<Rightarrow> usize \<Rightarrow> AddressRegion \<Rightarrow> vaddr option panics" where
  "linear_candidate sz total_bytes rg = do {
     up \<leftarrow> round_up_to_next (span_start rg) (to_byte_size sz);
     let aligned_start = vaddr_new up;
     let region_size = span_end rg - aligned_start;
     Some (if aligned_start > span_end rg then None
           else if region_size \<ge> total_bytes then Some aligned_start else None)
   }"

definition find_free_region :: "(nat \<Rightarrow> usize) \<Rightarrow> UserspaceMemoryManager \<Rightarrow> PageSize \<Rightarrow> usize \<Rightarrow> vaddr panics" where
  "find_free_region time mgr sz n = do {
     let total_bytes = n * to_byte_size sz;
     r \<leftarrow> first_hit (jitter_candidate (mgr_map mgr) sz total_bytes) (map time [0..<100]);
     (case r of Some a \<Rightarrow> Some a | None \<Rightarrow> do {
        r' \<leftarrow> first_hit (linear_candidate sz total_bytes) (unoccupied_regions (mgr_map mgr));
        (case r' of Some a \<Rightarrow> Some a | None \<Rightarrow> panic) })
   }"

definition jitter_guarded_candidate :: "AddressMap \<Rightarrow> PageSize \<Rightarrow> usize \<Rightarrow> usize \<Rightarrow> vaddr option panics" where
  "jitter_guarded_candidate m sz total_bytes t =
     (case amap_find m (vaddr_new (jittered_start t)) of
        None \<Rightarrow> Some None
      | Some rg \<Rightarrow> do {
          up \<leftarrow> round_up_to_next (jittered_start t) (to_byte_size sz);
          let aligned_start = vaddr_new up;
          if aligned_start > span_end rg then Some None
          else do {
            a1 \<leftarrow> vaddr_add aligned_start total_bytes;
            r1 \<leftarrow> amap_find m a1;
            a2 \<leftarrow> vaddr_add aligned_start total_bytes;
            r2 \<leftarrow> amap_find m a2;
            let above_avail = is_unoccupied r1;
            let below_avail = is_unoccupied r2;
            if \<not> above_avail \<or> \<not> below_avail then Some None
            else (let region_size = span_end rg - aligned_start in
                  Some (if region_size \<ge> total_bytes then Some aligned_start else None))
          }
        })"

definition linear_guarded_candidate :: "AddressMap \<Rightarrow> PageSize \<Rightarrow> usize \<Rightarrow> AddressRegion \<Rightarrow> vaddr option panics" where
  "linear_guarded_candidate m sz total_bytes rg = do {
     after_guard \<leftarrow> vaddr_add (span_start rg) (kib 4);
     up \<leftarrow> round_up_to_next after_guard (to_byte_size sz);
     let aligned_start_after_guard = vaddr_new up;
     if aligned_start_after_guard > span_end rg then Some None
     else do {
       a1 \<leftarrow> vaddr_add aligned_start_after_guard total_bytes;
       r1 \<leftarrow> amap_find m a1;
       let above_avail = is_unoccupied r1;
       if \<not> above_avail then Some None
       else (let region_size = span_end rg - aligned_start_after_guard in
             Some (if region_size \<ge> total_bytes then Some aligned_start_after_guard else None))
     }
   }"

definition find_free_region_with_guards ::
  "(nat \<Rightarrow> usize) \<Rightarrow> UserspaceMemoryManager \<Rightarrow> PageSize \<Rightarrow> usize \<Rightarrow> vaddr panics" where
  "find_free_region_with_guards time mgr sz n = do {
     let total_bytes = n * to_byte_size sz;
     r \<leftarrow> first_hit (jitter_guarded_candidate (mgr_map mgr) sz total_bytes) (map time [0..<100]);
     (case r of Some a \<Rightarrow> Some a | None \<Rightarrow> do {
        r' \<leftarrow> first_hit (linear_guarded_candidate (mgr_map mgr) sz total_bytes) (unoccupied_regions (mgr_map mgr));
        (case r' of Some a \<Rightarrow> Some a | None \<Rightarrow> panic) })
   }"

section \<open>Allocation\<close>

text \<open>\<open>Result::unwrap\<close> and \<open>Result::expect\<close>.\<close>

fun unwrap :: "'e + 'a \<Rightarrow> 'a panics" where
  "unwrap (Inl e) = panic"
| "unwrap (Inr a) = Some a"

definition alloc_backing :: "Machine \<Rightarrow> RegionDescription \<Rightarrow> (UniquePhysicalRegion \<times> Machine) panics" where
  "alloc_backing s d = do {
     (backing, b) \<leftarrow> (if d_contiguous d then region_alloc_contiguous (pma (phys s)) (d_size d) (d_count d)
                       else region_alloc_sparse (pma (phys s)) (d_size d) (d_count d));
     bytes' \<leftarrow> (case d_fill d of
         FillData data \<Rightarrow> copy_data_into (physical_offset s) backing data (bytes s)
       | Zeroed \<Rightarrow> region_zero (physical_offset s) backing (bytes s)
       | Unitialized \<Rightarrow> Some (bytes s));
     Some (backing, s\<lparr>phys := (phys s)\<lparr>pma := b\<rparr>, bytes := bytes'\<rparr>)
   }"

text \<open>The pages of a region, each with the virtual address it goes to.\<close>

definition page_pairs :: "UniquePhysicalRegion \<Rightarrow> vaddr \<Rightarrow> PageSize \<Rightarrow> (paddr \<times> vaddr) list panics" where
  "page_pairs backing at sz = do {
     ps \<leftarrow> physical_addresses backing;
     those (map (\<lambda>(i, p). map_option (Pair p) (vaddr_add at (of_nat i * to_byte_size sz))) (enumerate 0 ps))
   }"

definition map_pages :: "paddr \<Rightarrow> flags \<Rightarrow> PageSize \<Rightarrow> rsw \<Rightarrow> (paddr \<times> vaddr) list \<Rightarrow> PageMem \<Rightarrow> PageMem panics" where
  "map_pages root flags sz rsw = for_loop (\<lambda>(p, v) m. pt_map m root p v flags sz rsw)"

definition guard :: "Machine \<Rightarrow> UserspaceMemoryManager \<Rightarrow> vaddr \<Rightarrow> (Machine \<times> UserspaceMemoryManager) panics" where
  "guard s mgr at = do {
     to \<leftarrow> vaddr_add at (kib 4);
     m' \<leftarrow> unwrap (amap_alloc (mgr_map mgr) at to GuardPage Kind_Guard FLAG_USER);
     p' \<leftarrow> pt_map (phys s) (mgr_table mgr) 0 at (flags_bitor FLAG_USER FLAG_VALID) Kilopage RSW_NONE;
     Some (s\<lparr>phys := p'\<rparr>, mgr\<lparr>mgr_map := m'\<rparr>)
   }"

text \<open>\<open>active\<close> is the page table in the \<open>satp\<close> register, whose kernel half is copied.\<close>

definition manager_new :: "Machine \<Rightarrow> paddr \<Rightarrow> (UserspaceMemoryManager \<times> Machine) panics" where
  "manager_new s active = do {
     (root, p) \<leftarrow> pt_new (phys s) active;
     (s', mgr) \<leftarrow> guard (s\<lparr>phys := p\<rparr>) \<lparr> mgr_table = root, mgr_map = userspace_map \<rparr> (vaddr_new 0);
     Some (mgr, s')
   }"

definition alloc_region ::
  "(nat \<Rightarrow> usize) \<Rightarrow> Machine \<Rightarrow> UserspaceMemoryManager \<Rightarrow> vaddr option \<Rightarrow> RegionDescription \<Rightarrow>
   ((vaddr \<times> vaddr) \<times> Machine \<times> UserspaceMemoryManager) panics" where
  "alloc_region time s mgr at d = do {
     at \<leftarrow> (case at of Some a \<Rightarrow> Some a | None \<Rightarrow> find_free_region time mgr (d_size d) (d_count d));
     (backing, s') \<leftarrow> alloc_backing s d;
     pairs \<leftarrow> page_pairs backing at (d_size d);
     p' \<leftarrow> map_pages (mgr_table mgr) (d_flags d) (d_size d) RSW_NONE pairs (phys s');
     to \<leftarrow> vaddr_add at (to_byte_size (d_size d) * d_count d);
     m' \<leftarrow> unwrap (amap_alloc (mgr_map mgr) at to (Backed (UniqueRegion backing)) (d_kind d) (d_flags d));
     Some ((at, to), s'\<lparr>phys := p'\<rparr>, mgr\<lparr>mgr_map := m'\<rparr>)
   }"

definition alloc_guarded_region ::
  "(nat \<Rightarrow> usize) \<Rightarrow> Machine \<Rightarrow> UserspaceMemoryManager \<Rightarrow> RegionDescription \<Rightarrow>
   (vaddr \<times> Machine \<times> UserspaceMemoryManager) panics" where
  "alloc_guarded_region time s mgr d = do {
     at \<leftarrow> find_free_region_with_guards time mgr (d_size d) (d_count d);
     (s1, mgr1) \<leftarrow> guard s mgr (vaddr_new (at - kib 4));
     (_, s2, mgr2) \<leftarrow> alloc_region time s1 mgr1 (Some at) d;
     above \<leftarrow> vaddr_add at (to_byte_size (d_size d) * d_count d);
     (s3, mgr3) \<leftarrow> guard s2 mgr2 above;
     Some (at, s3, mgr3)
   }"

definition alloc_shared_region ::
  "(nat \<Rightarrow> usize) \<Rightarrow> Machine \<Rightarrow> UserspaceMemoryManager \<Rightarrow> vaddr option \<Rightarrow> RegionDescription \<Rightarrow>
   (((vaddr \<times> vaddr) \<times> PhysicalRegion) \<times> Machine \<times> UserspaceMemoryManager) panics" where
  "alloc_shared_region time s mgr at d = do {
     at \<leftarrow> (case at of Some a \<Rightarrow> Some a | None \<Rightarrow> find_free_region time mgr (d_size d) (d_count d));
     (backing, s') \<leftarrow> alloc_backing s d;
     pairs \<leftarrow> page_pairs backing at (d_size d);
     p' \<leftarrow> map_pages (mgr_table mgr) (d_flags d) (d_size d) RSW_SHARED_MEMORY pairs (phys s');
     let shared = into_shared_region backing;
     to \<leftarrow> vaddr_add at (to_byte_size (d_size d) * d_count d);
     m' \<leftarrow> unwrap (amap_alloc (mgr_map mgr) at to (Backed shared) (d_kind d) (d_flags d));
     Some (((at, to), shared), s'\<lparr>phys := p'\<rparr>, mgr\<lparr>mgr_map := m'\<rparr>)
   }"

definition mmio_flags :: flags where
  "mmio_flags = flags_bitor (flags_bitor (flags_bitor FLAG_READ FLAG_WRITE) FLAG_USER) FLAG_VALID"

definition map_mmio_device ::
  "(nat \<Rightarrow> usize) \<Rightarrow> Machine \<Rightarrow> UserspaceMemoryManager \<Rightarrow> paddr \<Rightarrow> vaddr option \<Rightarrow> usize \<Rightarrow>
   ((vaddr \<times> vaddr) \<times> Machine \<times> UserspaceMemoryManager) panics" where
  "map_mmio_device time s mgr from to len = do {
     up \<leftarrow> round_up_to_next (kib 4) len;
     let n = up div kib 4;
     at \<leftarrow> (case to of Some a \<Rightarrow> Some a | None \<Rightarrow> find_free_region time mgr Kilopage n);
     backing \<leftarrow> region_mmio from Kilopage n;
     pairs \<leftarrow> page_pairs backing at Kilopage;
     p' \<leftarrow> map_pages (mgr_table mgr) mmio_flags Kilopage RSW_NONE pairs (phys s);
     to \<leftarrow> vaddr_add at (to_byte_size Kilopage * n);
     m' \<leftarrow> unwrap (amap_alloc (mgr_map mgr) at to (Backed (UniqueRegion backing)) Kind_Mmio mmio_flags);
     Some ((at, to), s\<lparr>phys := p'\<rparr>, mgr\<lparr>mgr_map := m'\<rparr>)
   }"

definition apply_shared_region ::
  "(nat \<Rightarrow> usize) \<Rightarrow> Machine \<Rightarrow> UserspaceMemoryManager \<Rightarrow> vaddr option \<Rightarrow> flags \<Rightarrow> UniquePhysicalRegion \<Rightarrow>
   AddressRegionKind \<Rightarrow> ((vaddr \<times> vaddr) \<times> Machine \<times> UserspaceMemoryManager) panics" where
  "apply_shared_region time s mgr at flags shared k = do {
     at \<leftarrow> (case at of Some a \<Rightarrow> Some a | None \<Rightarrow> find_free_region time mgr (ur_page_size shared) (ur_n_pages shared));
     found \<leftarrow> amap_find (mgr_map mgr) at;
     ensure (is_unoccupied found);
     pairs \<leftarrow> page_pairs shared at (ur_page_size shared);
     p' \<leftarrow> map_pages (mgr_table mgr) flags (ur_page_size shared) RSW_SHARED_MEMORY pairs (phys s);
     to \<leftarrow> vaddr_add at (to_byte_size (ur_page_size shared) * ur_n_pages shared);
     m' \<leftarrow> unwrap (amap_alloc (mgr_map mgr) at to (Backed (SharedRegion shared)) k flags);
     Some ((at, to), s\<lparr>phys := p'\<rparr>, mgr\<lparr>mgr_map := m'\<rparr>)
   }"

section \<open>Release and access\<close>

definition unmap_pages :: "paddr \<Rightarrow> vaddr \<Rightarrow> MemoryRegion \<Rightarrow> PageMem \<Rightarrow> PageMem panics" where
  "unmap_pages root at rg = for_loop
     (\<lambda>i m. do { v \<leftarrow> vaddr_add at (of_nat i * to_byte_size (mr_page_size rg)); unmap m root v })
     [0..<unat (mr_page_count rg)]"

definition dealloc_region ::
  "Machine \<Rightarrow> UserspaceMemoryManager \<Rightarrow> vaddr \<Rightarrow> (MemoryRegion \<times> Machine \<times> UserspaceMemoryManager) panics" where
  "dealloc_region s mgr at = do {
     found \<leftarrow> amap_find (mgr_map mgr) at;
     ensure (region found \<noteq> None);
     freed \<leftarrow> amap_free (mgr_map mgr) (span_start found) (span_end found);
     (rg, m') \<leftarrow> unwrap freed;
     p' \<leftarrow> unmap_pages (mgr_table mgr) at rg (phys s);
     Some (rg, s\<lparr>phys := p'\<rparr>, mgr\<lparr>mgr_map := m'\<rparr>)
   }"

definition region_for :: "UserspaceMemoryManager \<Rightarrow> vaddr \<Rightarrow> AddressRegion option" where
  "region_for mgr at = amap_find (mgr_map mgr) at"

definition map_direct ::
  "Machine \<Rightarrow> UserspaceMemoryManager \<Rightarrow> paddr \<Rightarrow> vaddr \<Rightarrow> PageSize \<Rightarrow> flags \<Rightarrow> Machine panics" where
  "map_direct s mgr map_from map_to n flags = do {
     p' \<leftarrow> pt_map (phys s) (mgr_table mgr) map_from map_to flags n RSW_DIRECT;
     Some (s\<lparr>phys := p'\<rparr>)
   }"

definition mgr_page_flags :: "Machine \<Rightarrow> UserspaceMemoryManager \<Rightarrow> vaddr \<Rightarrow> flags option panics" where
  "mgr_page_flags s mgr virt = page_flags (phys s) (mgr_table mgr) virt"

definition mgr_modify_page_flags ::
  "Machine \<Rightarrow> UserspaceMemoryManager \<Rightarrow> vaddr \<Rightarrow> (flags \<Rightarrow> flags) \<Rightarrow> (bool \<times> Machine) panics" where
  "mgr_modify_page_flags s mgr virt f = do {
     (r, p') \<leftarrow> modify_page_flags (phys s) (mgr_table mgr) virt f;
     Some (r, s\<lparr>phys := p'\<rparr>)
   }"

definition mgr_rsw :: "Machine \<Rightarrow> UserspaceMemoryManager \<Rightarrow> vaddr \<Rightarrow> rsw option panics" where
  "mgr_rsw s mgr virt = page_rsw (phys s) (mgr_table mgr) virt"

text \<open>As in the source, \<open>modify_rsw\<close> modifies the permission flags.\<close>

definition mgr_modify_rsw ::
  "Machine \<Rightarrow> UserspaceMemoryManager \<Rightarrow> vaddr \<Rightarrow> (flags \<Rightarrow> flags) \<Rightarrow> (bool \<times> Machine) panics" where
  "mgr_modify_rsw s mgr virt f = do {
     (r, p') \<leftarrow> modify_page_flags (phys s) (mgr_table mgr) virt f;
     Some (r, s\<lparr>phys := p'\<rparr>)
   }"

definition mgr_resolve :: "Machine \<Rightarrow> UserspaceMemoryManager \<Rightarrow> vaddr \<Rightarrow> paddr option panics" where
  "mgr_resolve s mgr virt = resolve (phys s) (mgr_table mgr) virt"

text \<open>\<open>(start..end).step_by(4 KiB)\<close>; the range is empty when \<open>end\<close> is not above \<open>start\<close>.\<close>

definition step_pages :: "usize \<Rightarrow> usize \<Rightarrow> usize list" where
  "step_pages start stop =
     (if stop \<le> start then []
      else map (\<lambda>i. start + of_nat i * kib 4) [0..<(unat (stop - start) + 4095) div 4096])"

fun check_pages ::
  "Machine \<Rightarrow> UserspaceMemoryManager \<Rightarrow> (flags \<Rightarrow> bool) \<Rightarrow> usize list \<Rightarrow> ((vaddr \<times> InvalidRegion) + unit) panics" where
  "check_pages s mgr f [] = Some (Inr ())"
| "check_pages s mgr f (p # ps) =
     (let page = vaddr_new p in
      if is_kernel_region page then Some (Inl (page, RegionInvalidPermissions))
      else do {
        fl \<leftarrow> mgr_page_flags s mgr page;
        (case fl of
           Some flags \<Rightarrow> if \<not> f flags then Some (Inl (page, RegionInvalidPermissions)) else check_pages s mgr f ps
         | None \<Rightarrow> Some (Inl (page, RegionNotMapped)))
      })"

definition is_user_region_valid ::
  "Machine \<Rightarrow> UserspaceMemoryManager \<Rightarrow> vaddr \<times> vaddr \<Rightarrow> (flags \<Rightarrow> bool) \<Rightarrow> ((vaddr \<times> InvalidRegion) + unit) panics" where
  "is_user_region_valid s mgr rng f =
     check_pages s mgr f (step_pages (align_down_to (fst rng) Kilopage) (align_to_next (snd rng) Kilopage))"

section \<open>Backing memory\<close>

definition alloc_grows :: "BitmapAllocator \<Rightarrow> BitmapAllocator \<Rightarrow> bool" where
  "alloc_grows b b' \<longleftrightarrow> bm_inv b' \<and> used_pages b \<subseteq> used_pages b'"

lemma alloc_growsI:
  assumes "bm_inv b" "same_shape b b'" "\<And>j. page_used b j \<Longrightarrow> page_used b' j"
  shows "alloc_grows b b'"
  using assms same_shapeD [OF assms(2)] unfolding alloc_grows_def used_pages_def by auto

lemma alloc_contiguous_grows:
  assumes inv: "bm_inv b" and a: "alloc_contiguous b Kilopage n = Some (Some p, b')"
  shows "alloc_grows b b'"
proof (cases "n \<le> 64")
  case True
  then have e: "alloc_contiguous b Kilopage n = alloc_contig_4k_intra_pages b (unat n)"
    by (simp add: alloc_contiguous_def)
  consider "unat n < 64" | "unat n = 64" using True by (fastforce simp: word_le_nat_alt)
  then have "\<exists>k. run_allocated b b' k (unat n)"
  proof cases
    case 1
    show ?thesis using alloc_intra_small [OF inv 1] a unfolding e by auto
  next
    case 2
    show ?thesis using alloc_intra_64 [OF inv] a unfolding e 2 by auto
  qed
  then show ?thesis by (auto simp: run_allocated_def intro: alloc_growsI [OF inv])
next
  case False
  then have "\<exists>s. inter_run b b' (64 * s) (unat n div 64) (unat n mod 64)"
    using inter_loop_spec [OF inv, of "unat n mod 64" "unat n div 64" 0] a
    by (auto simp: alloc_contiguous_def alloc_contig_4k_inter_pages_def)
  then show ?thesis by (auto simp: inter_run_def intro: alloc_growsI [OF inv])
qed

lemma those_map_Some: "those (map f xs) = Some ys \<longleftrightarrow> map f xs = map Some ys"
proof (induction xs arbitrary: ys)
  case (Cons x xs)
  show ?case using Cons [of "tl ys"] by (cases "f x"; cases ys) (auto split: option.splits)
qed auto

lemma those_lengthD: "those xs = Some ys \<Longrightarrow> length ys = length xs"
  using those_map_Some [of id xs ys] by (metis length_map list.map_id)

lemma region_alloc_contiguous_spec:
  assumes "bm_inv b" "region_alloc_contiguous b Kilopage n = Some (r, b')"
  shows "alloc_grows b b'" "ur_n_pages r = n" "ur_page_size r = Kilopage"
    "physical_addresses r = Some ps \<Longrightarrow> length ps = unat n"
proof -
  obtain p where p: "alloc_contiguous b Kilopage n = Some (Some p, b')"
    "r = \<lparr> ur_kind = Contiguous p, ur_page_size = Kilopage, ur_n_pages = n \<rparr>"
    using assms(2) by (auto simp: region_alloc_contiguous_def split: bind_splits)
  show "alloc_grows b b'" by (rule alloc_contiguous_grows [OF assms(1) p(1)])
  show "ur_n_pages r = n" "ur_page_size r = Kilopage" using p(2) by simp_all
  show "length ps = unat n" if "physical_addresses r = Some ps"
    using that those_lengthD by (fastforce simp: p(2) physical_addresses_def)
qed

lemma region_alloc_sparse_spec:
  assumes "bm_inv b" "region_alloc_sparse b Kilopage n = Some (r, b')"
  shows "alloc_grows b b'" "ur_n_pages r = n" "ur_page_size r = Kilopage"
    "physical_addresses r = Some ps \<Longrightarrow> length ps = unat n"
proof -
  have "alloc_grows b b' \<and> ur_n_pages r = n \<and> ur_page_size r = Kilopage \<and>
      (physical_addresses r = Some ps \<longrightarrow> length ps = unat n)"
  proof (cases "n = 1")
    case True
    then have "region_alloc_contiguous b Kilopage n = Some (r, b')" using assms(2) by (simp add: region_alloc_sparse_def)
    from region_alloc_contiguous_spec [OF assms(1) this] show ?thesis by blast
  next
    case False
    obtain pages where "r = \<lparr> ur_kind = Sparse pages, ur_page_size = Kilopage, ur_n_pages = n \<rparr>"
      "length pages = unat n" "used_pages b' = used_pages b \<union> set pages" "bm_inv b'"
      using region_alloc_sparse_Kilopage [OF assms(1) False assms(2)] by metis
    then show ?thesis by (auto simp: alloc_grows_def physical_addresses_def)
  qed
  then show "alloc_grows b b'" "ur_n_pages r = n" "ur_page_size r = Kilopage"
    "physical_addresses r = Some ps \<Longrightarrow> length ps = unat n" by auto
qed

lemma alloc_backing_spec:
  assumes "bm_inv (pma (phys s))" "d_size d = Kilopage" "alloc_backing s d = Some (r, s')"
  shows "alloc_grows (pma (phys s)) (pma (phys s'))" "tables (phys s') = tables (phys s)"
    "ur_n_pages r = d_count d" "ur_page_size r = Kilopage"
    "physical_addresses r = Some ps \<Longrightarrow> length ps = unat (d_count d)"
  using assms region_alloc_contiguous_spec [OF assms(1), of "d_count d" r] region_alloc_sparse_spec [OF assms(1), of "d_count d" r]
  by (auto simp: alloc_backing_def split: bind_splits if_splits)

text \<open>The pages were free and are distinct, and are what the allocator has marked as used.\<close>

definition takes_free :: "BitmapAllocator \<Rightarrow> BitmapAllocator \<Rightarrow> paddr list \<Rightarrow> bool" where
  "takes_free b b' ps \<longleftrightarrow> distinct ps \<and> set ps \<inter> used_pages b = {} \<and> set ps \<subseteq> used_pages b'"

lemma run_takes_free:
  assumes inv: "bm_inv b" and run: "run_allocated b b' k n"
  shows "takes_free b b' (map (\<lambda>i. page_addr b (k + i)) [0..<n])"
proof -
  have le: "k + i \<le> n_pages b" if "i < n" for i using run that by (simp add: run_allocated_def)
  have "inj_on (\<lambda>i. page_addr b (k + i)) {..<n}"
  proof (rule inj_onI)
    fix i j assume "i \<in> {..<n}" "j \<in> {..<n}" "page_addr b (k + i) = page_addr b (k + j)"
    then have "k + i = k + j" using page_addr_inj [OF inv] le by blast
    then show "i = j" by simp
  qed
  then have "distinct (map (\<lambda>i. page_addr b (k + i)) [0..<n])" by (simp add: distinct_map atLeast0LessThan)
  moreover have "page_addr b (k + i) \<notin> used_pages b \<and> page_addr b (k + i) \<in> used_pages b'" if i: "i < n" for i
  proof -
    have "\<not> page_used b (k + i)" "page_used b' (k + i)" "same_shape b b'" using run i by (simp_all add: run_allocated_def)
    then show ?thesis
      using used_pages_iff [OF inv page_addr_aligned [OF inv], of "k + i"] page_no_page_addr [OF inv le [OF i]]
      by (auto simp: used_pages_def same_shapeD(1))
  qed
  ultimately show ?thesis by (auto simp: takes_free_def)
qed

lemma contiguous_run:
  assumes inv: "bm_inv b" and n: "n \<le> 64" and a: "alloc_contiguous b Kilopage n = Some (Some p, b')"
  obtains k where "p = page_addr b k" "run_allocated b b' k (unat n)"
proof -
  have e: "alloc_contiguous b Kilopage n = alloc_contig_4k_intra_pages b (unat n)" using n by (simp add: alloc_contiguous_def)
  consider "unat n < 64" | "unat n = 64" using n by (fastforce simp: word_le_nat_alt)
  then have "\<exists>k. p = page_addr b k \<and> run_allocated b b' k (unat n)"
  proof cases
    case 1
    show ?thesis using alloc_intra_small [OF inv 1] a unfolding e by auto
  next
    case 2
    show ?thesis using alloc_intra_64 [OF inv] a unfolding e 2 by auto
  qed
  then show thesis using that by blast
qed

lemma region_alloc_contiguous_free:
  assumes inv: "bm_inv b" and n: "n \<le> 64" and a: "region_alloc_contiguous b Kilopage n = Some (r, b')"
    and as: "physical_addresses r = Some as"
  shows "takes_free b b' as"
proof -
  obtain p where p: "alloc_contiguous b Kilopage n = Some (Some p, b')"
    "r = \<lparr> ur_kind = Contiguous p, ur_page_size = Kilopage, ur_n_pages = n \<rparr>"
    using a by (auto simp: region_alloc_contiguous_def split: bind_splits)
  obtain k where k: "p = page_addr b k" "run_allocated b b' k (unat n)" using contiguous_run [OF inv n p(1)] .
  have l: "map Some as = map (\<lambda>i. paddr_offset p (of_nat i * to_byte_size Kilopage)) [0..<unat n]"
    using as by (simp add: physical_addresses_def p(2) those_map_Some)
  have "as = map (\<lambda>i. page_addr b (k + i)) [0..<unat n]"
  proof (rule nth_equalityI)
    show len: "length as = length (map (\<lambda>i. page_addr b (k + i)) [0..<unat n])" using arg_cong [OF l, of length] by simp
    fix i assume i: "i < length as"
    then have "checked_add p (of_nat i * to_byte_size Kilopage) = Some (as ! i)"
      using arg_cong [OF l, of "\<lambda>xs. xs ! i"] len by (simp add: paddr_offset_def)
    then have "as ! i = p + of_nat i * to_byte_size Kilopage" unfolding checked_add_Some_iff by blast
    then show "as ! i = map (\<lambda>i. page_addr b (k + i)) [0..<unat n] ! i"
      using i len k(1) by (simp add: page_addr_def units_def algebra_simps)
  qed
  then show ?thesis using run_takes_free [OF inv k(2)] by simp
qed

lemma alloc_backing_free:
  assumes inv: "bm_inv (pma (phys s))" and k: "d_size d = Kilopage" and a: "alloc_backing s d = Some (r, s')"
    and as: "physical_addresses r = Some as" and n: "d_contiguous d \<longrightarrow> d_count d \<le> 64"
  shows "takes_free (pma (phys s)) (pma (phys s')) as"
proof (cases "d_contiguous d \<or> d_count d = 1")
  case True
  then have "region_alloc_contiguous (pma (phys s)) Kilopage (d_count d) = Some (r, pma (phys s'))" "d_count d \<le> 64"
    using a k n by (auto simp: alloc_backing_def region_alloc_sparse_def split: bind_splits if_splits)
  then show ?thesis using region_alloc_contiguous_free [OF inv _ _ as] by blast
next
  case False
  then have "region_alloc_sparse (pma (phys s)) Kilopage (d_count d) = Some (r, pma (phys s'))" "d_count d \<noteq> 1"
    using a k by (auto simp: alloc_backing_def split: bind_splits if_splits)
  then obtain pages where "r = \<lparr> ur_kind = Sparse pages, ur_page_size = Kilopage, ur_n_pages = d_count d \<rparr>"
    "distinct pages" "set pages \<inter> used_pages (pma (phys s)) = {}"
    "used_pages (pma (phys s')) = used_pages (pma (phys s)) \<union> set pages"
    using region_alloc_sparse_Kilopage [OF inv] by metis
  then show ?thesis using as by (auto simp: takes_free_def physical_addresses_def)
qed

lemma pt_ok_grows:
  assumes "pt_ok m root" "alloc_grows (pma m) (pma m')" "tables m' = tables m"
  shows "pt_ok m' root"
  using assms by (auto simp: pt_ok_def tbl_ok_def alloc_grows_def)

section \<open>Mapping a run of pages\<close>

lemma map_pages_Cons:
  "map_pages root fl sz rsw ((p, v) # ps) m = Some m' \<longleftrightarrow>
    (\<exists>m1. pt_map m root p v fl sz rsw = Some m1 \<and> map_pages root fl sz rsw ps m1 = Some m')"
  by (auto simp: map_pages_def split: bind_splits)

lemma map_pages_spec:
  assumes "map_pages root fl sz rsw ps m = Some m'" "pt_ok m root" "leaf_flags fl"
    and "distinct (map snd ps)" "\<forall>v \<in> snd ` set ps. in_userspace v"
  shows "pt_ok m' root \<and> (\<forall>v \<in> snd ` set ps. is_aligned v sz) \<and>
    (\<forall>a. in_userspace a \<longrightarrow> resolve m' root a =
      (case map_of (map prod.swap ps) (align_down_to a sz) of Some p \<Rightarrow> Some (Some p) | None \<Rightarrow> resolve m root a)) \<and>
    (\<forall>a. in_userspace a \<longrightarrow> page_flags m' root a =
      (if align_down_to a sz \<in> snd ` set ps then Some (Some (fl OR (rsw AND 3))) else page_flags m root a))"
  using assms
proof (induction ps arbitrary: m)
  case Nil
  then show ?case by (simp add: map_pages_def)
next
  case (Cons pv ps)
  obtain p v where pv: "pv = (p, v)" by force
  obtain m1 where m1: "pt_map m root p v fl sz rsw = Some m1" "map_pages root fl sz rsw ps m1 = Some m'"
    using Cons.prems(1) by (auto simp: pv map_pages_Cons)
  have al: "is_aligned v sz" and u: "in_userspace v" using pt_map_walk [OF m1(1)] Cons.prems(5) pv by auto
  have ok1: "pt_ok m1 root" using pt_map_spec(1) [OF m1(1) Cons.prems(2)] Cons.prems(3) by simp
  note rd = pt_map_reads [OF m1(1) Cons.prems(2,3)]
  have IH: "pt_ok m' root \<and> (\<forall>v \<in> snd ` set ps. is_aligned v sz) \<and>
    (\<forall>a. in_userspace a \<longrightarrow> resolve m' root a =
      (case map_of (map prod.swap ps) (align_down_to a sz) of Some p \<Rightarrow> Some (Some p) | None \<Rightarrow> resolve m1 root a)) \<and>
    (\<forall>a. in_userspace a \<longrightarrow> page_flags m' root a =
      (if align_down_to a sz \<in> snd ` set ps then Some (Some (fl OR (rsw AND 3))) else page_flags m1 root a))"
    using Cons.IH [OF m1(2) ok1 Cons.prems(3)] Cons.prems(4,5) pv by auto
  have vn: "v \<notin> snd ` set ps" using Cons.prems(4) pv by auto
  have none: "map_of (map prod.swap ps) v = None" using vn by (force simp: map_of_eq_None_iff)
  have "resolve m' root a = (case map_of (map prod.swap (pv # ps)) (align_down_to a sz) of
      Some p \<Rightarrow> Some (Some p) | None \<Rightarrow> resolve m root a)" if a: "in_userspace a" for a
    using IH a rd(1) [of a] same_page_user [OF a u al] none
    by (cases "align_down_to a sz = v") (auto simp: pv split: option.splits)
  moreover have "page_flags m' root a =
      (if align_down_to a sz \<in> snd ` set (pv # ps) then Some (Some (fl OR (rsw AND 3))) else page_flags m root a)"
    if a: "in_userspace a" for a
    using IH a rd(2) [of a] same_page_user [OF a u al] vn
    by (cases "align_down_to a sz = v") (auto simp: pv)
  ultimately show ?case using IH al pv by auto
qed

lemma map_pages_grows:
  assumes "map_pages root fl sz rsw ps m = Some m'" "pt_ok m root" "leaf_flags fl"
  shows "used_pages (pma m) \<subseteq> used_pages (pma m')"
  using assms
proof (induction ps arbitrary: m)
  case (Cons pv ps)
  obtain p v where pv: "pv = (p, v)" by force
  obtain m1 where m1: "pt_map m root p v fl sz rsw = Some m1" "map_pages root fl sz rsw ps m1 = Some m'"
    using Cons.prems(1) by (auto simp: pv map_pages_Cons)
  note s = pt_map_spec(1,2) [OF m1(1) Cons.prems(2)]
  have "used_pages (pma m) \<subseteq> used_pages (pma m1)" using s(2) Cons.prems(3) by (simp add: extends_on_def)
  then show ?case using Cons.IH [OF m1(2) s(1) Cons.prems(3)] Cons.prems(3) by blast
qed (simp add: map_pages_def)

text \<open>Successive pages cannot wrap around: each is in user space, so the next is far below \<open>2 ^ 64\<close>.\<close>

lemma page_add_nat:
  assumes "in_userspace at" "\<forall>i < n. \<exists>v. vaddr_add at (of_nat i * to_byte_size sz) = Some v" "i < n"
  shows "unat at + i * 2 ^ page_shift sz < 0x3FFFFFFFFF \<and> unat (of_nat i * to_byte_size sz) = i * 2 ^ page_shift sz"
  using assms(3)
proof (induction i)
  case 0
  then show ?case using assms(1) by (simp add: in_userspace_iff word_less_nat_alt)
next
  case (Suc i)
  have sh: "(2 :: nat) ^ page_shift sz \<le> 2 ^ 30" by (cases sz) simp_all
  have IH: "unat at + i * 2 ^ page_shift sz < 0x3FFFFFFFFF" "unat (of_nat i * to_byte_size sz) = i * 2 ^ page_shift sz"
    using Suc by auto
  have e: "of_nat (Suc i) * to_byte_size sz = of_nat i * to_byte_size sz + to_byte_size sz" by (simp add: algebra_simps)
  have lt: "i * 2 ^ page_shift sz + 2 ^ page_shift sz < 2 ^ 64" using IH(1) sh by simp
  have u: "unat (of_nat (Suc i) * to_byte_size sz) = Suc i * 2 ^ page_shift sz"
    unfolding e using unat_add_lem [of "of_nat i * to_byte_size sz" "to_byte_size sz"] lt
    by (simp add: IH(2) unat_to_byte_size)
  obtain v where "vaddr_add at (of_nat (Suc i) * to_byte_size sz) = Some v" using assms(2) Suc.prems by blast
  then have "unat at + unat (of_nat (Suc i) * to_byte_size sz) < 0x3FFFFFFFFF"
    unfolding vaddr_add_def vaddr_checked_add_user [OF assms(1)] by blast
  then show ?case using u by simp
qed

definition page_at :: "vaddr \<Rightarrow> PageSize \<Rightarrow> nat \<Rightarrow> vaddr" where
  "page_at at sz i = at + of_nat i * to_byte_size sz"

lemma page_pairs_spec:
  assumes "page_pairs r at sz = Some ps" "in_userspace at"
  shows "\<exists>as. physical_addresses r = Some as \<and> ps = map (\<lambda>i. (as ! i, page_at at sz i)) [0..<length as] \<and>
    (\<forall>i < length as. unat (page_at at sz i) = unat at + i * 2 ^ page_shift sz \<and> in_userspace (page_at at sz i))"
proof -
  obtain as where as: "physical_addresses r = Some as"
    and t: "map (\<lambda>(i, p). map_option (Pair p) (vaddr_add at (of_nat i * to_byte_size sz))) (enumerate 0 as) = map Some ps"
    using assms(1) by (auto simp: page_pairs_def those_map_Some split: bind_splits)
  have len: "length ps = length as" using arg_cong [OF t, of length] by simp
  have i: "map_option (Pair (as ! i)) (vaddr_add at (of_nat i * to_byte_size sz)) = Some (ps ! i)" if "i < length as" for i
    using arg_cong [OF t, of "\<lambda>l. l ! i"] that len by (simp add: nth_enumerate_eq)
  have all: "\<forall>i < length as. \<exists>v. vaddr_add at (of_nat i * to_byte_size sz) = Some v" using i by auto
  have n: "unat (page_at at sz i) = unat at + i * 2 ^ page_shift sz \<and> in_userspace (page_at at sz i) \<and>
      ps ! i = (as ! i, page_at at sz i)" if l: "i < length as" for i
  proof -
    note p = page_add_nat [OF assms(2) all l]
    have "unat (page_at at sz i) = unat at + i * 2 ^ page_shift sz"
      unfolding page_at_def using p unat_add_lem [of at "of_nat i * to_byte_size sz"] by simp
    moreover obtain v where v: "vaddr_add at (of_nat i * to_byte_size sz) = Some v" using all l by blast
    then have "v = page_at at sz i"
      unfolding page_at_def vaddr_add_def vaddr_checked_add_user [OF assms(2)] by (rule conjunct2)
    moreover have "ps ! i = (as ! i, v)" using i [OF l] v by simp
    ultimately show ?thesis using p by (simp add: in_userspace_iff word_less_nat_alt)
  qed
  have "ps = map (\<lambda>i. (as ! i, page_at at sz i)) [0..<length as]"
    by (rule nth_equalityI) (simp_all add: len n)
  then show ?thesis using as n by (intro exI [of _ as]) simp
qed

lemma page_index:
  assumes al: "is_aligned at sz" and stop: "unat stop = unat at + n * 2 ^ page_shift sz"
    and pg: "\<forall>i < n. unat (page_at at sz i) = unat at + i * 2 ^ page_shift sz"
  shows "at \<le> x \<Longrightarrow> x < stop \<Longrightarrow> (unat x - unat at) div 2 ^ page_shift sz < n \<and>
      align_down_to x sz = page_at at sz ((unat x - unat at) div 2 ^ page_shift sz)"
    and "i < n \<Longrightarrow> align_down_to x sz = page_at at sz i \<Longrightarrow> at \<le> x \<and> x < stop"
proof -
  let ?S = "2 ^ page_shift sz :: nat"
  obtain q where q: "unat at = ?S * q" using al by (auto simp: is_aligned_iff_dvd dvd_def)
  have S: "0 < ?S" by simp
  show "(unat x - unat at) div ?S < n \<and> align_down_to x sz = page_at at sz ((unat x - unat at) div ?S)"
    if h: "at \<le> x" "x < stop"
  proof -
    have le: "unat at \<le> unat x" "unat x < unat at + n * ?S" using h stop by (simp_all add: word_le_nat_alt word_less_nat_alt)
    then have i: "(unat x - unat at) div ?S < n" by (simp add: less_mult_imp_div_less)
    have "unat x = ?S * q + (unat x - unat at)" using le(1) q by simp
    then have "unat x div ?S = q + (unat x - unat at) div ?S" using S by (metis div_mult_self4 less_numeral_extra(3))
    then have "unat x div ?S * ?S = unat at + (unat x - unat at) div ?S * ?S" using q by (simp add: algebra_simps)
    then show ?thesis using i pg by (simp add: word_unat_eq_iff unat_align_down)
  qed
  show "at \<le> x \<and> x < stop" if h: "i < n" "align_down_to x sz = page_at at sz i"
  proof -
    have e: "unat x div ?S * ?S = unat at + i * ?S" using h pg unat_align_down [of x sz] by simp
    have m: "unat x = unat x div ?S * ?S + unat x mod ?S" by (simp only: div_mult_mod_eq)
    have m2: "unat x mod ?S < ?S" by simp
    have "Suc i * ?S \<le> n * ?S" using h(1) by (intro mult_le_mono1) simp
    then have "unat x < unat at + n * ?S" using e m m2 by (simp only: mult_Suc)
    then show ?thesis using e m stop by (simp add: word_le_nat_alt word_less_nat_alt)
  qed
qed

lemma map_of_page_pairs:
  assumes "inj_on f {..<length as}"
  shows "map_of (map prod.swap (map (\<lambda>i. (as ! i, f i)) [0..<length as])) k =
    (if \<exists>i < length as. f i = k then Some (as ! (THE i. i < length as \<and> f i = k)) else None)"
proof (cases "\<exists>i < length as. f i = k")
  case True
  then obtain i where i: "i < length as" "f i = k" by blast
  have u: "(THE j. j < length as \<and> f j = k) = i"
    using i assms by (intro the_equality) (auto simp: inj_on_def)
  have "map_of (map (\<lambda>j. (f j, as ! j)) [0..<length as]) k = Some (as ! i)"
  proof (rule map_of_is_SomeI)
    show "distinct (map fst (map (\<lambda>j. (f j, as ! j)) [0..<length as]))"
      using assms by (simp add: distinct_map comp_def inj_on_def)
    show "(k, as ! i) \<in> set (map (\<lambda>j. (f j, as ! j)) [0..<length as])" using i by (auto intro: image_eqI [of _ _ i])
  qed
  then show ?thesis using True u by (simp add: comp_def)
next
  case False
  then show ?thesis by (auto simp: map_of_eq_None_iff)
qed

section \<open>The invariant of a memory manager\<close>

definition mgr_ok :: "Machine \<Rightarrow> UserspaceMemoryManager \<Rightarrow> bool" where
  "mgr_ok s mgr \<longleftrightarrow> pt_ok (phys s) (mgr_table mgr) \<and> amap_ok 0 0x3FFFFFFFFF (mgr_map mgr)"

text \<open>Mapping the pages of a region at \<open>at\<close>, and the span it then takes.\<close>

lemma map_region_spec:
  assumes ok: "pt_ok m root" and fl: "leaf_flags fl" and at: "in_userspace at"
    and pp: "page_pairs r at sz = Some ps" and mp: "map_pages root fl sz rsw ps m = Some m'"
    and as: "physical_addresses r = Some as" "0 < length as" "length as = unat n"
    and stop: "vaddr_add at (to_byte_size sz * n) = Some stop"
  shows "pt_ok m' root" "at < stop" "unat stop = unat at + unat n * 2 ^ page_shift sz" "is_aligned at sz"
    "in_userspace x \<Longrightarrow> resolve m' root x =
       (if at \<le> x \<and> x < stop then Some (Some (as ! ((unat x - unat at) div 2 ^ page_shift sz))) else resolve m root x)"
    "in_userspace x \<Longrightarrow> page_flags m' root x =
       (if at \<le> x \<and> x < stop then Some (Some (fl OR (rsw AND 3))) else page_flags m root x)"
proof -
  let ?S = "2 ^ page_shift sz :: nat" and ?f = "page_at at sz"
  obtain ps_eq: "ps = map (\<lambda>i. (as ! i, ?f i)) [0..<length as]"
    and pg: "\<forall>i < length as. unat (?f i) = unat at + i * ?S \<and> in_userspace (?f i)"
    using page_pairs_spec [OF pp at] as(1) by auto
  have inj: "inj_on ?f {..<length as}"
  proof (rule inj_onI)
    fix i j assume "i \<in> {..<length as}" "j \<in> {..<length as}" "?f i = ?f j"
    then have "unat at + i * ?S = unat at + j * ?S" using pg by (metis lessThan_iff)
    then show "i = j" by simp
  qed
  have sps: "snd ` set ps = ?f ` {..<length as}" unfolding ps_eq by (force simp: image_iff)
  have "distinct (map snd ps)" unfolding ps_eq using inj by (simp add: distinct_map comp_def inj_on_def)
  note mps = map_pages_spec [OF mp ok fl this]
  have u: "\<forall>v \<in> snd ` set ps. in_userspace v" unfolding sps using pg by auto
  show "pt_ok m' root" using mps u by blast
  show al: "is_aligned at sz"
  proof -
    have "?f 0 \<in> snd ` set ps" unfolding sps using as(2) by simp
    then show ?thesis using mps u by (auto simp: page_at_def)
  qed
  have nn: "unat (to_byte_size sz * n) = unat n * ?S"
  proof -
    have "unat at + (unat n - 1) * ?S < 0x3FFFFFFFFF"
      using pg [rule_format, of "unat n - 1"] as(2,3) unfolding in_userspace_iff word_less_nat_alt by simp
    moreover have "?S \<le> 2 ^ 30" by (cases sz) simp_all
    moreover have "unat n * ?S = (unat n - 1) * ?S + ?S" using as(2,3) by (simp add: diff_mult_distrib)
    ultimately have "?S * unat n < 2 ^ 64" by (simp add: mult.commute)
    then have "unat (to_byte_size sz) * unat n < 2 ^ 64" by (simp add: unat_to_byte_size)
    then have "unat (to_byte_size sz * n) = unat (to_byte_size sz) * unat n"
      using unat_mult_lem [of "to_byte_size sz" n] by simp
    then show ?thesis by (simp add: unat_to_byte_size mult.commute)
  qed
  have st: "unat at + unat (to_byte_size sz * n) < 0x3FFFFFFFFF" "stop = at + to_byte_size sz * n"
    using stop unfolding vaddr_add_def vaddr_checked_add_user [OF at] by blast+
  show us: "unat stop = unat at + unat n * ?S"
    unfolding st(2) using st(1) nn unat_add_lem [of at "to_byte_size sz * n"] by simp
  have "0 < unat n * ?S" using as(2,3) by simp
  then show "at < stop" using us by (simp add: word_less_nat_alt)
  have us': "unat stop = unat at + length as * ?S" using us as(3) by simp
  have pg': "\<forall>i < length as. unat (?f i) = unat at + i * ?S" using pg by blast
  note idx = page_index [OF al us' pg']
  have hit: "(\<exists>i < length as. ?f i = align_down_to x sz) \<longleftrightarrow> at \<le> x \<and> x < stop" for x
    using idx by metis
  have the: "(THE i. i < length as \<and> ?f i = align_down_to x sz) = (unat x - unat at) div ?S" if "at \<le> x" "x < stop"
    using idx(1) [OF that] inj by (intro the_equality) (auto simp: inj_on_def)
  show "resolve m' root x =
       (if at \<le> x \<and> x < stop then Some (Some (as ! ((unat x - unat at) div ?S))) else resolve m root x)" if "in_userspace x"
    using mps u that map_of_page_pairs [OF inj, of "align_down_to x sz"] hit the
    by (simp add: ps_eq split: if_splits)
  show "page_flags m' root x =
       (if at \<le> x \<and> x < stop then Some (Some (fl OR (rsw AND 3))) else page_flags m root x)" if "in_userspace x"
  proof -
    have "align_down_to x sz \<in> snd ` set ps \<longleftrightarrow> at \<le> x \<and> x < stop"
      unfolding sps hit [symmetric] by force
    then show ?thesis using mps u that by simp
  qed
qed

section \<open>Mapped pages as table entries\<close>

abbreviation entry_of :: "PageMem \<Rightarrow> paddr \<Rightarrow> vaddr \<Rightarrow> (pte \<times> PageSize) option panics" where
  "entry_of m root a \<equiv> entry_at (tables m) root top_level (rev (vpns a))"

lemma map_pages_entries:
  assumes "map_pages root fl sz rsw ps m = Some m'" "pt_ok m root" "leaf_flags fl"
    and "distinct (map snd ps)" "\<forall>v \<in> snd ` set ps. in_userspace v" "in_userspace a"
  shows "(align_down_to a sz \<notin> snd ` set ps \<longrightarrow> entry_of m' root a = entry_of m root a) \<and>
    (align_down_to a sz \<in> snd ` set ps \<longrightarrow> (\<exists>e. entry_of m' root a = Some (Some (e, sz))))"
  using assms
proof (induction ps arbitrary: m)
  case Nil
  then show ?case by (simp add: map_pages_def)
next
  case (Cons pv ps)
  obtain p v where pv: "pv = (p, v)" by force
  obtain m1 where m1: "pt_map m root p v fl sz rsw = Some m1" "map_pages root fl sz rsw ps m1 = Some m'"
    using Cons.prems(1) by (auto simp: pv map_pages_Cons)
  have al: "is_aligned v sz" and u: "in_userspace v" using pt_map_walk [OF m1(1)] Cons.prems(5) pv by auto
  have ok1: "pt_ok m1 root" using pt_map_spec(1) [OF m1(1) Cons.prems(2)] Cons.prems(3) by simp
  obtain e where e: "entry_of m1 root a = (if same_page sz a v then leaf_read (install_map p fl rsw e) sz else entry_of m root a)"
    using pt_map_spec(3) [OF m1(1) Cons.prems(2)] Cons.prems(3) by blast
  have "entry_of m1 root a = (if align_down_to a sz = v then Some (Some (install_map p fl rsw e, sz)) else entry_of m root a)"
    using e same_page_user [OF Cons.prems(6) u al] leaf_read_Leaf [OF install_map_props(2) [OF Cons.prems(3)]] by simp
  moreover have "(align_down_to a sz \<notin> snd ` set ps \<longrightarrow> entry_of m' root a = entry_of m1 root a) \<and>
    (align_down_to a sz \<in> snd ` set ps \<longrightarrow> (\<exists>e. entry_of m' root a = Some (Some (e, sz))))"
    using Cons.IH [OF m1(2) ok1 Cons.prems(3) _ _ Cons.prems(6)] Cons.prems(4,5) pv by auto
  ultimately show ?case using pv by auto
qed

lemma map_pages_unmapped:
  assumes "map_pages root fl Kilopage rsw ps m = Some m'" "pt_ok m root" "leaf_flags fl"
    and "distinct (map snd ps)" "\<forall>v \<in> snd ` set ps. in_userspace v" "in_userspace a"
    and "align_down_to a Kilopage \<in> snd ` set ps"
  shows "entry_of m root a = Some None"
  using assms
proof (induction ps arbitrary: m)
  case (Cons pv ps)
  obtain p v where pv: "pv = (p, v)" by force
  obtain m1 where m1: "pt_map m root p v fl Kilopage rsw = Some m1" "map_pages root fl Kilopage rsw ps m1 = Some m'"
    using Cons.prems(1) by (auto simp: pv map_pages_Cons)
  have al: "is_aligned v Kilopage" and u: "in_userspace v" using pt_map_walk [OF m1(1)] Cons.prems(5) pv by auto
  note walk = pt_map_walk(3) [OF m1(1)]
  have ok1: "pt_ok m1 root" using pt_map_spec(1) [OF m1(1) Cons.prems(2)] by simp
  have ev: "entry_of m root v = Some None"
  proof (cases "entry_of m root v" rule: read_cases)
    case 1
    then show ?thesis using map_walk_panic [OF 1] walk by simp
  next
    case (3 e s)
    then show ?thesis using map_walk_mapped [OF 3] walk by simp
  qed
  show ?case
  proof (cases "align_down_to a Kilopage = v")
    case True
    then have "vpns a = vpns v" using same_page_user [OF Cons.prems(6) u al] by (simp add: same_page_def)
    then show ?thesis using ev by simp
  next
    case False
    obtain e where "entry_of m1 root a = (if same_page Kilopage a v then leaf_read (install_map p fl rsw e) Kilopage else entry_of m root a)"
      using pt_map_spec(3) [OF m1(1) Cons.prems(2)] by blast
    then have "entry_of m1 root a = entry_of m root a" using False same_page_user [OF Cons.prems(6) u al] by simp
    moreover have "entry_of m1 root a = Some None"
      using Cons.IH [OF m1(2) ok1 Cons.prems(3)] Cons.prems(4-7) False pv by auto
    ultimately show ?thesis by simp
  qed
qed simp

lemma unmap_list_spec:
  assumes "pt_ok m root" "distinct vs" "\<forall>v \<in> set vs. in_userspace v \<and> is_aligned v sz \<and> (\<exists>e. entry_of m root v = Some (Some (e, sz)))"
  shows "\<exists>m'. for_loop (\<lambda>v m. unmap m root v) vs m = Some m' \<and> pt_ok m' root \<and> pma m' = pma m \<and>
    (\<forall>a. in_userspace a \<longrightarrow> entry_of m' root a = (if align_down_to a sz \<in> set vs then Some None else entry_of m root a))"
  using assms
proof (induction vs arbitrary: m)
  case (Cons v vs)
  obtain e where e: "entry_of m root v = Some (Some (e, sz))" and u: "in_userspace v" "is_aligned v sz"
    using Cons.prems(3) by auto
  obtain m1 where m1: "unmap m root v = Some m1" "pt_ok m1 root" "pma m1 = pma m"
    "\<And>b. entry_of m1 root b = (if same_page sz b v then Some None else entry_of m root b)"
    using unmap_spec [OF Cons.prems(1), of v] e by auto
  have en: "entry_of m1 root a = (if align_down_to a sz = v then Some None else entry_of m root a)" if "in_userspace a" for a
    using m1(4) same_page_user [OF that u] by simp
  have "\<forall>w \<in> set vs. in_userspace w \<and> is_aligned w sz \<and> (\<exists>e. entry_of m1 root w = Some (Some (e, sz)))"
    using Cons.prems(2,3) en align_down_id by force
  with Cons.IH [OF m1(2)] Cons.prems(2) obtain m' where "for_loop (\<lambda>v m. unmap m root v) vs m1 = Some m'" "pt_ok m' root"
    "pma m' = pma m1" "\<forall>a. in_userspace a \<longrightarrow> entry_of m' root a = (if align_down_to a sz \<in> set vs then Some None else entry_of m1 root a)"
    by auto
  then show ?case using m1 en by (intro exI [of _ m']) auto
qed simp

section \<open>Properties\<close>

lemma unwrap_Some [simp]: "unwrap r = Some a \<longleftrightarrow> r = Inr a"
  by (cases r) auto

lemma alloc_region_steps:
  assumes "alloc_region time s mgr (Some at) d = Some ((start, stop), s', mgr')"
  obtains backing s1 ps p' m' where "alloc_backing s d = Some (backing, s1)" "page_pairs backing at (d_size d) = Some ps"
    "map_pages (mgr_table mgr) (d_flags d) (d_size d) RSW_NONE ps (phys s1) = Some p'"
    "vaddr_add at (to_byte_size (d_size d) * d_count d) = Some stop" "start = at"
    "amap_alloc (mgr_map mgr) at stop (Backed (UniqueRegion backing)) (d_kind d) (d_flags d) = Inr m'"
    "s' = s1\<lparr>phys := p'\<rparr>" "mgr' = mgr\<lparr>mgr_map := m'\<rparr>"
  using assms
  by (auto simp: alloc_region_def Option.bind_eq_Some_conv)

lemma page_pairs_addresses: "page_pairs r at sz = Some ps \<Longrightarrow> \<exists>as. physical_addresses r = Some as"
  by (auto simp: page_pairs_def split: bind_splits)

lemma page_pairs_all:
  assumes "page_pairs r at sz = Some ps" "physical_addresses r = Some as"
  shows "\<forall>i < length as. \<exists>v. vaddr_add at (of_nat i * to_byte_size sz) = Some v"
proof (intro allI impI)
  fix i assume i: "i < length as"
  have t: "map (\<lambda>(i, p). map_option (Pair p) (vaddr_add at (of_nat i * to_byte_size sz))) (enumerate 0 as) = map Some ps"
    using assms by (simp add: page_pairs_def those_map_Some)
  have "length ps = length as" using arg_cong [OF t, of length] by simp
  then show "\<exists>v. vaddr_add at (of_nat i * to_byte_size sz) = Some v"
    using arg_cong [OF t, of "\<lambda>l. l ! i"] i by (auto simp: nth_enumerate_eq)
qed

lemma amap_alloc_keeps_ok:
  assumes "amap_ok lo hi m" "start < stop" "amap_alloc m start stop backing k perms = Inr m'"
  shows "amap_ok lo hi m'"
proof -
  have t: "tiles lo hi m" "m \<noteq> []" "region (snd (hd m)) \<noteq> None" using assms(1) by (simp_all add: amap_ok_def)
  note sp = amap_alloc_spec [OF t(1) assms(2,3)]
  have "occupant m' start \<noteq> None" using sp(2) [of start] assms(2) by simp
  then have "m' \<noteq> []" using occupant_SomeD(1) by fastforce
  then show ?thesis using sp(1) sp(4) [OF t(2,3)] by (simp add: amap_ok_def)
qed

text \<open>What a successful allocation at a given address has done, with the region that backs it.\<close>

lemma alloc_region_spec:
  assumes ok: "mgr_ok s mgr" and at: "in_userspace at" and fl: "leaf_flags (d_flags d)"
    and k: "d_size d = Kilopage" and n: "0 < d_count d"
    and a: "alloc_region time s mgr (Some at) d = Some ((start, stop), s', mgr')"
  shows "\<exists>backing as. physical_addresses backing = Some as \<and> length as = unat (d_count d) \<and>
    ur_n_pages backing = d_count d \<and> ur_page_size backing = Kilopage \<and> start = at \<and> at < stop \<and>
    unat stop = unat at + 4096 * unat (d_count d) \<and> is_aligned at Kilopage \<and> mgr_table mgr' = mgr_table mgr \<and>
    mgr_ok s' mgr' \<and>
    amap_alloc (mgr_map mgr) at stop (Backed (UniqueRegion backing)) (d_kind d) (d_flags d) = Inr (mgr_map mgr') \<and>
    (\<forall>i < unat (d_count d). vaddr_add at (of_nat i * to_byte_size Kilopage) = Some (page_at at Kilopage i) \<and>
      unat (page_at at Kilopage i) = unat at + i * 4096) \<and>
    (\<forall>x. in_userspace x \<longrightarrow>
       (if at \<le> x \<and> x < stop
        then entry_of (phys s) (mgr_table mgr) x = Some None \<and>
          (\<exists>e. entry_of (phys s') (mgr_table mgr) x = Some (Some (e, Kilopage))) \<and>
          resolve (phys s') (mgr_table mgr) x = Some (Some (as ! ((unat x - unat at) div 4096))) \<and>
          page_flags (phys s') (mgr_table mgr) x = Some (Some (d_flags d))
        else entry_of (phys s') (mgr_table mgr) x = entry_of (phys s) (mgr_table mgr) x)) \<and>
    ((d_contiguous d \<longrightarrow> d_count d \<le> 64) \<longrightarrow> takes_free (pma (phys s)) (pma (phys s')) as)"
proof -
  obtain backing s1 ps p' m' where st: "alloc_backing s d = Some (backing, s1)" "page_pairs backing at Kilopage = Some ps"
    "map_pages (mgr_table mgr) (d_flags d) Kilopage RSW_NONE ps (phys s1) = Some p'"
    "vaddr_add at (to_byte_size Kilopage * d_count d) = Some stop" "start = at"
    "amap_alloc (mgr_map mgr) at stop (Backed (UniqueRegion backing)) (d_kind d) (d_flags d) = Inr m'"
    "s' = s1\<lparr>phys := p'\<rparr>" "mgr' = mgr\<lparr>mgr_map := m'\<rparr>"
    using alloc_region_steps [OF a] unfolding k by metis
  obtain as where as: "physical_addresses backing = Some as" using page_pairs_addresses [OF st(2)] by blast
  have pok: "pt_ok (phys s) (mgr_table mgr)" "amap_ok 0 0x3FFFFFFFFF (mgr_map mgr)" using ok by (simp_all add: mgr_ok_def)
  have inv: "bm_inv (pma (phys s))" using pok(1) by (simp add: pt_ok_def tbl_ok_def)
  note ab = alloc_backing_spec [OF inv k st(1)]
  have len: "length as = unat (d_count d)" by (rule ab(5) [OF as])
  have pos: "0 < length as" unfolding len using n by (simp add: word_less_nat_alt)
  have ok1: "pt_ok (phys s1) (mgr_table mgr)" by (rule pt_ok_grows [OF pok(1) ab(1,2)])
  have e1: "entry_of (phys s1) (mgr_table mgr) x = entry_of (phys s) (mgr_table mgr) x" for x by (simp add: ab(2))
  note mr = map_region_spec [OF ok1 fl at st(2,3) as pos len st(4)]
  obtain pp: "ps = map (\<lambda>i. (as ! i, page_at at Kilopage i)) [0..<length as]"
    and pg: "\<forall>i < length as. unat (page_at at Kilopage i) = unat at + i * 2 ^ page_shift Kilopage \<and>
      in_userspace (page_at at Kilopage i)"
    using page_pairs_spec [OF st(2) at] as by auto
  have sps: "snd ` set ps = page_at at Kilopage ` {..<length as}" unfolding pp by (force simp: image_iff)
  have us: "\<forall>v \<in> snd ` set ps. in_userspace v" unfolding sps using pg by auto
  have inj: "inj_on (page_at at Kilopage) {..<length as}"
  proof (rule inj_onI)
    fix i j assume "i \<in> {..<length as}" "j \<in> {..<length as}" "page_at at Kilopage i = page_at at Kilopage j"
    then have "unat at + i * 2 ^ page_shift Kilopage = unat at + j * 2 ^ page_shift Kilopage" using pg by (metis lessThan_iff)
    then show "i = j" by simp
  qed
  have dis: "distinct (map snd ps)" unfolding pp using inj by (simp add: distinct_map comp_def inj_on_def)
  have stop: "unat stop = unat at + length as * 2 ^ page_shift Kilopage" using mr(3) len by simp
  have hit: "align_down_to x Kilopage \<in> snd ` set ps \<longleftrightarrow> at \<le> x \<and> x < stop" for x
  proof -
    have pg1: "\<forall>i < length as. unat (page_at at Kilopage i) = unat at + i * 2 ^ page_shift Kilopage" using pg by blast
    show ?thesis unfolding sps using page_index(1) [OF mr(4) stop pg1, of x] page_index(2) [OF mr(4) stop pg1, of _ x] by blast
  qed
  have x: "if at \<le> x \<and> x < stop
        then entry_of (phys s) (mgr_table mgr) x = Some None \<and>
          (\<exists>e. entry_of p' (mgr_table mgr) x = Some (Some (e, Kilopage))) \<and>
          resolve p' (mgr_table mgr) x = Some (Some (as ! ((unat x - unat at) div 4096))) \<and>
          page_flags p' (mgr_table mgr) x = Some (Some (d_flags d))
        else entry_of p' (mgr_table mgr) x = entry_of (phys s) (mgr_table mgr) x" if u: "in_userspace x" for x
    using hit [of x] map_pages_entries [OF st(3) ok1 fl dis us u] map_pages_unmapped [OF st(3) ok1 fl dis us u]
      mr(5,6) [OF u] e1 [of x]
    by (simp add: RSW_NONE_def)
  have va: "vaddr_add at (of_nat i * to_byte_size Kilopage) = Some (page_at at Kilopage i)" if "i < unat (d_count d)" for i
  proof -
    have i: "i < length as" using that len by simp
    have all: "\<forall>i < length as. \<exists>v. vaddr_add at (of_nat i * to_byte_size Kilopage) = Some v"
      by (rule page_pairs_all [OF st(2) as])
    from page_add_nat [OF at this i] show ?thesis
      unfolding vaddr_add_def vaddr_checked_add_user [OF at] page_at_def by simp
  qed
  have "used_pages (pma (phys s1)) \<subseteq> used_pages (pma p')" by (rule map_pages_grows [OF st(3) ok1 fl])
  then have free: "takes_free (pma (phys s)) (pma p') as" if "d_contiguous d \<longrightarrow> d_count d \<le> 64"
    using alloc_backing_free [OF inv k st(1) as that] by (auto simp: takes_free_def)
  show ?thesis
    using as len ab(3,4) st(5-8) mr(1-4) pg x va free amap_alloc_keeps_ok [OF pok(2) mr(2) st(6)]
    by (intro exI [of _ backing] exI [of _ as]) (simp add: mgr_ok_def)
qed

text \<open>
  C9. Allocating a region of 4 KiB pages at a user address: when \<^const>\<open>alloc_region\<close> returns, the page
  table and the address map agree on what happened. Every address of the returned span belonged to no
  region and was unmapped before; now it belongs to the new region, resolves to the page of its backing
  memory at the same index, and has the requested flags. The pages of the backing memory are distinct, were free and
  are marked as used, unless a contiguous run of more than 64 pages was asked for (for which the allocator may return
  used pages). Every other user address has kept its
  translation and its region, and the manager's invariant is kept.
\<close>

theorem alloc_region_maps_span:
  assumes "mgr_ok s mgr" "in_userspace at" "leaf_flags (d_flags d)" "d_size d = Kilopage" "0 < d_count d"
    and "alloc_region time s mgr (Some at) d = Some ((start, stop), s', mgr')"
  shows "mgr_ok s' mgr' \<and> start = at \<and> unat stop = unat at + 4096 * unat (d_count d) \<and>
    (\<exists>backing as. physical_addresses backing = Some as \<and> length as = unat (d_count d) \<and>
      ((d_contiguous d \<longrightarrow> d_count d \<le> 64) \<longrightarrow> distinct as \<and>
        set as \<inter> used_pages (pma (phys s)) = {} \<and> set as \<subseteq> used_pages (pma (phys s'))) \<and>
      (\<forall>x. in_userspace x \<longrightarrow>
        (if at \<le> x \<and> x < stop
         then occupant (mgr_map mgr) x = None \<and> mgr_resolve s mgr x = Some None \<and>
           occupant (mgr_map mgr') x =
             Some (active_region at stop (Backed (UniqueRegion backing)) (d_kind d) (d_flags d)) \<and>
           mgr_resolve s' mgr' x = Some (Some (as ! ((unat x - unat at) div 4096))) \<and>
           mgr_page_flags s' mgr' x = Some (Some (d_flags d))
         else occupant (mgr_map mgr') x = occupant (mgr_map mgr) x \<and>
           mgr_resolve s' mgr' x = mgr_resolve s mgr x \<and> mgr_page_flags s' mgr' x = mgr_page_flags s mgr x)))"
proof -
  obtain backing as where sp: "physical_addresses backing = Some as" "length as = unat (d_count d)" "start = at" "at < stop"
    "unat stop = unat at + 4096 * unat (d_count d)" "mgr_table mgr' = mgr_table mgr" "mgr_ok s' mgr'"
    and al: "amap_alloc (mgr_map mgr) at stop (Backed (UniqueRegion backing)) (d_kind d) (d_flags d) = Inr (mgr_map mgr')"
    and x: "\<And>x. in_userspace x \<Longrightarrow>
       (if at \<le> x \<and> x < stop
        then entry_of (phys s) (mgr_table mgr) x = Some None \<and>
          (\<exists>e. entry_of (phys s') (mgr_table mgr) x = Some (Some (e, Kilopage))) \<and>
          resolve (phys s') (mgr_table mgr) x = Some (Some (as ! ((unat x - unat at) div 4096))) \<and>
          page_flags (phys s') (mgr_table mgr) x = Some (Some (d_flags d))
        else entry_of (phys s') (mgr_table mgr) x = entry_of (phys s) (mgr_table mgr) x)"
    and free: "(d_contiguous d \<longrightarrow> d_count d \<le> 64) \<longrightarrow> takes_free (pma (phys s)) (pma (phys s')) as"
    using alloc_region_spec [OF assms] by blast
  have t: "tiles 0 0x3FFFFFFFFF (mgr_map mgr)" using assms(1) by (simp add: mgr_ok_def amap_ok_def)
  note am = amap_alloc_spec(2,3) [OF t sp(4) al]
  have "if at \<le> x \<and> x < stop
         then occupant (mgr_map mgr) x = None \<and> mgr_resolve s mgr x = Some None \<and>
           occupant (mgr_map mgr') x =
             Some (active_region at stop (Backed (UniqueRegion backing)) (d_kind d) (d_flags d)) \<and>
           mgr_resolve s' mgr' x = Some (Some (as ! ((unat x - unat at) div 4096))) \<and>
           mgr_page_flags s' mgr' x = Some (Some (d_flags d))
         else occupant (mgr_map mgr') x = occupant (mgr_map mgr) x \<and>
           mgr_resolve s' mgr' x = mgr_resolve s mgr x \<and> mgr_page_flags s' mgr' x = mgr_page_flags s mgr x"
    if "in_userspace x" for x
  proof (cases "at \<le> x \<and> x < stop")
    case True
    then show ?thesis using x [OF that] am [of x]
      by (simp add: mgr_resolve_def mgr_page_flags_def sp(6) resolve_entry_at [of "phys s"])
  next
    case False
    then have "entry_of (phys s') (mgr_table mgr) x = entry_of (phys s) (mgr_table mgr) x"
      "occupant (mgr_map mgr') x = occupant (mgr_map mgr) x" using x [OF that] am(1) [of x] by auto
    then have "occupant (mgr_map mgr') x = occupant (mgr_map mgr) x \<and>
           mgr_resolve s' mgr' x = mgr_resolve s mgr x \<and> mgr_page_flags s' mgr' x = mgr_page_flags s mgr x"
      by (simp add: mgr_resolve_def mgr_page_flags_def sp(6) resolve_entry_at page_flags_entry_at)
    with False show ?thesis by (simp only: if_False)
  qed
  then show ?thesis using sp free unfolding takes_free_def by blast
qed

text \<open>A machine with a few frames, its first used by the root of an empty page table.\<close>

definition demo_machine :: Machine where
  "demo_machine = \<lparr> phys = demo_mem, bytes = (\<lambda>_. 0), physical_offset = 0 \<rparr>"

definition demo_manager :: UserspaceMemoryManager where
  "demo_manager = \<lparr> mgr_table = 0x1000, mgr_map = demo_map \<rparr>"

definition demo_desc :: RegionDescription where
  "demo_desc = \<lparr> d_size = Kilopage, d_count = 2, d_contiguous = False, d_flags = rw_flags, d_fill = Unitialized,
     d_kind = Kind_Data \<rparr>"

lemma demo_manager_ok: "mgr_ok demo_machine demo_manager"
  using demo_mem_ok demo_map_ok by (simp add: mgr_ok_def demo_machine_def demo_manager_def)

lemma demo_alloc_region:
  obtains s' mgr' where "alloc_region (\<lambda>_. 0) demo_machine demo_manager (Some 0x4000) demo_desc = Some ((0x4000, 0x6000), s', mgr')"
proof -
  have "map_option fst (alloc_region (\<lambda>_. 0) demo_machine demo_manager (Some 0x4000) demo_desc) = Some (0x4000, 0x6000)"
    by code_simp
  then show thesis using that by auto
qed

lemma demo_hyps:
  "in_userspace 0x4000" "leaf_flags (d_flags demo_desc)" "d_size demo_desc = Kilopage" "0 < d_count demo_desc"
  using rw_leaf by (simp_all add: in_userspace_iff demo_desc_def)

theorem alloc_region_maps_span_witness:
  "\<exists>s' mgr'. alloc_region (\<lambda>_. 0) demo_machine demo_manager (Some 0x4000) demo_desc = Some ((0x4000, 0x6000), s', mgr') \<and>
    mgr_ok s' mgr' \<and> mgr_page_flags s' mgr' 0x5123 = Some (Some rw_flags)"
proof -
  obtain s' mgr' where a: "alloc_region (\<lambda>_. 0) demo_machine demo_manager (Some 0x4000) demo_desc = Some ((0x4000, 0x6000), s', mgr')"
    by (rule demo_alloc_region)
  note t = alloc_region_maps_span [OF demo_manager_ok demo_hyps a]
  have u: "in_userspace 0x5123" and i: "(0x4000 :: vaddr) \<le> 0x5123 \<and> (0x5123 :: vaddr) < 0x6000"
    by (simp_all add: in_userspace_iff)
  obtain bk as where "\<forall>x. in_userspace x \<longrightarrow> (if 0x4000 \<le> x \<and> x < 0x6000
         then occupant (mgr_map demo_manager) x = None \<and> mgr_resolve demo_machine demo_manager x = Some None \<and>
           occupant (mgr_map mgr') x =
             Some (active_region 0x4000 0x6000 (Backed (UniqueRegion bk)) (d_kind demo_desc) (d_flags demo_desc)) \<and>
           mgr_resolve s' mgr' x = Some (Some (as ! ((unat x - unat (0x4000 :: vaddr)) div 4096))) \<and>
           mgr_page_flags s' mgr' x = Some (Some (d_flags demo_desc))
         else occupant (mgr_map mgr') x = occupant (mgr_map demo_manager) x \<and>
           mgr_resolve s' mgr' x = mgr_resolve demo_machine demo_manager x \<and>
           mgr_page_flags s' mgr' x = mgr_page_flags demo_machine demo_manager x)"
    using t by blast
  from this [rule_format, OF u] have "mgr_page_flags s' mgr' 0x5123 = Some (Some (d_flags demo_desc))"
    unfolding if_P [OF i] by blast
  then have "mgr_page_flags s' mgr' 0x5123 = Some (Some rw_flags)" by (simp add: demo_desc_def)
  then show ?thesis using a t by blast
qed

lemma unmap_pages_list:
  assumes "\<forall>i < unat (mr_page_count rg). vaddr_add at (of_nat i * to_byte_size (mr_page_size rg)) = Some (f i)"
  shows "unmap_pages root at rg m = for_loop (\<lambda>v m. unmap m root v) (map f [0..<unat (mr_page_count rg)]) m"
proof -
  have "for_loop (\<lambda>i m. do { v \<leftarrow> vaddr_add at (of_nat i * to_byte_size (mr_page_size rg)); unmap m root v }) is m =
      for_loop (\<lambda>v m. unmap m root v) (map f is) m" if "\<forall>i \<in> set is. i < unat (mr_page_count rg)" for "is" m
    using that
  proof (induction "is" arbitrary: m)
    case (Cons i "is")
    then show ?case using assms by (cases "unmap m root (f i)") auto
  qed simp
  then show ?thesis by (simp add: unmap_pages_def)
qed

text \<open>
  C26. Releasing the region just allocated undoes the allocation: \<^const>\<open>dealloc_region\<close> does not panic,
  returns the region with its backing memory, frees no page by itself, and every user address has the
  translation and the region it had before the allocation.
\<close>

theorem alloc_dealloc_region_roundtrip:
  assumes "mgr_ok s mgr" "in_userspace at" "leaf_flags (d_flags d)" "d_size d = Kilopage" "0 < d_count d"
    and "alloc_region time s mgr (Some at) d = Some ((start, stop), s', mgr')"
  shows "\<exists>backing s'' mgr''. dealloc_region s' mgr' at = Some (Backed (UniqueRegion backing), s'', mgr'') \<and>
    ur_n_pages backing = d_count d \<and> mgr_ok s'' mgr'' \<and> pma (phys s'') = pma (phys s') \<and>
    (\<forall>x. in_userspace x \<longrightarrow> occupant (mgr_map mgr'') x = occupant (mgr_map mgr) x \<and>
      mgr_resolve s'' mgr'' x = mgr_resolve s mgr x)"
proof -
  obtain bk as where sp: "length as = unat (d_count d)" "ur_n_pages bk = d_count d" "ur_page_size bk = Kilopage"
    "at < stop" "unat stop = unat at + 4096 * unat (d_count d)" "is_aligned at Kilopage"
    "mgr_table mgr' = mgr_table mgr" "mgr_ok s' mgr'"
    and al: "amap_alloc (mgr_map mgr) at stop (Backed (UniqueRegion bk)) (d_kind d) (d_flags d) = Inr (mgr_map mgr')"
    and pg: "\<forall>i < unat (d_count d). vaddr_add at (of_nat i * to_byte_size Kilopage) = Some (page_at at Kilopage i) \<and>
      unat (page_at at Kilopage i) = unat at + i * 4096"
    and x: "\<forall>x. in_userspace x \<longrightarrow> (if at \<le> x \<and> x < stop
        then entry_of (phys s) (mgr_table mgr) x = Some None \<and>
          (\<exists>e. entry_of (phys s') (mgr_table mgr) x = Some (Some (e, Kilopage))) \<and>
          resolve (phys s') (mgr_table mgr) x = Some (Some (as ! ((unat x - unat at) div 4096))) \<and>
          page_flags (phys s') (mgr_table mgr) x = Some (Some (d_flags d))
        else entry_of (phys s') (mgr_table mgr) x = entry_of (phys s) (mgr_table mgr) x)"
    using alloc_region_spec [OF assms] by blast
  let ?n = "unat (d_count d)" and ?t = "mgr_table mgr" and ?rg = "Backed (UniqueRegion bk)" and ?f = "page_at at Kilopage"
  have ok: "amap_ok 0 0x3FFFFFFFFF (mgr_map mgr)" and ptok: "pt_ok (phys s') ?t"
    using assms(1) sp(7,8) by (simp_all add: mgr_ok_def)
  have t: "tiles 0 0x3FFFFFFFFF (mgr_map mgr)" using ok by (simp add: amap_ok_def)
  have "occupant (mgr_map mgr') at = Some (active_region at stop ?rg (d_kind d) (d_flags d))"
    using amap_alloc_spec(2) [OF t sp(4) al, of at] sp(4) by simp
  then have find: "amap_find (mgr_map mgr') at = Some (active_region at stop ?rg (d_kind d) (d_flags d))"
    by (auto simp: occupant_def split: option.splits if_splits)
  obtain m2 where m2: "amap_free (mgr_map mgr') at stop = Some (Inr (?rg, m2))" "amap_ok 0 0x3FFFFFFFFF m2"
    "occupant m2 = occupant (mgr_map mgr)"
    using amap_alloc_free [OF ok _ sp(4) al] by auto
  have stop: "unat stop = unat at + ?n * 2 ^ page_shift Kilopage" using sp(5) by simp
  have pg1: "\<forall>i < ?n. unat (?f i) = unat at + i * 2 ^ page_shift Kilopage" using pg by simp
  note idx = page_index [OF sp(6) stop pg1]
  have stop_user: "stop \<le> 0x3FFFFFFFFF"
    using tiles_inside [OF amap_alloc_spec(1) [OF t sp(4) al]] find bt_range_from_Some [of "mgr_map mgr'" at]
    by (fastforce simp: amap_find_def active_region_def)
  have in_span: "at \<le> ?f i \<and> ?f i < stop \<and> is_aligned (?f i) Kilopage" if "i < ?n" for i
  proof -
    have "4096 dvd unat at" using sp(6) by (simp add: is_aligned_iff_dvd)
    then have "4096 dvd unat (?f i)" using pg that by simp
    moreover have "unat at + i * 4096 < unat stop" using that sp(5) by simp
    ultimately show ?thesis using pg that by (simp add: is_aligned_iff_dvd word_le_nat_alt word_less_nat_alt)
  qed
  have vs: "\<forall>v \<in> set (map ?f [0..<?n]). in_userspace v \<and> is_aligned v Kilopage \<and>
      (\<exists>e. entry_of (phys s') ?t v = Some (Some (e, Kilopage)))"
  proof -
    have "in_userspace (?f i) \<and> is_aligned (?f i) Kilopage \<and> (\<exists>e. entry_of (phys s') ?t (?f i) = Some (Some (e, Kilopage)))"
      if "i < ?n" for i
    proof -
      have "in_userspace (?f i)" using in_span [OF that] stop_user unfolding in_userspace_iff by (blast intro: less_le_trans)
      then show ?thesis using x in_span [OF that] by auto
    qed
    then show ?thesis by auto
  qed
  have "distinct (map ?f [0..<?n])"
    by (auto simp: distinct_map inj_on_def) (metis pg add_left_cancel mult_cancel2 zero_neq_numeral)
  from unmap_list_spec [OF ptok this vs] obtain p where
    p: "for_loop (\<lambda>v m. unmap m ?t v) (map ?f [0..<?n]) (phys s') = Some p" "pt_ok p ?t" "pma p = pma (phys s')"
    "\<And>a. in_userspace a \<Longrightarrow> entry_of p ?t a =
      (if align_down_to a Kilopage \<in> set (map ?f [0..<?n]) then Some None else entry_of (phys s') ?t a)"
    by auto
  have "unmap_pages ?t at ?rg (phys s') = Some p"
    using unmap_pages_list [of ?rg at ?f ?t "phys s'"] p(1) pg sp(2,3) by (simp add: pr_page_count_def pr_page_size_def)
  then have de: "dealloc_region s' mgr' at = Some (?rg, s'\<lparr>phys := p\<rparr>, mgr'\<lparr>mgr_map := m2\<rparr>)"
    using find m2(1) sp(7) by (simp add: dealloc_region_def active_region_def)
  have "entry_of p ?t a = entry_of (phys s) ?t a" if a: "in_userspace a" for a
  proof -
    have "align_down_to a Kilopage \<in> set (map ?f [0..<?n]) \<longleftrightarrow> at \<le> a \<and> a < stop"
      using idx(1) [of a] idx(2) [of _ a] by auto
    then show ?thesis using p(4) [OF a] x [rule_format, OF a] by (auto split: if_splits)
  qed
  then have "mgr_resolve (s'\<lparr>phys := p\<rparr>) (mgr'\<lparr>mgr_map := m2\<rparr>) a = mgr_resolve s mgr a" if "in_userspace a" for a
    using that by (simp add: mgr_resolve_def resolve_entry_at sp(7))
  then show ?thesis using de sp(2,7) p(2,3) m2(2,3)
    by (intro exI [of _ bk] exI [of _ "s'\<lparr>phys := p\<rparr>"] exI [of _ "mgr'\<lparr>mgr_map := m2\<rparr>"]) (simp add: mgr_ok_def)
qed

theorem alloc_dealloc_region_roundtrip_witness:
  "\<exists>s' mgr' backing s'' mgr''.
    alloc_region (\<lambda>_. 0) demo_machine demo_manager (Some 0x4000) demo_desc = Some ((0x4000, 0x6000), s', mgr') \<and>
    dealloc_region s' mgr' 0x4000 = Some (Backed (UniqueRegion backing), s'', mgr'') \<and> ur_n_pages backing = 2"
proof -
  obtain s' mgr' where a: "alloc_region (\<lambda>_. 0) demo_machine demo_manager (Some 0x4000) demo_desc = Some ((0x4000, 0x6000), s', mgr')"
    by (rule demo_alloc_region)
  have c: "d_count demo_desc = 2" by (simp add: demo_desc_def)
  show ?thesis using a alloc_dealloc_region_roundtrip [OF demo_manager_ok demo_hyps a] unfolding c by blast
qed

section \<open>Checked user ranges\<close>

lemma check_pages_ok:
  "check_pages s mgr f ps = Some (Inr ()) \<longleftrightarrow>
    (\<forall>p \<in> set ps. \<not> is_kernel_region (vaddr_new p) \<and>
      (\<exists>fl. mgr_page_flags s mgr (vaddr_new p) = Some (Some fl) \<and> f fl))"
proof (induction ps)
  case (Cons p ps)
  show ?case
  proof (cases "mgr_page_flags s mgr (vaddr_new p)")
    case (Some r)
    then show ?thesis using Cons by (cases r) (auto simp: Let_def)
  qed (auto simp: Let_def)
qed simp

lemma set_step_pages:
  assumes "is_aligned a Kilopage" "is_aligned b Kilopage"
  shows "p \<in> set (step_pages a b) \<longleftrightarrow> is_aligned p Kilopage \<and> a \<le> p \<and> p < b"
proof (cases "b \<le> a")
  case True
  then show ?thesis by (auto simp: step_pages_def)
next
  case False
  obtain qa where qa: "unat a = 4096 * qa" using assms(1) by (auto simp: is_aligned_iff_dvd dvd_def)
  obtain qb where qb: "unat b = 4096 * qb" using assms(2) by (auto simp: is_aligned_iff_dvd dvd_def)
  have ab: "unat a < unat b" using False by (simp add: word_le_nat_alt)
  have q: "qa < qb" using ab qa qb by simp
  have d: "unat (b - a) = 4096 * (qb - qa)" using False qa qb by (simp add: unat_sub word_le_nat_alt diff_mult_distrib2)
  have len: "(unat (b - a) + 4095) div 4096 = qb - qa" unfolding d by simp
  have b64: "4096 * qb < 2 ^ 64" using qb unat_64_less [of b] by simp
  have el: "unat (a + of_nat i * kib 4) = 4096 * (qa + i)" if "i < qb - qa" for i
  proof -
    have lt: "4096 * (qa + i) < 2 ^ 64" using that q b64 by simp
    have k: "of_nat i * kib 4 = (of_nat (4096 * i) :: usize)" by (simp add: kib_def)
    have u: "unat (of_nat (4096 * i) :: usize) = 4096 * i" by (rule unat_of_nat_64) (use lt in simp)
    show ?thesis unfolding k using unat_add_lem [of a "of_nat (4096 * i)"] u qa lt by simp
  qed
  show ?thesis
  proof
    assume "p \<in> set (step_pages a b)"
    then obtain i where i: "i < qb - qa" "p = a + of_nat i * kib 4" using False len by (auto simp: step_pages_def)
    then have "unat p = 4096 * (qa + i)" using el by simp
    then show "is_aligned p Kilopage \<and> a \<le> p \<and> p < b"
      using i(1) qa qb by (simp add: is_aligned_iff_dvd word_le_nat_alt word_less_nat_alt)
  next
    assume h: "is_aligned p Kilopage \<and> a \<le> p \<and> p < b"
    then obtain qp where qp: "unat p = 4096 * qp" by (auto simp: is_aligned_iff_dvd dvd_def)
    have r: "qa \<le> qp" "qp < qb" using h qa qb qp by (simp_all add: word_le_nat_alt word_less_nat_alt)
    have "p = a + of_nat (qp - qa) * kib 4"
      using el [of "qp - qa"] r qp by (simp add: word_unat_eq_iff)
    moreover have "qp - qa < qb - qa" using r by linarith
    ultimately have "\<exists>i < qb - qa. p = a + of_nat i * kib 4" by blast
    then show "p \<in> set (step_pages a b)" using False len by (auto simp: step_pages_def)
  qed
qed

lemma page_flags_page:
  assumes "in_userspace x"
  shows "mgr_page_flags s mgr x = mgr_page_flags s mgr (align_down_to x Kilopage)"
proof -
  have u: "in_userspace (align_down_to x Kilopage)"
    using align_down_le [of x Kilopage] assms unfolding in_userspace_iff by (rule le_less_trans)
  have "vpns x = vpns (align_down_to x Kilopage)"
    using same_page_user [OF assms u align_down_aligned] by (simp add: same_page_def)
  then show ?thesis by (simp add: mgr_page_flags_def page_flags_entry_at)
qed

lemma vaddr_new_user: "in_userspace x \<Longrightarrow> vaddr_new x = x"
proof -
  assume u: "in_userspace x"
  have "\<not> bit x 38" using userspace_bits [OF u, of 38] by auto
  then have "x AND push_bit 38 1 \<noteq> push_bit 38 1"
    by (auto simp: bit_eq_iff bit_and_iff bit_push_bit_iff bit_1_iff intro!: exI [of _ 38])
  then show ?thesis by (simp add: vaddr_new_def top_most_bit_def shl_def)
qed

lemma user_align_next:
  assumes "in_userspace x"
  shows "unat (align_to_next x Kilopage) = unat (align_down_to x Kilopage) + 4096"
    "is_aligned (align_to_next x Kilopage) Kilopage" "x < align_to_next x Kilopage"
    "is_aligned p Kilopage \<Longrightarrow> p < align_to_next x Kilopage \<Longrightarrow> p \<le> x"
proof -
  let ?d = "align_down_to x Kilopage"
  have le: "unat ?d \<le> unat x" using align_down_le [of x Kilopage] by (simp add: word_le_nat_alt)
  have x: "unat x < 0x3FFFFFFFFF" using assms by (simp add: in_userspace_iff word_less_nat_alt)
  show u: "unat (align_to_next x Kilopage) = unat ?d + 4096"
    unfolding align_to_next_def using unat_add_lem [of ?d "to_byte_size Kilopage"] le x by (simp add: units_def)
  have dv: "4096 dvd unat ?d" using align_down_aligned [of x Kilopage] by (simp add: is_aligned_iff_dvd)
  then show "is_aligned (align_to_next x Kilopage) Kilopage" using u by (simp add: is_aligned_iff_dvd)
  have m: "unat x = unat x div 4096 * 4096 + unat x mod 4096" by (simp only: div_mult_mod_eq)
  have dx: "unat ?d = unat x div 4096 * 4096" by (simp add: unat_align_down)
  have "unat x mod 4096 < 4096" by simp
  then show "x < align_to_next x Kilopage" using u m dx by (simp add: word_less_nat_alt)
  show "p \<le> x" if pa: "is_aligned p Kilopage" and pb: "p < align_to_next x Kilopage"
  proof -
    obtain q where q: "unat p = 4096 * q" using pa by (auto simp: is_aligned_iff_dvd dvd_def)
    have "4096 * q < 4096 * (unat x div 4096 + 1)" using pb u dx q by (simp add: word_less_nat_alt)
    then have "q \<le> unat x div 4096" by simp
    then have "unat p \<le> unat x" using q m by simp
    then show ?thesis by (simp add: word_le_nat_alt)
  qed
qed

lemma is_user_region_valid_iff:
  assumes "in_userspace start" "in_userspace stop" "start \<le> stop"
  shows "is_user_region_valid s mgr (start, stop) f = Some (Inr ()) \<longleftrightarrow>
    (\<forall>x. align_down_to start Kilopage \<le> x \<and> x \<le> stop \<longrightarrow> (\<exists>fl. mgr_page_flags s mgr x = Some (Some fl) \<and> f fl))"
    (is "?l \<longleftrightarrow> ?r")
proof -
  let ?a = "align_down_to start Kilopage" and ?b = "align_to_next stop Kilopage"
  note nx = user_align_next [OF assms(2)]
  have user: "in_userspace x" if "x \<le> stop" for x
    using that assms(2) unfolding in_userspace_iff by (rule le_less_trans)
  have l: "?l \<longleftrightarrow> (\<forall>p. is_aligned p Kilopage \<and> ?a \<le> p \<and> p < ?b \<longrightarrow>
      \<not> is_kernel_region (vaddr_new p) \<and> (\<exists>fl. mgr_page_flags s mgr (vaddr_new p) = Some (Some fl) \<and> f fl))"
    unfolding is_user_region_valid_def check_pages_ok fst_conv snd_conv
    using set_step_pages [OF align_down_aligned nx(2)] by blast
  have l': "?l \<longleftrightarrow> (\<forall>p. is_aligned p Kilopage \<and> ?a \<le> p \<and> p \<le> stop \<longrightarrow> (\<exists>fl. mgr_page_flags s mgr p = Some (Some fl) \<and> f fl))"
    unfolding l using nx(3,4) user vaddr_new_user in_userspace_not_kernel by (smt (verit) le_less_trans)
  show ?thesis
  proof
    assume ?l
    show ?r
    proof (intro allI impI)
      fix x assume x: "?a \<le> x \<and> x \<le> stop"
      have "unat ?a div 4096 * 4096 = unat ?a" using align_down_aligned [of start Kilopage] by (simp add: is_aligned_iff_dvd)
      moreover have "unat ?a div 4096 * 4096 \<le> unat x div 4096 * 4096"
        using x by (intro mult_le_mono1 div_le_mono) (simp add: word_le_nat_alt)
      ultimately have "?a \<le> align_down_to x Kilopage"
        unfolding word_le_nat_alt [of ?a] using unat_align_down [of x Kilopage] by simp
      then have "\<exists>fl. mgr_page_flags s mgr (align_down_to x Kilopage) = Some (Some fl) \<and> f fl"
        using \<open>?l\<close> l' x align_down_aligned align_down_le [of x Kilopage] by (meson order_trans)
      then show "\<exists>fl. mgr_page_flags s mgr x = Some (Some fl) \<and> f fl"
        using page_flags_page [OF user] x by simp
    qed
  next
    assume ?r
    then show ?l unfolding l' by blast
  qed
qed

lemma step_pages_code [code]:
  "step_pages start stop =
     (if stop \<le> start then []
      else map (\<lambda>i. start + of_nat i * kib 4) [0..<Suc (unat ((stop - start - 1) div 4096))])"
proof (cases "stop \<le> start")
  case False
  then have "stop - start \<noteq> 0" by auto
  then have "0 < stop - start" by (simp add: word_gt_0)
  then have p: "unat (stop - start - 1) = unat (stop - start) - 1" by (rule unat_pred)
  have nz: "0 < unat (stop - start)" using \<open>0 < stop - start\<close> by (simp add: word_less_nat_alt)
  have "unat ((stop - start - 1) div 4096) = (unat (stop - start) - 1) div 4096"
    by (simp add: unat_div_distrib p)
  moreover have "(unat (stop - start) + 4095) div 4096 = Suc ((unat (stop - start) - 1) div 4096)" 
  proof -
    obtain k where "unat (stop - start) = Suc k" using nz by (cases "unat (stop - start)") auto
    then show ?thesis by simp
  qed
  ultimately show ?thesis using False by (simp only: step_pages_def if_False)
qed (simp add: step_pages_def)

end
