(* ===== verification/Capability_Space.thy ===== *)
theory Capability_Space
  imports Syscall_Abi Memory_Manager
begin

text \<open>
  Capabilities as the kernel keeps them (\<open>capabilities.rs\<close>): a task's capability space maps capability
  pointers to a resource with rights. A channel is referred to by the number of each of its two queues;
  its ends name the task and the capability on the other side, if known.
\<close>

record Sender =
  snd_chan :: nat
  other_tid :: "tid option"
  other_cptr :: cptr

record UserspaceChannel =
  ch_sender :: Sender
  ch_receiver :: nat

datatype CapabilityResource =
    ChannelCap UserspaceChannel
  | SharedMemory UniquePhysicalRegion "vaddr \<times> vaddr" AddressRegionKind
  | MmioCap "paddr \<times> paddr" "vaddr \<times> vaddr" "usize list"

record Capability =
  cap_resource :: CapabilityResource
  cap_rights :: rights

type_synonym CapabilitySpace = "(cptr, Capability) btree"

datatype CapOccupied = CapOccupied

definition cspace_new :: CapabilitySpace where
  "cspace_new = []"

definition mint_with_id :: "CapabilitySpace \<Rightarrow> cptr \<Rightarrow> Capability \<Rightarrow> CapOccupied + CapabilitySpace" where
  "mint_with_id cs c cap = (if bt_get cs c \<noteq> None then Inl CapOccupied else Inr (bt_insert c cap cs))"

definition next_cptr :: "CapabilitySpace \<Rightarrow> cptr" where
  "next_cptr cs = (case bt_last cs of Some (k, _) \<Rightarrow> k + 1 | None \<Rightarrow> 0)"

definition mint_with :: "CapabilitySpace \<Rightarrow> (cptr \<Rightarrow> Capability) \<Rightarrow> cptr \<times> CapabilitySpace" where
  "mint_with cs f = (let c = next_cptr cs in (c, bt_insert c (f c) cs))"

definition mint :: "CapabilitySpace \<Rightarrow> Capability \<Rightarrow> (cptr \<times> CapabilitySpace) panics" where
  "mint cs cap = do {
     let c = next_cptr cs;
     ensure (bt_get cs c = None);
     Some (c, bt_insert c cap cs)
   }"

definition cap_resolve :: "CapabilitySpace \<Rightarrow> cptr \<Rightarrow> Capability option" where
  "cap_resolve cs c = bt_get cs c"

definition cap_remove :: "CapabilitySpace \<Rightarrow> cptr \<Rightarrow> Capability option \<times> CapabilitySpace" where
  "cap_remove cs c = (bt_get cs c, bt_remove c cs)"

section \<open>Properties\<close>

lemma next_cptr_fresh:
  assumes "bt_ok cs" "bt_get cs usize_max = None"
  shows "bt_get cs (next_cptr cs) = None"
proof (cases "bt_last cs")
  case None
  then show ?thesis using bt.empty_max [OF assms(1)] by (simp add: next_cptr_def)
next
  case (Some kv)
  obtain k v where kv: "bt_last cs = Some (k, v)" using Some by (cases kv) auto
  have "bt_get cs k = Some v" by (rule bt.max_key_get [OF assms(1) kv])
  then have "k \<noteq> - 1" using assms(2) by (auto simp: usize_max_def)
  then have "unat k \<noteq> unat (- 1 :: usize)" by (simp add: word_unat_eq_iff)
  then have "unat k + unat (1 :: usize) < 2 ^ 64"
    using unat_64_less [of k] by (simp add: unsigned_minus_1_eq_mask mask_eq_exp_minus_1)
  then have "unat (k + 1) = unat k + 1" using unat_add_lem [of k 1] by simp
  then have "k < k + 1" by (simp add: word_less_nat_alt)
  then show ?thesis using bt.above_max_fresh [OF assms(1) kv] kv by (simp add: next_cptr_def)
qed

text \<open>
  C30. Minting gives away a fresh capability pointer: unless the largest pointer is taken, \<open>mint\<close> does
  not panic, the pointer it returns named nothing before and names the new capability after, every
  other pointer names what it did, and removing the pointer restores the space.
\<close>

theorem mint_fresh_pointer:
  assumes "bt_ok cs" "cap_resolve cs usize_max = None"
  shows "\<exists>c cs'. mint cs cap = Some (c, cs') \<and> mint_with cs (\<lambda>_. cap) = (c, cs') \<and> bt_ok cs' \<and>
    cap_resolve cs c = None \<and> cap_resolve cs' = (cap_resolve cs)(c \<mapsto> cap) \<and>
    fst (cap_remove cs' c) = Some cap \<and> cap_resolve (snd (cap_remove cs' c)) = cap_resolve cs"
proof -
  let ?c = "next_cptr cs" and ?cs = "bt_insert (next_cptr cs) cap cs"
  have f: "bt_get cs ?c = None" using next_cptr_fresh assms by (simp add: cap_resolve_def)
  have "mint cs cap = Some (?c, ?cs)" "mint_with cs (\<lambda>_. cap) = (?c, ?cs)"
    using f by (simp_all add: mint_def mint_with_def Let_def)
  moreover have "cap_resolve ?cs = (cap_resolve cs)(?c \<mapsto> cap)"
    using bt.get_insert [OF assms(1)] by (simp add: cap_resolve_def fun_eq_iff)
  moreover have "cap_resolve (snd (cap_remove ?cs ?c)) = cap_resolve cs"
    using bt.insert_remove [OF assms(1) f] by (simp add: cap_resolve_def cap_remove_def fun_eq_iff)
  ultimately show ?thesis
    using bt.ok_insert [OF assms(1)] f bt.get_insert [OF assms(1), of ?c cap]
    by (auto simp: cap_remove_def cap_resolve_def)
qed

definition demo_cap :: Capability where
  "demo_cap = \<lparr> cap_resource = MmioCap (0, 0) (0, 0) [], cap_rights = RIGHT_READ \<rparr>"

theorem mint_fresh_pointer_witness:
  "\<exists>c cs'. mint [(0, demo_cap)] demo_cap = Some (c, cs') \<and> cap_resolve [(0, demo_cap)] c = None"
proof -
  have "bt_ok [(0, demo_cap)]" "cap_resolve [(0, demo_cap)] usize_max = None"
    by (simp_all add: bt_ok_def cap_resolve_def bt_get_def usize_max_def)
  from mint_fresh_pointer [OF this, of demo_cap] show ?thesis by blast
qed

text \<open>With the largest pointer in use the next one wraps around to zero, which every task has taken.\<close>

lemma mint_wraps: "mint [(0, demo_cap), (usize_max, demo_cap)] demo_cap = None"
  by code_simp

end
