(* ===== verification/Plic_Driver.thy ===== *)
theory Plic_Driver
  imports Prelude
begin

text \<open>
  The interrupt controller (\<open>drivers/generic/plic.rs\<close>) as its memory-mapped registers, and which context
  belongs to a hart (\<open>platform/mod.rs\<close>). An index beyond a register array panics. Reading the claim
  register returns what the device gives, an argument here; writing it is recorded.
\<close>

record Plic =
  source_priorities :: "nat \<Rightarrow> u32"
  interrupt_pending :: "nat \<Rightarrow> u32"
  interrupt_enable :: "nat \<Rightarrow> nat \<Rightarrow> u32"
  priority_threshold :: "nat \<Rightarrow> u32"
  completed :: "(nat \<times> u32) list"

definition max_priority :: usize where
  "max_priority = 7"

definition current_plic_context :: "usize \<Rightarrow> usize" where
  "current_plic_context hart_id = 1 + 2 * hart_id"

definition plic_context_for :: "usize \<Rightarrow> usize" where
  "plic_context_for hart_id = 1 + 2 * hart_id"

text \<open>The enable bits of one context: 32 registers of 32 bits.\<close>

definition enable_reg :: "(nat \<Rightarrow> u32) \<Rightarrow> usize \<Rightarrow> (nat \<Rightarrow> u32) panics" where
  "enable_reg regs interrupt_id = do {
     let u32_index = unat (interrupt_id div 32);
     let bit_index = unat (interrupt_id mod 32);
     ensure (u32_index < 32);
     Some (regs(u32_index := regs u32_index OR push_bit bit_index 1))
   }"

definition disable_reg :: "(nat \<Rightarrow> u32) \<Rightarrow> usize \<Rightarrow> (nat \<Rightarrow> u32) panics" where
  "disable_reg regs interrupt_id = do {
     let u32_index = unat (interrupt_id div 32);
     let bit_index = unat (interrupt_id mod 32);
     ensure (u32_index < 32);
     Some (regs(u32_index := regs u32_index AND NOT (push_bit bit_index 1)))
   }"

definition enable_interrupt :: "Plic \<Rightarrow> usize \<Rightarrow> usize \<Rightarrow> Plic panics" where
  "enable_interrupt p ctx source = do {
     ensure (ctx < 15872);
     regs \<leftarrow> enable_reg (interrupt_enable p (unat ctx)) source;
     Some (p\<lparr>interrupt_enable := (interrupt_enable p)(unat ctx := regs)\<rparr>)
   }"

definition disable_interrupt :: "Plic \<Rightarrow> usize \<Rightarrow> usize \<Rightarrow> Plic panics" where
  "disable_interrupt p ctx source = do {
     ensure (ctx < 15872);
     regs \<leftarrow> disable_reg (interrupt_enable p (unat ctx)) source;
     Some (p\<lparr>interrupt_enable := (interrupt_enable p)(unat ctx := regs)\<rparr>)
   }"

definition set_interrupt_priority :: "Plic \<Rightarrow> usize \<Rightarrow> usize \<Rightarrow> Plic panics" where
  "set_interrupt_priority p source priority = do {
     let priority = (if priority > max_priority then max_priority else priority);
     ensure (source < 1024);
     Some (p\<lparr>source_priorities := (source_priorities p)(unat source := ucast priority)\<rparr>)
   }"

definition set_context_threshold :: "Plic \<Rightarrow> usize \<Rightarrow> usize \<Rightarrow> Plic panics" where
  "set_context_threshold p ctx threshold = do {
     let threshold = (if threshold > max_priority then max_priority else threshold);
     ensure (ctx < 15872);
     Some (p\<lparr>priority_threshold := (priority_threshold p)(unat ctx := ucast threshold)\<rparr>)
   }"

definition is_pending :: "Plic \<Rightarrow> usize \<Rightarrow> bool panics" where
  "is_pending p interrupt_id = do {
     let u32_index = unat (interrupt_id div 32);
     let bit_index = unat (interrupt_id mod 32);
     ensure (u32_index < 32);
     Some (drop_bit bit_index (interrupt_pending p u32_index) AND 1 = 1)
   }"

text \<open>\<open>register\<close> is the value read from the claim register.\<close>

definition plic_claim :: "u32 \<Rightarrow> Plic \<Rightarrow> usize \<Rightarrow> usize option panics" where
  "plic_claim register p ctx = do {
     ensure (ctx < 15872);
     Some (if register = 0 then None else Some (ucast register))
   }"

definition plic_complete :: "Plic \<Rightarrow> usize \<Rightarrow> usize \<Rightarrow> Plic panics" where
  "plic_complete p ctx interrupt_id = do {
     ensure (ctx < 15872);
     Some (p\<lparr>completed := completed p @ [(unat ctx, ucast interrupt_id)]\<rparr>)
   }"

definition plic_init :: "Plic \<Rightarrow> usize \<Rightarrow> usize list \<Rightarrow> Plic panics" where
  "plic_init p max_interrupts contexts = do {
     p1 \<leftarrow> for_loop (\<lambda>i p. do { ensure (i < 1024); Some (p\<lparr>source_priorities := (source_priorities p)(i := 0)\<rparr>) })
             [1..<unat max_interrupts] p;
     for_loop (\<lambda>ctx p. do {
         p2 \<leftarrow> for_loop (\<lambda>i p. disable_interrupt p ctx (of_nat i)) [0..<unat max_interrupts] p;
         ensure (ctx < 15872);
         Some (p2\<lparr>priority_threshold := (priority_threshold p2)(unat ctx := 0)\<rparr>)
       }) contexts p1
   }"

section \<open>Enabled interrupts\<close>

definition enabled :: "Plic \<Rightarrow> usize \<Rightarrow> usize \<Rightarrow> bool" where
  "enabled p ctx i \<longleftrightarrow> bit (interrupt_enable p (unat ctx) (unat (i div 32))) (unat (i mod 32))"

lemma id_split: "i div 32 = j div 32 \<Longrightarrow> i mod 32 = j mod 32 \<Longrightarrow> i = (j :: usize)"
  by (metis div_mult_mod_eq)

lemma id_parts:
  fixes i :: usize
  shows "i < 1024 \<longleftrightarrow> unat (i div 32) < 32" "unat (i mod 32) < 32"
proof -
  have "unat i < 1024 \<longleftrightarrow> unat i div 32 < 32" by auto
  then show "i < 1024 \<longleftrightarrow> unat (i div 32) < 32" by (simp add: word_less_nat_alt unat_div_distrib)
  show "unat (i mod 32) < 32" by (simp add: unat_mod_distrib)
qed

lemma enable_interrupt_enabled:
  assumes "ctx < 15872" "source < 1024"
  shows "\<exists>p'. enable_interrupt p ctx source = Some p' \<and>
    (\<forall>c i. enabled p' c i \<longleftrightarrow> enabled p c i \<or> c = ctx \<and> i = source) \<and>
    source_priorities p' = source_priorities p \<and> priority_threshold p' = priority_threshold p"
proof -
  let ?w = "unat (source div 32)" and ?b = "unat (source mod 32)"
  let ?regs = "(interrupt_enable p (unat ctx))(?w := interrupt_enable p (unat ctx) ?w OR push_bit ?b 1)"
  let ?p = "p\<lparr>interrupt_enable := (interrupt_enable p)(unat ctx := ?regs)\<rparr>"
  have e: "enable_interrupt p ctx source = Some ?p"
    using assms id_parts(1) [of source] by (simp add: enable_interrupt_def enable_reg_def Let_def)
  have "enabled ?p c i \<longleftrightarrow> enabled p c i \<or> c = ctx \<and> i = source" for c i
  proof (cases "c = ctx \<and> i div 32 = source div 32")
    case True
    have "unat (i mod 32) = ?b \<longleftrightarrow> i = source" using True id_split [of i source] by (auto simp: word_unat_eq_iff [symmetric])
    then show ?thesis using True id_parts(2) [of source] id_parts(2) [of i]
      by (auto simp: enabled_def bit_or_iff bit_exp_iff)
  next
    case False
    then have "i = source \<Longrightarrow> c \<noteq> ctx" by auto
    then show ?thesis using False by (auto simp: enabled_def word_unat_eq_iff [symmetric])
  qed
  then show ?thesis using e by auto
qed

lemma disable_interrupt_disabled:
  assumes "ctx < 15872" "source < 1024"
  shows "\<exists>p'. disable_interrupt p ctx source = Some p' \<and>
    (\<forall>c i. enabled p' c i \<longleftrightarrow> enabled p c i \<and> \<not> (c = ctx \<and> i = source)) \<and>
    source_priorities p' = source_priorities p \<and> priority_threshold p' = priority_threshold p"
proof -
  let ?w = "unat (source div 32)" and ?b = "unat (source mod 32)"
  let ?regs = "(interrupt_enable p (unat ctx))(?w := interrupt_enable p (unat ctx) ?w AND NOT (push_bit ?b 1))"
  let ?p = "p\<lparr>interrupt_enable := (interrupt_enable p)(unat ctx := ?regs)\<rparr>"
  have e: "disable_interrupt p ctx source = Some ?p"
    using assms id_parts(1) [of source] by (simp add: disable_interrupt_def disable_reg_def Let_def)
  have "enabled ?p c i \<longleftrightarrow> enabled p c i \<and> \<not> (c = ctx \<and> i = source)" for c i
  proof (cases "c = ctx \<and> i div 32 = source div 32")
    case True
    have "unat (i mod 32) = ?b \<longleftrightarrow> i = source" using True id_split [of i source] by (auto simp: word_unat_eq_iff [symmetric])
    then show ?thesis using True id_parts(2) [of source] id_parts(2) [of i]
      by (auto simp: enabled_def bit_and_iff bit_not_iff bit_exp_iff)
  next
    case False
    then have "i = source \<Longrightarrow> c \<noteq> ctx" by auto
    then show ?thesis using False by (auto simp: enabled_def word_unat_eq_iff [symmetric])
  qed
  then show ?thesis using e by auto
qed

end
