(* ===== verification/Heap_Free_List.thy ===== *)
theory Heap_Free_List
  imports Page_Table
begin

text \<open>
  The kernel heap (\<open>mem/heap/free_list.rs\<close>): a linked list of free blocks, each headed by a node with
  its size and the next free block. The nodes in memory are a function from addresses; a null pointer
  is the address 0. The walk along the list is a loop that ends only when the list does.
\<close>

section \<open>Nodes\<close>

record FreeListNode =
  node_next :: "vaddr option"
  node_size :: usize

record FreeList =
  head :: "vaddr option"
  nodes :: "vaddr \<Rightarrow> FreeListNode"

definition struct_size :: usize where
  "struct_size = 16"

definition align_to_usize :: "usize \<Rightarrow> usize" where
  "align_to_usize n = (n + 8 - 1) AND NOT (8 - 1)"

definition node_data :: "vaddr \<Rightarrow> vaddr" where
  "node_data a = a + struct_size"

text \<open>\<open>NonNull::new(p).unwrap()\<close>.\<close>

definition non_null :: "vaddr \<Rightarrow> vaddr panics" where
  "non_null p = (if p = 0 then panic else Some p)"

definition node_split :: "(vaddr \<Rightarrow> FreeListNode) \<Rightarrow> vaddr \<Rightarrow> usize \<Rightarrow> (vaddr \<times> (vaddr \<Rightarrow> FreeListNode)) panics" where
  "node_split N self new_size = do {
     ensure (node_size (N self) > new_size + struct_size);
     let new_size = align_to_usize new_size;
     let other_size = node_size (N self) - new_size - struct_size;
     let N1 = N(self := (N self)\<lparr>node_size := new_size\<rparr>);
     let next_node = self + (struct_size + node_size (N1 self));
     let taken = node_next (N1 self);
     let N2 = N1(self := (N1 self)\<lparr>node_next := None\<rparr>);
     let N3 = N2(next_node := \<lparr> node_next = taken, node_size = other_size \<rparr>);
     p \<leftarrow> non_null next_node;
     Some (p, N3)
   }"

section \<open>The allocator\<close>

definition heap_new :: "(vaddr \<Rightarrow> FreeListNode) \<Rightarrow> FreeList" where
  "heap_new N = \<lparr> head = None, nodes = N \<rparr>"

definition heap_init :: "usize \<Rightarrow> BitmapAllocator \<Rightarrow> FreeList \<Rightarrow> usize \<Rightarrow> ((vaddr \<times> vaddr) \<times> FreeList \<times> BitmapAllocator) panics" where
  "heap_init physical_offset b h sz = do {
     up \<leftarrow> round_up_to_next sz (kib 4);
     let n = up div kib 4;
     (r, b') \<leftarrow> alloc_contiguous b Kilopage n;
     p \<leftarrow> r;
     origin \<leftarrow> phys2virt physical_offset p;
     hd \<leftarrow> non_null origin;
     let h' = h\<lparr>head := Some hd, nodes := (nodes h)(hd := \<lparr> node_next = None, node_size = sz - struct_size \<rparr>)\<rparr>;
     up' \<leftarrow> round_up_to_next sz (kib 4);
     Some ((origin, origin + up'), h', b')
   }"

definition enough_for_split :: "usize \<Rightarrow> usize \<Rightarrow> bool" where
  "enough_for_split avail sz \<longleftrightarrow> avail \<ge> sz + struct_size + 8"

text \<open>A block that fits: taken whole, or split.\<close>

definition heap_take :: "usize \<Rightarrow> FreeList \<Rightarrow> vaddr option \<Rightarrow> vaddr \<Rightarrow> (vaddr \<times> FreeList) panics" where
  "heap_take sz h prev_node node =
     (if \<not> enough_for_split (node_size (nodes h node)) sz then
        (case prev_node of
           Some p \<Rightarrow>
             Some (node_data node, h\<lparr>nodes := (nodes h)(p := (nodes h p)\<lparr>node_next := node_next (nodes h node)\<rparr>)\<rparr>)
         | None \<Rightarrow> do {
             nx \<leftarrow> node_next (nodes h node);
             Some (node_data node, h\<lparr>head := Some nx\<rparr>)
           })
      else do {
        (new_node, N) \<leftarrow> node_split (nodes h) node sz;
        (case prev_node of
           Some p \<Rightarrow> Some (node_data node, h\<lparr>nodes := N(p := (N p)\<lparr>node_next := Some new_node\<rparr>)\<rparr>)
         | None \<Rightarrow> Some (node_data node, h\<lparr>head := Some new_node, nodes := N\<rparr>))
      })"

partial_function (option) heap_walk :: "usize \<Rightarrow> FreeList \<Rightarrow> vaddr option \<Rightarrow> vaddr \<Rightarrow> (vaddr \<times> FreeList) option" where
  "heap_walk sz h prev_node node =
     (if node_size (nodes h node) \<ge> sz then heap_take sz h prev_node node
      else (case node_next (nodes h node) of
              Some next \<Rightarrow> heap_walk sz h (Some node) next
            | None \<Rightarrow> Some (0, h)))"

definition heap_alloc :: "FreeList \<Rightarrow> usize \<Rightarrow> usize \<Rightarrow> (vaddr \<times> FreeList) panics" where
  "heap_alloc h layout_size layout_align = do {
     let sz = align_to_usize layout_size;
     ensure (\<not> layout_align > 8);
     hd \<leftarrow> head h;
     heap_walk sz h None hd
   }"

definition heap_dealloc :: "FreeList \<Rightarrow> vaddr \<Rightarrow> FreeList panics" where
  "heap_dealloc h ptr = do {
     ensure (ptr \<noteq> 0);
     let node = ptr - struct_size;
     Some (h\<lparr>head := Some node, nodes := (nodes h)(node := (nodes h node)\<lparr>node_next := head h\<rparr>)\<rparr>)
   }"

section \<open>Blocks\<close>

text \<open>The nodes of the free list, in order.\<close>

fun chain :: "(vaddr \<Rightarrow> FreeListNode) \<Rightarrow> vaddr option \<Rightarrow> vaddr list \<Rightarrow> bool" where
  "chain N p [] \<longleftrightarrow> p = None"
| "chain N p (a # as) \<longleftrightarrow> p = Some a \<and> chain N (node_next (N a)) as"

text \<open>The addresses a block covers, its header included.\<close>

definition extent :: "(vaddr \<Rightarrow> FreeListNode) \<Rightarrow> vaddr \<Rightarrow> nat set" where
  "extent N a = {unat a..<unat a + 16 + unat (node_size (N a))}"

definition block_ok :: "nat \<Rightarrow> nat \<Rightarrow> (vaddr \<Rightarrow> FreeListNode) \<Rightarrow> vaddr \<Rightarrow> bool" where
  "block_ok lo hi N a \<longleftrightarrow> lo \<le> unat a \<and> unat a + 16 + unat (node_size (N a)) \<le> hi \<and>
     8 dvd unat a \<and> 8 dvd unat (node_size (N a))"

text \<open>
  The heap between \<open>lo\<close> and \<open>hi\<close> with free blocks \<open>fs\<close>, in the order of the list, and blocks \<open>used\<close>
  handed out: the blocks are aligned, inside the heap and pairwise disjoint.
\<close>

definition heap_ok :: "nat \<Rightarrow> nat \<Rightarrow> FreeList \<Rightarrow> vaddr list \<Rightarrow> vaddr set \<Rightarrow> bool" where
  "heap_ok lo hi h fs used \<longleftrightarrow> 0 < lo \<and> hi < 2 ^ 64 \<and> chain (nodes h) (head h) fs \<and> distinct fs \<and>
     set fs \<inter> used = {} \<and> (\<forall>a \<in> set fs \<union> used. block_ok lo hi (nodes h) a) \<and>
     (\<forall>a \<in> set fs \<union> used. \<forall>b \<in> set fs \<union> used. a \<noteq> b \<longrightarrow> extent (nodes h) a \<inter> extent (nodes h) b = {})"

lemma align_to_usize_nat:
  assumes "unat n < 2 ^ 63"
  shows "unat (align_to_usize n) = (unat n + 7) div 8 * 8"
proof -
  have u: "unat (n + 7) = unat n + 7" using unat_add_lem [of n 7] assms by simp
  have m: "(8 - 1 :: usize) = mask 3" by (simp add: mask_eq_exp_minus_1)
  have e: "n + 8 - 1 = n + 7" by simp
  have "align_to_usize n = (n + 7) AND NOT (mask 3)" unfolding align_to_usize_def e m ..
  then show ?thesis using unat_and_not_mask [of "n + 7" 3] u by simp
qed

lemma chain_cong: "(\<And>a. a \<in> set xs \<Longrightarrow> node_next (N a) = node_next (N' a)) \<Longrightarrow> chain N p xs = chain N' p xs"
  by (induction xs arbitrary: p) auto

lemma chain_suffix:
  "chain N p (pre @ xs) \<Longrightarrow> chain N (if pre = [] then p else node_next (N (last pre))) xs"
  by (induction pre arbitrary: p) (auto split: if_splits)

lemma chain_replace_tail:
  assumes "chain N p (pre @ xs)" "pre \<noteq> []" "distinct pre" "chain N' (node_next (N' (last pre))) ys"
    and "\<forall>b \<in> set pre. b \<noteq> last pre \<longrightarrow> node_next (N' b) = node_next (N b)"
  shows "chain N' p (pre @ ys)"
  using assms
proof (induction pre arbitrary: p)
  case (Cons a pre)
  show ?case
  proof (cases "pre = []")
    case False
    then have "a \<noteq> last pre" using Cons.prems(3) by auto
    then have "node_next (N' a) = node_next (N a)" using Cons.prems(5) False by simp
    then show ?thesis using Cons False by simp
  qed (use Cons.prems in simp)
qed simp

lemma chain_set_last:
  assumes "chain N p (pre @ xs)" "pre \<noteq> []" "distinct pre" "last pre \<notin> set ys" "chain N q ys"
  shows "chain (N(last pre := (N (last pre))\<lparr>node_next := q\<rparr>)) p (pre @ ys)"
proof (rule chain_replace_tail [OF assms(1-3)])
  have "chain (N(last pre := (N (last pre))\<lparr>node_next := q\<rparr>)) q ys = chain N q ys"
    using assms(4) by (intro chain_cong) auto
  then show "chain (N(last pre := (N (last pre))\<lparr>node_next := q\<rparr>))
      (node_next ((N(last pre := (N (last pre))\<lparr>node_next := q\<rparr>)) (last pre))) ys" using assms(5) by simp
qed auto

lemma extent_start: "unat a \<in> extent N a"
  by (simp add: extent_def)

lemma extent_cong: "node_size (N a) = node_size (N' a) \<Longrightarrow> extent N a = extent N' a"
  by (simp add: extent_def)

lemma block_ok_cong: "node_size (N a) = node_size (N' a) \<Longrightarrow> block_ok lo hi N a = block_ok lo hi N' a"
  by (simp add: block_ok_def)

text \<open>Only the list changed: the blocks are the same, one of them now used.\<close>

lemma heap_ok_take:
  assumes ok: "heap_ok lo hi h (pre @ node # rest) used"
    and c: "chain (nodes h') (head h') (pre @ rest)" and sz: "\<And>a. node_size (nodes h' a) = node_size (nodes h a)"
  shows "heap_ok lo hi h' (pre @ rest) (insert node used)"
proof -
  have B: "set (pre @ rest) \<union> insert node used = set (pre @ node # rest) \<union> used" by auto
  show ?thesis using ok c unfolding heap_ok_def B
    by (auto simp: extent_def block_ok_def sz)
qed

text \<open>A block split in two, the first half used.\<close>

lemma heap_ok_split:
  assumes ok: "heap_ok lo hi h (pre @ node # rest) used"
    and new: "unat new = unat node + 16 + unat s" "unat s + 16 + unat t = unat (node_size (nodes h node))"
    and dv: "8 dvd unat s"
    and c: "chain (nodes h') (head h') (pre @ new # rest)"
    and sz: "\<And>a. node_size (nodes h' a) = (if a = new then t else if a = node then s else node_size (nodes h a))"
  shows "heap_ok lo hi h' (pre @ new # rest) (insert node used)" "new \<notin> set (pre @ node # rest) \<union> used"
proof -
  let ?B = "set (pre @ node # rest) \<union> used"
  have dis: "\<And>a b. a \<in> ?B \<Longrightarrow> b \<in> ?B \<Longrightarrow> a \<noteq> b \<Longrightarrow> extent (nodes h) a \<inter> extent (nodes h) b = {}"
    and bok: "\<And>a. a \<in> ?B \<Longrightarrow> block_ok lo hi (nodes h) a"
    using ok unfolding heap_ok_def by blast+
  have nn: "node \<noteq> new" using new by auto
  have en: "unat new \<in> extent (nodes h) node" using new by (simp add: extent_def)
  show fresh: "new \<notin> ?B"
    using dis [of new node] en extent_start [of new "nodes h"] nn by auto
  have sub: "extent (nodes h') node \<subseteq> extent (nodes h) node" "extent (nodes h') new \<subseteq> extent (nodes h) node"
    "extent (nodes h') node \<inter> extent (nodes h') new = {}"
    using new nn by (auto simp: extent_def sz)
  have same: "extent (nodes h') a = extent (nodes h) a" "block_ok lo hi (nodes h') a = block_ok lo hi (nodes h) a"
    if "a \<in> ?B" "a \<noteq> node" for a
    using that fresh by (auto simp: extent_def block_ok_def sz)
  have bn: "block_ok lo hi (nodes h) node" using bok by simp
  have dt: "8 dvd unat t"
  proof -
    have "unat t = unat (node_size (nodes h node)) - (unat s + 16)" using new(2) by simp
    then show ?thesis using bn dv by (simp add: block_ok_def)
  qed
  have b2: "block_ok lo hi (nodes h') node" "block_ok lo hi (nodes h') new"
    using bn new dv dt nn by (auto simp: block_ok_def sz)
  have B: "set (pre @ new # rest) \<union> insert node used = insert new ?B" by auto
  have "extent (nodes h') a \<inter> extent (nodes h') b = {}" if "a \<in> insert new ?B" "b \<in> insert new ?B" "a \<noteq> b" for a b
  proof -
    have other: "extent (nodes h') node \<inter> extent (nodes h') c = {}" "extent (nodes h') new \<inter> extent (nodes h') c = {}"
      if "c \<in> ?B" "c \<noteq> node" for c
      using dis [of node c] sub same [OF that] that by auto
    consider "a = node" "b = new" | "a = new" "b = node" | "a = node \<or> a = new" "b \<noteq> node" "b \<noteq> new"
      | "b = node \<or> b = new" "a \<noteq> node" "a \<noteq> new" | "a \<noteq> node" "a \<noteq> new" "b \<noteq> node" "b \<noteq> new"
      using \<open>a \<noteq> b\<close> by blast
    then show ?thesis
    proof cases
      case 1
      then show ?thesis using sub(3) by simp
    next
      case 2
      then show ?thesis using sub(3) by (simp add: Int_commute)
    next
      case 3
      then have "b \<in> ?B" using that(2) by simp
      from other [OF this 3(2)] 3(1) show ?thesis by (elim disjE) simp_all
    next
      case 4
      then have "a \<in> ?B" using that(1) by simp
      from other [OF this 4(2)] 4(1) show ?thesis by (elim disjE) (simp_all add: Int_commute)
    next
      case 5
      then have "a \<in> ?B" "b \<in> ?B" using that by simp_all
      then show ?thesis using dis [of a b] that(3) same(1) 5 by simp
    qed
  qed
  moreover have "block_ok lo hi (nodes h') a" if "a \<in> insert new ?B" for a
    using that b2 same bok by (cases "a = node \<or> a = new") auto
  moreover have "distinct (pre @ new # rest)" "set (pre @ new # rest) \<inter> insert node used = {}"
    using ok fresh nn unfolding heap_ok_def by auto
  ultimately show "heap_ok lo hi h' (pre @ new # rest) (insert node used)"
    using ok c unfolding heap_ok_def B by blast
qed


section \<open>Taking a block\<close>

lemma heap_chain: "heap_ok lo hi h (pre @ node # rest) used \<Longrightarrow> chain (nodes h) (node_next (nodes h node)) rest"
  using chain_suffix [of "nodes h" "head h" pre "node # rest"] by (simp add: heap_ok_def)

lemma chain_None: "chain N None xs \<longleftrightarrow> xs = []"
  by (cases xs) auto

lemma chain_head: "chain N (Some a) xs \<Longrightarrow> \<exists>ys. xs = a # ys"
  by (cases xs) auto

lemma split_nat:
  assumes "enough_for_split s sz" "8 dvd unat sz" "unat sz < 2 ^ 63"
  shows "unat sz + 24 \<le> unat s" "sz + struct_size < s" "align_to_usize sz = sz"
    "unat (s - sz - struct_size) = unat s - unat sz - 16"
proof -
  have e: "sz + struct_size + 8 = sz + 24" by (simp add: struct_size_def)
  have u: "unat (sz + struct_size + 8) = unat sz + 24"
    unfolding e using assms(3) unat_add_lem [of sz 24] by simp
  show le: "unat sz + 24 \<le> unat s" using assms(1) u by (simp add: enough_for_split_def word_le_nat_alt)
  have u2: "unat (sz + struct_size) = unat sz + 16" using assms(3) unat_add_lem [of sz 16] by (simp add: struct_size_def)
  show "sz + struct_size < s" using le u2 by (simp add: word_less_nat_alt)
  obtain q where q: "unat sz = 8 * q" using assms(2) by (auto simp: dvd_def)
  have "unat (align_to_usize sz) = unat sz" unfolding align_to_usize_nat [OF assms(3)] q by simp
  then show "align_to_usize sz = sz" by (simp add: word_unat_eq_iff)
  have d: "s - sz - struct_size = s - (sz + struct_size)" by simp
  have "sz + struct_size \<le> s" using le u2 by (simp add: word_le_nat_alt)
  from unat_sub [OF this] show "unat (s - sz - struct_size) = unat s - unat sz - 16" unfolding d u2 by simp
qed

lemma node_split_spec:
  assumes e: "enough_for_split (node_size (N a)) sz" and sz: "8 dvd unat sz" "unat sz < 2 ^ 63"
    and a: "unat a + 16 + unat (node_size (N a)) < 2 ^ 64"
  defines "new \<equiv> a + (struct_size + sz)"
  shows "unat new = unat a + 16 + unat sz" "new \<noteq> a"
    "node_split N a sz = Some (new, N(a := \<lparr> node_next = None, node_size = sz \<rparr>,
       new := \<lparr> node_next = node_next (N a), node_size = node_size (N a) - sz - struct_size \<rparr>))"
proof -
  note sp = split_nat [OF e sz]
  have u: "unat (struct_size + sz) = 16 + unat sz" using sz(2) unat_add_lem [of 16 sz] by (simp add: struct_size_def)
  show un: "unat new = unat a + 16 + unat sz"
    unfolding new_def using unat_add_lem [of a "struct_size + sz"] u a sp(1) by simp
  then show "new \<noteq> a" by auto
  moreover have "new \<noteq> 0" using un by auto
  ultimately show "node_split N a sz = Some (new, N(a := \<lparr> node_next = None, node_size = sz \<rparr>,
       new := \<lparr> node_next = node_next (N a), node_size = node_size (N a) - sz - struct_size \<rparr>))"
    using sp(2,3) by (cases "N a") (simp add: node_split_def new_def [symmetric] non_null_def Let_def)
qed

definition prev_of :: "vaddr list \<Rightarrow> vaddr option" where
  "prev_of pre = (if pre = [] then None else Some (last pre))"

definition after_take :: "nat \<Rightarrow> nat \<Rightarrow> usize \<Rightarrow> FreeList \<Rightarrow> vaddr set \<Rightarrow> vaddr \<Rightarrow> FreeList \<Rightarrow> bool" where
  "after_take lo hi sz h used a h' \<longleftrightarrow> (\<exists>fs'. heap_ok lo hi h' fs' (insert a used)) \<and>
     sz \<le> node_size (nodes h' a) \<and> (\<forall>b \<in> used. node_size (nodes h' b) = node_size (nodes h b))"

lemma heap_take_whole:
  assumes ok: "heap_ok lo hi h (pre @ node # rest) used" and sz: "sz \<le> node_size (nodes h node)"
    and e: "\<not> enough_for_split (node_size (nodes h node)) sz"
  shows "if pre = [] \<and> rest = [] then heap_take sz h (prev_of pre) node = None
    else \<exists>h'. heap_take sz h (prev_of pre) node = Some (node_data node, h') \<and> after_take lo hi sz h used node h'"
proof (cases "pre = []")
  case True
  note c = heap_chain [OF ok]
  show ?thesis
  proof (cases "node_next (nodes h node)")
    case None
    then have "rest = []" using c by (simp add: chain_None)
    then show ?thesis using True None e by (simp add: heap_take_def prev_of_def)
  next
    case (Some nx)
    then obtain r where r: "rest = nx # r" using c chain_head by fastforce
    have "heap_ok lo hi (h\<lparr>head := Some nx\<rparr>) (pre @ rest) (insert node used)"
      by (rule heap_ok_take [OF ok]) (use c Some True in simp_all)
    then show ?thesis using True Some e r sz by (auto simp: heap_take_def prev_of_def after_take_def)
  qed
next
  case False
  let ?h = "h\<lparr>nodes := (nodes h)(last pre := (nodes h (last pre))\<lparr>node_next := node_next (nodes h node)\<rparr>)\<rparr>"
  have d: "chain (nodes h) (head h) (pre @ node # rest)" "distinct (pre @ node # rest)" using ok by (simp_all add: heap_ok_def)
  have "last pre \<notin> set rest" using d(2) last_in_set [OF False] by auto
  then have "chain (nodes ?h) (head ?h) (pre @ rest)"
    using chain_set_last [OF d(1) False _ _ heap_chain [OF ok]] d(2) by simp
  then have "heap_ok lo hi ?h (pre @ rest) (insert node used)" by (rule heap_ok_take [OF ok]) auto
  then have "after_take lo hi sz h used node ?h" using sz by (auto simp: after_take_def)
  then show ?thesis using False e by (simp add: heap_take_def prev_of_def)
qed

lemma heap_take_split:
  assumes ok: "heap_ok lo hi h (pre @ node # rest) used" and sz: "8 dvd unat sz" "unat sz < 2 ^ 63"
    and e: "enough_for_split (node_size (nodes h node)) sz"
  shows "\<exists>h'. heap_take sz h (prev_of pre) node = Some (node_data node, h') \<and> after_take lo hi sz h used node h'"
proof -
  let ?N = "nodes h"
  have bo: "block_ok lo hi ?N node" and hi: "hi < 2 ^ 64" using ok by (auto simp: heap_ok_def)
  have a: "unat node + 16 + unat (node_size (?N node)) < 2 ^ 64" using bo hi by (simp add: block_ok_def)
  define new where "new = node + (struct_size + sz)"
  define t where "t = node_size (?N node) - sz - struct_size"
  define N' where "N' = ?N(node := \<lparr> node_next = None, node_size = sz \<rparr>, new := \<lparr> node_next = node_next (?N node), node_size = t \<rparr>)"
  note ns = node_split_spec [of ?N node sz, OF e sz a, folded new_def, folded t_def N'_def]
  note sn = split_nat [OF e sz]
  have nt: "unat sz + 16 + unat t = unat (node_size (?N node))" using sn(1,4) by (simp add: t_def)
  have d: "chain ?N (head h) (pre @ node # rest)" "distinct (pre @ node # rest)" using ok by (simp_all add: heap_ok_def)
  define h' where "h' = (if pre = [] then h\<lparr>head := Some new, nodes := N'\<rparr>
    else h\<lparr>nodes := N'(last pre := (N' (last pre))\<lparr>node_next := Some new\<rparr>)\<rparr>)"
  have take: "heap_take sz h (prev_of pre) node = Some (node_data node, h')"
    using e ns(3) by (simp add: heap_take_def prev_of_def h'_def)
  have size: "node_size (nodes h' b) = (if b = new then t else if b = node then sz else node_size (?N b))" for b
    using ns(2) by (auto simp: h'_def N'_def)
  have fresh: "new \<notin> set (pre @ node # rest)"
  proof -
    have "unat new \<in> extent ?N node" using ns(1) nt by (simp add: extent_def)
    then have ne: "extent ?N new \<inter> extent ?N node \<noteq> {}" using extent_start [of new ?N] by blast
    show ?thesis
    proof
      assume "new \<in> set (pre @ node # rest)"
      then have "extent ?N new \<inter> extent ?N node = {}" using ok ns(2) unfolding heap_ok_def by auto
      with ne show False ..
    qed
  qed
  have cr: "chain N' (Some new) (new # rest)"
  proof -
    have "chain N' (node_next (?N node)) rest = chain ?N (node_next (?N node)) rest"
      using fresh d(2) by (intro chain_cong) (auto simp: N'_def)
    then show ?thesis using heap_chain [OF ok] by (simp add: N'_def)
  qed
  have c: "chain (nodes h') (head h') (pre @ new # rest)"
  proof (cases "pre = []")
    case True
    then show ?thesis using cr by (simp add: h'_def)
  next
    case False
    have lp: "last pre \<in> set pre" using False by simp
    then have l: "last pre \<notin> set (new # rest)" using d(2) fresh by auto
    have dp: "distinct pre" using d(2) by simp
    show ?thesis
    proof (rule chain_replace_tail [OF _ False dp])
      show "chain ?N (head h') (pre @ node # rest)" using d(1) False by (simp add: h'_def)
      have "chain (nodes h') (Some new) (new # rest) = chain N' (Some new) (new # rest)"
        by (rule chain_cong) (use l False in \<open>auto simp: h'_def\<close>)
      then show "chain (nodes h') (node_next (nodes h' (last pre))) (new # rest)" using cr False by (simp add: h'_def)
      show "\<forall>b \<in> set pre. b \<noteq> last pre \<longrightarrow> node_next (nodes h' b) = node_next (?N b)"
        using False fresh d(2) by (auto simp: h'_def N'_def)
    qed
  qed
  have "heap_ok lo hi h' (pre @ new # rest) (insert node used)"
    and fr: "new \<notin> set (pre @ node # rest) \<union> used"
    using heap_ok_split [OF ok ns(1) nt sz(1) c size] by auto
  moreover have "\<forall>b \<in> used. node_size (nodes h' b) = node_size (?N b)"
    using fr ok size by (auto simp: heap_ok_def)
  moreover have "sz \<le> node_size (nodes h' node)" using size ns(2) by simp
  ultimately show ?thesis using take unfolding after_take_def by blast
qed

section \<open>Properties\<close>

lemma heap_walk_spec:
  assumes "heap_ok lo hi h (pre @ node # rest) used"
  shows "heap_walk sz h (prev_of pre) node =
    (case dropWhile (\<lambda>a. node_size (nodes h a) < sz) (node # rest) of
       [] \<Rightarrow> Some (0, h)
     | a # _ \<Rightarrow> heap_take sz h (prev_of (pre @ takeWhile (\<lambda>a. node_size (nodes h a) < sz) (node # rest))) a)"
  using assms
proof (induction rest arbitrary: pre node)
  case Nil
  then have "node_next (nodes h node) = None" using heap_chain [OF Nil] by simp
  then show ?case
    by (cases "node_size (nodes h node) < sz") (auto simp: heap_walk.simps [of sz h "prev_of pre" node])
next
  case (Cons nx rest)
  have n: "node_next (nodes h node) = Some nx" using heap_chain [OF Cons.prems] by simp
  have "heap_ok lo hi h ((pre @ [node]) @ nx # rest) used" using Cons.prems by simp
  note IH = Cons.IH [OF this]
  let ?P = "\<lambda>a. node_size (nodes h a) < sz"
  show ?case
  proof (cases "?P node")
    case True
    have tw: "pre @ takeWhile ?P (node # nx # rest) = (pre @ [node]) @ takeWhile ?P (nx # rest)"
      and dw: "dropWhile ?P (node # nx # rest) = dropWhile ?P (nx # rest)" using True by simp_all
    have p: "prev_of (pre @ [node]) = Some node" by (simp add: prev_of_def)
    have "heap_walk sz h (prev_of pre) node = heap_walk sz h (Some node) nx"
      using True n by (subst heap_walk.simps) auto
    then show ?thesis using IH unfolding tw dw p by simp
  next
    case False
    have tw: "takeWhile ?P (node # nx # rest) = []" and dw: "dropWhile ?P (node # nx # rest) = node # nx # rest"
      using False by simp_all
    have "sz \<le> node_size (nodes h node)" using False by simp
    then have "heap_walk sz h (prev_of pre) node = heap_take sz h (prev_of pre) node"
      by (subst heap_walk.simps) simp
    then show ?thesis unfolding tw dw by simp
  qed
qed

lemma dropWhile_split:
  assumes "dropWhile P xs = a # ys"
  shows "xs = takeWhile P xs @ a # ys" "\<not> P a" "a \<in> set xs"
  using takeWhile_dropWhile_id [of P xs] assms hd_dropWhile [of P xs]
  by (metis, metis list.distinct(1) list.sel(1), metis in_set_conv_decomp)

lemma node_data_nat:
  assumes "block_ok lo hi N a" "hi < 2 ^ 64"
  shows "unat (node_data a) = unat a + 16" "node_data a \<noteq> 0"
proof -
  show u: "unat (node_data a) = unat a + 16"
    using assms unat_add_lem [of a 16] by (simp add: block_ok_def node_data_def struct_size_def)
  then show "node_data a \<noteq> 0" by auto
qed

text \<open>
  C13. What the kernel's heap allocator does on every path: with a well-formed heap whose free list is not
  empty, \<open>alloc\<close> returns null, changing nothing, exactly when no free block is large enough. Otherwise
  it returns an 8-byte aligned address in a free block, the bytes asked for overlap no block already
  handed out, the heap stays well formed with that block now used, and the sizes recorded for the
  others are kept. The only panic left is a perfect fit in the very last free block. The heap may lie anywhere in the
  address space (the kernel's lies in its upper half), and the size is one a \<open>Layout\<close> with an alignment of 8 can have.
\<close>

theorem heap_alloc_disjoint:
  assumes ok: "heap_ok lo hi h fs used" and fs: "fs \<noteq> []"
    and sz: "unat layout_size \<le> 2 ^ 63 - 8" and al: "layout_align \<le> 8"
  shows "case heap_alloc h layout_size layout_align of
      None \<Rightarrow> (\<exists>a. fs = [a] \<and> align_to_usize layout_size \<le> node_size (nodes h a) \<and>
        \<not> enough_for_split (node_size (nodes h a)) (align_to_usize layout_size))
    | Some (p, h') \<Rightarrow>
        if p = 0 then h' = h \<and> (\<forall>a \<in> set fs. node_size (nodes h a) < align_to_usize layout_size)
        else (\<exists>a fs'. a \<in> set fs \<and> p = node_data a \<and> 8 dvd unat p \<and> heap_ok lo hi h' fs' (insert a used) \<and>
          layout_size \<le> node_size (nodes h' a) \<and>
          (\<forall>b \<in> used. {unat p..<unat p + unat layout_size} \<inter> extent (nodes h) b = {} \<and>
            node_size (nodes h' b) = node_size (nodes h b)))"
proof -
  define s where "s = align_to_usize layout_size"
  have us: "unat s = (unat layout_size + 7) div 8 * 8" unfolding s_def by (rule align_to_usize_nat) (use sz in simp)
  have s: "8 dvd unat s" "unat s < 2 ^ 63" "unat layout_size \<le> unat s" using us sz by simp_all
  have hi: "hi < 2 ^ 64" using ok by (simp add: heap_ok_def)
  obtain node rest where f: "fs = node # rest" using fs by (cases fs) auto
  have hd: "head h = Some node" using ok f by (simp add: heap_ok_def)
  let ?P = "\<lambda>a. node_size (nodes h a) < s"
  have w: "heap_alloc h layout_size layout_align = (case dropWhile ?P fs of
      [] \<Rightarrow> Some (0, h) | a # _ \<Rightarrow> heap_take s h (prev_of (takeWhile ?P fs)) a)"
  proof -
    have p: "prev_of [] = None" by (simp add: prev_of_def)
    have "heap_alloc h layout_size layout_align = heap_walk s h None node"
      using hd al by (simp add: heap_alloc_def s_def [symmetric] not_less)
    then show ?thesis using heap_walk_spec [of lo hi h "[]" node rest used s, unfolded append_Nil p f [symmetric], OF ok] by simp
  qed
  show ?thesis
  proof (cases "dropWhile ?P fs")
    case Nil
    have r: "heap_alloc h layout_size layout_align = Some (0, h)" unfolding w Nil by simp
    have "\<forall>a \<in> set fs. ?P a" using Nil by (simp add: dropWhile_eq_Nil_conv)
    then show ?thesis unfolding r by (simp add: s_def)
  next
    case (Cons a ys)
    note d = dropWhile_split [OF Cons]
    let ?pre = "takeWhile ?P fs"
    have ok': "heap_ok lo hi h (?pre @ a # ys) used" using ok d(1) by simp
    have le: "s \<le> node_size (nodes h a)" using d(2) by simp
    have r: "heap_alloc h layout_size layout_align = heap_take s h (prev_of ?pre) a" unfolding w Cons by simp
    have bo: "block_ok lo hi (nodes h) a" using ok d(3) by (auto simp: heap_ok_def)
    note nd = node_data_nat [OF bo hi]
    have good: ?thesis if t: "heap_take s h (prev_of ?pre) a = Some (node_data a, h')" "after_take lo hi s h used a h'" for h'
    proof -
      obtain fs' where o: "heap_ok lo hi h' fs' (insert a used)" and sz': "s \<le> node_size (nodes h' a)"
        and same: "\<forall>b \<in> used. node_size (nodes h' b) = node_size (nodes h b)"
        using t(2) by (auto simp: after_take_def)
      have sub: "{unat (node_data a)..<unat (node_data a) + unat layout_size} \<subseteq> extent (nodes h) a"
        using nd(1) s(3) le by (auto simp: extent_def word_le_nat_alt)
      have "extent (nodes h) a \<inter> extent (nodes h) b = {}" if "b \<in> used" for b
      proof -
        have "a \<noteq> b" using ok that d(3) by (auto simp: heap_ok_def)
        then show ?thesis using ok that d(3) unfolding heap_ok_def by simp
      qed
      then have "\<forall>b \<in> used. {unat (node_data a)..<unat (node_data a) + unat layout_size} \<inter> extent (nodes h) b = {}"
        using sub by blast
      moreover have "8 dvd unat (node_data a)" using bo nd(1) by (simp add: block_ok_def)
      moreover have "layout_size \<le> node_size (nodes h' a)" using s(3) sz' by (simp add: word_le_nat_alt)
      ultimately show ?thesis using r t(1) nd(2) o d(3) same by auto
    qed
    show ?thesis
    proof (cases "enough_for_split (node_size (nodes h a)) s")
      case True
      then show ?thesis using heap_take_split [OF ok' s(1,2) True] good by blast
    next
      case False
      note wh = heap_take_whole [OF ok' le False]
      show ?thesis
      proof (cases "?pre = [] \<and> ys = []")
        case True
        then show ?thesis using wh r d(1) le False by (auto simp: s_def)
      next
        case False
        then show ?thesis using wh good by (metis (no_types, lifting))
      qed
    qed
  qed
qed

text \<open>A heap of 256 bytes at \<open>0xFFFFFFC000001000\<close>, all free.\<close>

definition demo_heap :: FreeList where
  "demo_heap = \<lparr> head = Some 0xFFFFFFC000001000, nodes = (\<lambda>_. \<lparr> node_next = None, node_size = 240 \<rparr>) \<rparr>"

lemma demo_heap_ok: "heap_ok 0xFFFFFFC000001000 0xFFFFFFC000001100 demo_heap [0xFFFFFFC000001000] {}"
  by (simp add: heap_ok_def demo_heap_def block_ok_def)

theorem heap_alloc_disjoint_witness:
  "\<exists>h'. heap_alloc demo_heap 20 8 = Some (0xFFFFFFC000001010, h') \<and>
    (\<exists>a fs'. a \<in> set [0xFFFFFFC000001000] \<and> 0xFFFFFFC000001010 = node_data a \<and> heap_ok 0xFFFFFFC000001000 0xFFFFFFC000001100 h' fs' {a})"
proof -
  have w: "heap_walk 24 demo_heap None 0xFFFFFFC000001000 = heap_take 24 demo_heap None 0xFFFFFFC000001000"
    by (simp add: heap_walk.simps [of 24 demo_heap None "0xFFFFFFC000001000"]) (simp add: demo_heap_def)
  have "map_option fst (heap_take 24 demo_heap None 0xFFFFFFC000001000) = Some 0xFFFFFFC000001010" by code_simp
  moreover have "heap_alloc demo_heap 20 8 = heap_take 24 demo_heap None 0xFFFFFFC000001000"
    using w by (simp add: heap_alloc_def demo_heap_def align_to_usize_def)
  ultimately obtain h' where a: "heap_alloc demo_heap 20 8 = Some (0xFFFFFFC000001010, h')" by auto
  then show ?thesis using heap_alloc_disjoint [OF demo_heap_ok, of 20 8] by auto
qed

text \<open>
  \<open>dealloc\<close> of a block that was handed out never panics, makes exactly that block free again, at the
  front of the list, and keeps the heap well formed.
\<close>

theorem heap_dealloc_frees:
  assumes ok: "heap_ok lo hi h fs used" and a: "a \<in> used"
  shows "\<exists>h'. heap_dealloc h (node_data a) = Some h' \<and> heap_ok lo hi h' (a # fs) (used - {a}) \<and>
    (\<forall>b. node_size (nodes h' b) = node_size (nodes h b))"
proof -
  let ?h = "h\<lparr>head := Some a, nodes := (nodes h)(a := (nodes h a)\<lparr>node_next := head h\<rparr>)\<rparr>"
  have bo: "block_ok lo hi (nodes h) a" and hi: "hi < 2 ^ 64" using ok a by (auto simp: heap_ok_def)
  have e: "heap_dealloc h (node_data a) = Some ?h"
    using node_data_nat(2) [OF bo hi] by (simp add: heap_dealloc_def node_data_def)
  have nf: "a \<notin> set fs" using ok a by (auto simp: heap_ok_def)
  have B: "set (a # fs) \<union> (used - {a}) = set fs \<union> used" using a by auto
  have "chain (nodes ?h) (head h) fs = chain (nodes h) (head h) fs" using nf by (intro chain_cong) auto
  then have "chain (nodes ?h) (head ?h) (a # fs)" using ok by (simp add: heap_ok_def)
  moreover have sz: "node_size (nodes ?h b) = node_size (nodes h b)" for b by simp
  ultimately have "heap_ok lo hi ?h (a # fs) (used - {a})"
    using ok nf unfolding heap_ok_def B by (auto simp: extent_def block_ok_def)
  then show ?thesis using e sz by blast
qed

theorem heap_dealloc_frees_witness:
  "\<exists>h'. heap_dealloc (demo_heap\<lparr>head := None\<rparr>) (node_data 0xFFFFFFC000001000) = Some h' \<and> heap_ok 0xFFFFFFC000001000 0xFFFFFFC000001100 h' [0xFFFFFFC000001000] {}"
proof -
  have "heap_ok 0xFFFFFFC000001000 0xFFFFFFC000001100 (demo_heap\<lparr>head := None\<rparr>) [] {0xFFFFFFC000001000}"
    by (simp add: heap_ok_def demo_heap_def block_ok_def)
  from heap_dealloc_frees [OF this, of "0xFFFFFFC000001000"] show ?thesis by auto
qed

text \<open>A perfect fit in the last free block panics: the head is replaced by the block after it, and there is none.\<close>

lemma heap_last_block_panics: "heap_alloc demo_heap 240 8 = None"
proof -
  have "heap_walk 240 demo_heap None 0xFFFFFFC000001000 = heap_take 240 demo_heap None 0xFFFFFFC000001000"
    by (simp add: heap_walk.simps [of 240 demo_heap None "0xFFFFFFC000001000"]) (simp add: demo_heap_def)
  then show ?thesis
    by (simp add: heap_alloc_def demo_heap_def align_to_usize_def heap_take_def enough_for_split_def struct_size_def)
qed

text \<open>\<open>init\<close> gives a heap of one free block.\<close>

lemma heap_init_ok:
  assumes "heap_init off b h sz = Some ((origin, stop), h', b')"
    and "16 \<le> sz" "8 dvd unat sz" "8 dvd unat origin" "unat origin + unat sz < 2 ^ 64"
  shows "heap_ok (unat origin) (unat origin + unat sz) h' [origin] {}"
proof -
  have h': "h' = h\<lparr>head := Some origin, nodes := (nodes h)(origin := \<lparr> node_next = None, node_size = sz - struct_size \<rparr>)\<rparr>"
    and nz: "origin \<noteq> 0"
    using assms(1) by (auto simp: heap_init_def bind_eq_Some_conv non_null_def split: if_splits)
  have "unat (sz - struct_size) = unat sz - 16" using assms(2) by (simp add: unat_sub struct_size_def word_le_nat_alt)
  then show ?thesis using assms(2-5) nz
    by (simp add: heap_ok_def h' block_ok_def unat_gt_0 word_le_nat_alt)
qed

section \<open>Kernel stacks and the kernel image\<close>

text \<open>\<open>mem/mod.rs\<close>: a stack is a contiguous run, used from its end; the kernel image is mapped at a fixed offset.\<close>

definition alloc_kernel_stack :: "usize \<Rightarrow> BitmapAllocator \<Rightarrow> usize \<Rightarrow> (vaddr \<times> BitmapAllocator) panics" where
  "alloc_kernel_stack physical_offset b sz = do {
     ensure (is_power_of_two sz);
     ensure (sz mod 4096 = 0);
     let total_pages = sz div 4096;
     (r, b') \<leftarrow> alloc_contiguous b Kilopage total_pages;
     phys_start \<leftarrow> r;
     top \<leftarrow> paddr_offset phys_start (total_pages * 4096);
     v \<leftarrow> phys2virt physical_offset top;
     Some (v, b')
   }"

definition kernel_section_p2v :: "usize \<Rightarrow> usize \<Rightarrow> paddr \<Rightarrow> vaddr panics" where
  "kernel_section_p2v phys_offset page_offset phys = do {
     ensure (phys_offset \<noteq> 0);
     Some (vaddr_new (phys - phys_offset + page_offset))
   }"

definition kernel_section_v2p :: "usize \<Rightarrow> usize \<Rightarrow> vaddr \<Rightarrow> paddr panics" where
  "kernel_section_v2p phys_offset page_offset virt = do {
     ensure (phys_offset \<noteq> 0);
     Some (virt - page_offset + phys_offset)
   }"

lemma kernel_stack_run:
  assumes inv: "bm_inv b" and sz: "sz \<le> 0x40000"
    and a: "alloc_kernel_stack off b sz = Some (v, b')"
  shows "\<exists>k. run_allocated b b' k (unat sz div 4096) \<and> unat (page_addr b k) + unat sz < 2 ^ 64 \<and>
    phys2virt off (page_addr b k + sz) = Some v"
proof -
  let ?n = "sz div 4096"
  obtain p top where al: "alloc_contiguous b Kilopage ?n = Some (Some p, b')" and m: "sz mod 4096 = 0"
    and top: "checked_add p (?n * 4096) = Some top" and v: "phys2virt off top = Some v"
    using a by (auto simp: alloc_kernel_stack_def paddr_offset_def Let_def bind_eq_Some_conv)
  have un: "unat ?n = unat sz div 4096" by (simp add: unat_div_distrib)
  have "unat sz \<le> 0x40000" using sz by (simp add: word_le_nat_alt)
  then have n64: "unat ?n \<le> 64" unfolding un by simp
  have e: "alloc_contiguous b Kilopage ?n = alloc_contig_4k_intra_pages b (unat ?n)"
    using n64 by (simp add: alloc_contiguous_def word_le_nat_alt)
  have run: "\<exists>k. p = page_addr b k \<and> run_allocated b b' k (unat ?n)"
  proof (cases "unat ?n < 64")
    case True
    show ?thesis using alloc_intra_small [OF inv True] al unfolding e by auto
  next
    case False
    then have 64: "unat ?n = 64" using n64 by simp
    show ?thesis using alloc_intra_64 [OF inv] al unfolding e 64 by auto
  qed
  have s: "?n * 4096 = sz"
  proof -
    have "sz = sz div 4096 * 4096 + sz mod 4096" by (simp only: div_mult_mod_eq)
    then show ?thesis using m by simp
  qed
  obtain k where k: "p = page_addr b k" "run_allocated b b' k (unat ?n)" using run by blast
  have "unat p + unat sz < 2 ^ 64" using top unat_64_less [of top] unfolding s checked_add_Some_iff by linarith
  then show ?thesis using k top v un unfolding s checked_add_Some_iff by auto
qed

lemma kernel_section_roundtrip:
  assumes "po \<noteq> 0" "vaddr_new (p - po + pg) = p - po + pg"
  shows "Option.bind (kernel_section_p2v po pg p) (kernel_section_v2p po pg) = Some p"
  using assms by (simp add: kernel_section_p2v_def kernel_section_v2p_def)

end
