(* ===== verification/Kernel_State.thy ===== *)
theory Kernel_State
  imports Capability_Space Plic_Driver Heap_Free_List
begin

text \<open>
  The state of the running kernel: its tasks (\<open>task.rs\<close>), the queues of its channels
  (\<open>syscall/channel.rs\<close>), the run queues of its harts (\<open>scheduler/mod.rs\<close>), the registered interrupt
  handlers (\<open>interrupts/isr.rs\<close>), and the memory they share. An \<open>Arc\<close> of a task is its identifier, an \<open>Arc\<close>
  of a message queue its number; the strong counts of shared memory regions are \<open>arcs\<close>. A lock is held
  for the whole of an operation of the model, so operations are atomic. Of the registers of a hart, the
  kernel's state has those a context switch saves (\<open>hart_context\<close>), \<open>satp\<close>, \<open>sscratch\<close>, \<open>gp\<close>, \<open>tp\<close> and the
  timer; of the kernel stacks it has the trap frames at their tops.
\<close>

section \<open>Tasks\<close>

datatype TaskState = Blocked | Dead | Ready | Running

definition is_dead :: "TaskState \<Rightarrow> bool" where
  "is_dead st \<longleftrightarrow> st = Dead"

record VmspaceObject =
  vo_memory_manager :: UserspaceMemoryManager
  vo_inprocess_mappings :: "vaddr list"
  vo_cspace :: CapabilitySpace

record MutableState =
  memory_manager :: UserspaceMemoryManager
  vmspace_objects :: "(usize, VmspaceObject) btree"
  vmspace_next_id :: usize
  cspace :: CapabilitySpace
  kernel_channel :: UserspaceChannel
  claimed_interrupts :: "(usize, usize) btree"
  subscribes_to_events :: bool
  run_state :: TaskState

record Context =
  ctx_ra :: usize
  ctx_sp :: usize
  ctx_sx :: "usize list"

record Task =
  task_tid :: tid
  task_name :: "u8 list"
  task_kernel_stack :: vaddr
  task_context :: Context
  mutable_state :: MutableState

text \<open>What a trap finds behind \<open>sscratch\<close>: the kernel stack of the running task and the hart's pointers.\<close>

record Sscratch =
  kernel_stack_top :: vaddr
  kernel_thread_local :: usize
  kernel_global_ptr :: usize
  scratch_sp :: usize

definition sscratch_new :: Sscratch where
  "sscratch_new = \<lparr> kernel_stack_top = 0, kernel_thread_local = 0, kernel_global_ptr = 0, scratch_sp = 0 \<rparr>"

section \<open>Channels\<close>

record ChannelMessage =
  msg_data :: "usize list"
  msg_caps :: "Capability list"

record Chan =
  chan_queue :: "ChannelMessage list"
  chan_alive :: bool
  chan_waiters :: "tid list"

section \<open>The run queues\<close>

record TaskMetadata =
  md_priority :: u16
  md_run_time :: u64
  md_last_scheduled_at :: u64
  md_run_state :: TaskState

definition metadata_new :: TaskMetadata where
  "metadata_new = \<lparr> md_priority = 1, md_run_time = 0, md_last_scheduled_at = 0, md_run_state = Ready \<rparr>"

record RoundRobinPolicy =
  rr_tasks :: "tid list"
  rr_idle_tid :: tid

definition policy_new :: RoundRobinPolicy where
  "policy_new = \<lparr> rr_tasks = [], rr_idle_tid = usize_max \<rparr>"

record SchedulerInner =
  sc_policy :: RoundRobinPolicy
  sc_run_queue :: "(tid, TaskMetadata) btree"

definition scheduler_inner_new :: SchedulerInner where
  "scheduler_inner_new = \<lparr> sc_policy = policy_new, sc_run_queue = [] \<rparr>"

section \<open>Address spaces\<close>

datatype SatpMode = Bare | Sv39 | Sv48 | Sv57 | Sv64

fun satp_mode_value :: "SatpMode \<Rightarrow> usize" where
  "satp_mode_value Bare = 0"
| "satp_mode_value Sv39 = 8"
| "satp_mode_value Sv48 = 9"
| "satp_mode_value Sv57 = 10"
| "satp_mode_value Sv64 = 11"

record Satp =
  satp_mode :: SatpMode
  satp_asid :: u16
  satp_root :: paddr

definition satp_as_usize :: "Satp \<Rightarrow> usize" where
  "satp_as_usize v = shl (satp_mode_value (satp_mode v)) 60 OR shl (ucast (satp_asid v)) 44 OR paddr_ppn (satp_root v)"

definition satp_decode :: "usize \<Rightarrow> Satp panics" where
  "satp_decode value = do {
     let asid = (ucast (shr value 44 AND 0xFFFF) :: u16);
     let root = shl (value AND (shl 1 44 - 1)) 12;
     mode \<leftarrow> (if shr value 60 = 0 then Some Bare
              else if shr value 60 = 8 then Some Sv39
              else if shr value 60 = 9 then Some Sv48
              else panic);
     Some \<lparr> satp_mode = mode, satp_asid = asid, satp_root = root \<rparr>
   }"

section \<open>The kernel\<close>

record Kernel =
  machine :: Machine
  arcs :: "UniquePhysicalRegion \<Rightarrow> nat"
  task_list :: "(tid, Task) btree"
  next_id :: usize
  chans :: "nat \<Rightarrow> Chan"
  next_chan :: nat
  n_cpus :: nat
  harts :: "nat \<Rightarrow> SchedulerInner"
  current_task :: "nat \<Rightarrow> tid option"
  satp_of :: "nat \<Rightarrow> usize"
  hart_context :: "nat \<Rightarrow> Context"
  hart_sscratch :: "nat \<Rightarrow> Sscratch"
  hart_gp :: "nat \<Rightarrow> usize"
  hart_tp :: "nat \<Rightarrow> usize"
  timer_at :: "nat \<Rightarrow> u64"
  timer_freq :: u64
  trap_frames :: "vaddr \<Rightarrow> TrapFrame"
  return_to_usermode_addr :: usize
  isr_registry :: "nat \<Rightarrow> tid option"
  the_plic :: "Plic option"
  claimed_devices :: "(u8 list \<times> tid) list"
  console :: "u8 list"

definition get_task :: "Kernel \<Rightarrow> tid \<Rightarrow> Task option" where
  "get_task k t = bt_get (task_list k) t"

definition set_task :: "Kernel \<Rightarrow> tid \<Rightarrow> Task \<Rightarrow> Kernel" where
  "set_task k t task = k\<lparr>task_list := bt_insert t task (task_list k)\<rparr>"

text \<open>Writing through the lock of a task's mutable state; a task that is gone has no state to write.\<close>

definition modify_state :: "Kernel \<Rightarrow> tid \<Rightarrow> (MutableState \<Rightarrow> MutableState) \<Rightarrow> Kernel" where
  "modify_state k t f =
     (case get_task k t of
        Some task \<Rightarrow> set_task k t (task\<lparr>mutable_state := f (mutable_state task)\<rparr>)
      | None \<Rightarrow> k)"

definition get_state :: "Kernel \<Rightarrow> tid \<Rightarrow> MutableState option" where
  "get_state k t = map_option mutable_state (get_task k t)"

text \<open>The table a new address space copies the kernel's half from: that of the hart's \<open>satp\<close>.\<close>

definition active_root :: "Kernel \<Rightarrow> nat \<Rightarrow> paddr panics" where
  "active_root k hart = do { s \<leftarrow> satp_decode (satp_of k hart); Some (satp_root s) }"

text \<open>\<open>sbi::timer::set_timer\<close>, 10 ms from the reading \<open>now\<close> of the clock.\<close>

definition set_timer :: "Kernel \<Rightarrow> nat \<Rightarrow> u64 \<Rightarrow> Kernel" where
  "set_timer k hart now = k\<lparr>timer_at := (timer_at k)(hart := now + ticks_per_us 10000 (timer_freq k))\<rparr>"

definition set_chan :: "Kernel \<Rightarrow> nat \<Rightarrow> Chan \<Rightarrow> Kernel" where
  "set_chan k c ch = k\<lparr>chans := (chans k)(c := ch)\<rparr>"

definition chan_new :: Chan where
  "chan_new = \<lparr> chan_queue = [], chan_alive = True, chan_waiters = [] \<rparr>"

text \<open>\<open>UserspaceChannel::new\<close>: two queues, each with its sender in one end and its receiver in the other.\<close>

definition userspace_channel_new :: "Kernel \<Rightarrow> (UserspaceChannel \<times> UserspaceChannel) \<times> Kernel" where
  "userspace_channel_new k =
     (let c1 = next_chan k; c2 = next_chan k + 1;
          k' = set_chan (set_chan k c1 chan_new) c2 chan_new;
          sender1 = \<lparr> snd_chan = c1, other_tid = None, other_cptr = usize_max \<rparr>;
          sender2 = \<lparr> snd_chan = c2, other_tid = None, other_cptr = usize_max \<rparr>
      in ((\<lparr> ch_sender = sender1, ch_receiver = c2 \<rparr>, \<lparr> ch_sender = sender2, ch_receiver = c1 \<rparr>),
          k'\<lparr>next_chan := next_chan k + 2\<rparr>))"

section \<open>Interrupt handlers\<close>

definition ISR_LIMIT :: nat where
  "ISR_LIMIT = 128"

text \<open>Every handler the kernel registers notifies one task; the registry holds that task.\<close>

definition register_isr :: "Kernel \<Rightarrow> usize \<Rightarrow> tid \<Rightarrow> Kernel panics" where
  "register_isr k interrupt_id t = do {
     ensure (unat interrupt_id < ISR_LIMIT);
     Some (k\<lparr>isr_registry := (isr_registry k)(unat interrupt_id := Some t)\<rparr>)
   }"

text \<open>
  The guard of the \<open>read()\<close> in the scrutinee lives until the end of the \<open>match\<close>, so the \<open>write()\<close> inside it
  waits for ever: a registered handler is never removed.
\<close>

definition unregister_isr :: "Kernel \<Rightarrow> usize \<Rightarrow> (bool \<times> Kernel) panics" where
  "unregister_isr k interrupt_id = do {
     ensure (unat interrupt_id < ISR_LIMIT);
     if isr_registry k (unat interrupt_id) \<noteq> None then panic else Some (False, k)
   }"

section \<open>Shared regions\<close>

definition arc_new :: "Kernel \<Rightarrow> UniquePhysicalRegion \<Rightarrow> Kernel" where
  "arc_new k r = k\<lparr>arcs := (arcs k)(r := 1)\<rparr>"

definition arc_clone :: "Kernel \<Rightarrow> UniquePhysicalRegion \<Rightarrow> Kernel" where
  "arc_clone k r = k\<lparr>arcs := (arcs k)(r := arcs k r + 1)\<rparr>"

definition set_pma :: "Kernel \<Rightarrow> BitmapAllocator \<Rightarrow> Kernel" where
  "set_pma k b = k\<lparr>machine := (machine k)\<lparr>phys := (phys (machine k))\<lparr>pma := b\<rparr>\<rparr>\<rparr>"

definition arc_drop :: "Kernel \<Rightarrow> UniquePhysicalRegion \<Rightarrow> Kernel panics" where
  "arc_drop k r = do {
     b \<leftarrow> physical_region_drop (arcs k r) (pma (phys (machine k))) (SharedRegion r);
     Some (set_pma (k\<lparr>arcs := (arcs k)(r := arcs k r - 1)\<rparr>) b)
   }"

fun drop_memory_region :: "Kernel \<Rightarrow> MemoryRegion \<Rightarrow> Kernel panics" where
  "drop_memory_region k (Backed (SharedRegion r)) = arc_drop k r"
| "drop_memory_region k (Backed (UniqueRegion r)) =
     (case region_drop (pma (phys (machine k))) r of Some b \<Rightarrow> Some (set_pma k b) | None \<Rightarrow> panic)"
| "drop_memory_region k (LazyRegion _ _) = Some k"
| "drop_memory_region k GuardPage = Some k"

text \<open>Dropping a capability: a channel's ends have nothing left to do, a shared region loses a handle.\<close>

fun drop_resource :: "Kernel \<Rightarrow> CapabilityResource \<Rightarrow> Kernel panics" where
  "drop_resource k (ChannelCap _) = Some k"
| "drop_resource k (SharedMemory r _ _) = arc_drop k r"
| "drop_resource k (MmioCap _ _ _) = Some k"

fun clone_resource :: "Kernel \<Rightarrow> CapabilityResource \<Rightarrow> Kernel" where
  "clone_resource k (ChannelCap _) = k"
| "clone_resource k (SharedMemory r _ _) = arc_clone k r"
| "clone_resource k (MmioCap _ _ _) = k"

lemma get_set_task: "bt_ok (task_list k) \<Longrightarrow> get_task (set_task k t task) = (get_task k)(t \<mapsto> task)"
  by (simp add: get_task_def set_task_def fun_eq_iff bt.get_insert)

lemma set_task_ok: "bt_ok (task_list k) \<Longrightarrow> bt_ok (task_list (set_task k t task))"
  by (simp add: set_task_def bt.ok_insert)

lemma get_modify_state:
  assumes "bt_ok (task_list k)"
  shows "get_state (modify_state k t f) = (\<lambda>u. if u = t then map_option f (get_state k t) else get_state k u)"
    "bt_ok (task_list (modify_state k t f))"
proof -
  show "get_state (modify_state k t f) = (\<lambda>u. if u = t then map_option f (get_state k t) else get_state k u)"
    using get_set_task [OF assms] by (auto simp: modify_state_def get_state_def fun_eq_iff split: option.splits)
  show "bt_ok (task_list (modify_state k t f))"
    using assms set_task_ok by (auto simp: modify_state_def split: option.splits)
qed

end
