(* ===== verification/Task.thy ===== *)
theory Task
  imports Kernel_State
begin

text \<open>
  Building tasks (\<open>task.rs\<close>): the init task from its binary, the flattened device tree and its arguments,
  and the idle task of a hart. \<open>time i\<close> gives the clock readings of the search for a free region of the
  \<open>i\<close>-th allocation.
\<close>

definition user_flags :: "flags \<Rightarrow> flags" where
  "user_flags fl = flags_bitor (flags_bitor FLAG_USER fl) FLAG_VALID"

definition rwx :: flags where
  "rwx = flags_bitor (flags_bitor FLAG_READ FLAG_WRITE) FLAG_EXECUTE"

definition rw :: flags where
  "rw = flags_bitor FLAG_READ FLAG_WRITE"

definition pages_for :: "usize \<Rightarrow> usize panics" where
  "pages_for len = do { up \<leftarrow> round_up_to_next len (kib 4); Some (up div kib 4) }"

definition ne_bytes :: "usize \<Rightarrow> u8 list" where
  "ne_bytes v = map (\<lambda>i. ucast (shr v (8 * i)) :: u8) [0..<8]"

definition TRAP_FRAME_SIZE :: usize where
  "TRAP_FRAME_SIZE = 256"

text \<open>The pointers and lengths of the arguments, which are stored one after the other from \<open>ptr\<close>.\<close>

fun arg_pointers :: "vaddr \<Rightarrow> u8 list list \<Rightarrow> (u8 list) panics" where
  "arg_pointers ptr [] = Some []"
| "arg_pointers ptr (s # args) = do {
     next \<leftarrow> vaddr_add ptr (of_nat (length s));
     rest \<leftarrow> arg_pointers next args;
     Some (ne_bytes ptr @ ne_bytes (of_nat (length s)) @ rest)
   }"

definition load_args ::
  "(nat \<Rightarrow> nat \<Rightarrow> usize) \<Rightarrow> Machine \<Rightarrow> UserspaceMemoryManager \<Rightarrow> u8 list list \<Rightarrow>
   ((usize \<times> usize) \<times> Machine \<times> UserspaceMemoryManager) panics" where
  "load_args time s mgr args =
     (if args = [] then Some ((0, 0), s, mgr)
      else do {
        n1 \<leftarrow> pages_for (of_nat (length (concat args)));
        (storage, s1, mgr1) \<leftarrow> alloc_guarded_region (time 0) s mgr
          \<lparr> d_size = Kilopage, d_count = n1, d_contiguous = False, d_flags = user_flags FLAG_READ,
            d_fill = FillData (concat args), d_kind = Kind_ReadOnly \<rparr>;
        ptr_list \<leftarrow> arg_pointers storage args;
        n2 \<leftarrow> pages_for (of_nat (length args) * 16);
        (ptrs, s2, mgr2) \<leftarrow> alloc_guarded_region (time 1) s1 mgr1
          \<lparr> d_size = Kilopage, d_count = n2, d_contiguous = False, d_flags = user_flags FLAG_READ,
            d_fill = FillData ptr_list, d_kind = Kind_ReadOnly \<rparr>;
        Some ((of_nat (length args), ptrs), s2, mgr2)
      })"

text \<open>The channel between the kernel and a task, whose end for the task is its first capability.\<close>

definition with_kernel_channel :: "Kernel \<Rightarrow> CapabilitySpace \<Rightarrow> (UserspaceChannel \<times> CapabilitySpace \<times> Kernel) panics" where
  "with_kernel_channel k cs = do {
     let ((kernel_channel, user_read), k') = userspace_channel_new k;
     cs' \<leftarrow> unwrap (mint_with_id cs KERNEL_CHANNEL
       \<lparr> cap_resource = ChannelCap user_read, cap_rights = RIGHT_READ \<rparr>);
     Some (kernel_channel, cs', k')
   }"

text \<open>A kernel stack with the trap frame from which the task starts, and the context that returns to it.\<close>

definition with_kernel_stack :: "Kernel \<Rightarrow> TrapFrame \<Rightarrow> (vaddr \<times> Context \<times> Kernel) panics" where
  "with_kernel_stack k frame = do {
     (kernel_stack, b) \<leftarrow> alloc_kernel_stack (physical_offset (machine k)) (pma (phys (machine k))) (mib 2);
     let k' = set_pma k b;
     let fp = kernel_stack - TRAP_FRAME_SIZE;
     Some (kernel_stack, \<lparr> ctx_ra = return_to_usermode_addr k, ctx_sp = fp, ctx_sx = replicate 12 0 \<rparr>,
       k'\<lparr>trap_frames := (trap_frames k')(fp := frame)\<rparr>)
   }"

definition new_mutable_state :: "UserspaceMemoryManager \<Rightarrow> CapabilitySpace \<Rightarrow> UserspaceChannel \<Rightarrow> MutableState" where
  "new_mutable_state mgr cs ch =
     \<lparr> memory_manager = mgr, vmspace_objects = [], vmspace_next_id = 0, cspace = cs, kernel_channel = ch,
       claimed_interrupts = [], subscribes_to_events = False, run_state = Ready \<rparr>"

definition INIT_BASE :: vaddr where
  "INIT_BASE = 0xF00D0000"

definition str_init :: "u8 list" where
  "str_init = [105, 110, 105, 116]"

definition str_idle :: "u8 list" where
  "str_idle = [60, 105, 100, 108, 101, 62]"

definition load_init :: "(nat \<Rightarrow> nat \<Rightarrow> usize) \<Rightarrow> Kernel \<Rightarrow> nat \<Rightarrow> u8 list \<Rightarrow> u8 list \<Rightarrow> u8 list list \<Rightarrow> (Task \<times> Kernel) panics" where
  "load_init time k hart fdt bin args = do {
     active \<leftarrow> active_root k hart;
     (mgr0, s0) \<leftarrow> manager_new (machine k) active;
     n_bin \<leftarrow> pages_for (of_nat (length bin));
     (_, s1, mgr1) \<leftarrow> alloc_region (time 0) s0 mgr0 (Some (vaddr_new INIT_BASE))
       \<lparr> d_size = Kilopage, d_count = n_bin, d_contiguous = False, d_flags = user_flags rwx,
         d_fill = FillData bin, d_kind = Kind_Text \<rparr>;
     (stack, s2, mgr2) \<leftarrow> alloc_guarded_region (time 1) s1 mgr1
       \<lparr> d_size = Kilopage, d_count = 128, d_contiguous = False, d_flags = user_flags rw,
         d_fill = Unitialized, d_kind = Kind_Stack \<rparr>;
     sp \<leftarrow> vaddr_add stack (kib 128);
     n_fdt \<leftarrow> pages_for (of_nat (length fdt));
     (fdt_loc, s3, mgr3) \<leftarrow> alloc_region (time 2) s2 mgr2 None
       \<lparr> d_size = Kilopage, d_count = n_fdt, d_contiguous = False, d_flags = user_flags FLAG_READ,
         d_fill = FillData fdt, d_kind = Kind_Data \<rparr>;
     ((a0, a1), s4, mgr4) \<leftarrow> load_args (\<lambda>i. time (3 + i)) s3 mgr3 args;
     (kernel_channel, cs, k1) \<leftarrow> with_kernel_channel (k\<lparr>machine := s4\<rparr>) cspace_new;
     (kernel_stack, ctx, k2) \<leftarrow> with_kernel_stack k1
       \<lparr> sepc = INIT_BASE, registers = default_registers\<lparr>r_sp := sp, r_a0 := a0, r_a1 := a1, r_a2 := fst fdt_loc\<rparr> \<rparr>;
     Some (\<lparr> task_tid = 1, task_name = str_init, task_kernel_stack = kernel_stack, task_context = ctx,
       mutable_state = new_mutable_state mgr4 cs kernel_channel \<rparr>, k2)
   }"

definition idle_code :: "u8 list" where
  "idle_code = [0x0f, 0x00, 0x00, 0x01, 0x6f, 0xf0, 0xdf, 0xff]"

definition task_idle :: "(nat \<Rightarrow> nat \<Rightarrow> usize) \<Rightarrow> Kernel \<Rightarrow> nat \<Rightarrow> (Task \<times> Kernel) panics" where
  "task_idle time k hart = do {
     active \<leftarrow> active_root k hart;
     (mgr0, s0) \<leftarrow> manager_new (machine k) active;
     (_, s1, mgr1) \<leftarrow> alloc_region (time 0) s0 mgr0 (Some (vaddr_new INIT_BASE))
       \<lparr> d_size = Kilopage, d_count = 1, d_contiguous = False, d_flags = user_flags rwx,
         d_fill = FillData idle_code, d_kind = Kind_Text \<rparr>;
     (kernel_stack, ctx, k1) \<leftarrow> with_kernel_stack (k\<lparr>machine := s1\<rparr>)
       \<lparr> sepc = INIT_BASE, registers = default_registers \<rparr>;
     (kernel_channel, cs, k2) \<leftarrow> with_kernel_channel k1 cspace_new;
     Some (\<lparr> task_tid = usize_max, task_name = str_idle, task_kernel_stack = kernel_stack, task_context = ctx,
       mutable_state = new_mutable_state mgr1 cs kernel_channel \<rparr>, k2)
   }"

lemma with_kernel_channel_ok: "\<exists>ch cs' k'. with_kernel_channel k cspace_new = Some (ch, cs', k')"
  by (simp add: with_kernel_channel_def userspace_channel_new_def mint_with_id_def cspace_new_def bt_get_def Let_def)

end
