(* ===== verification/Scheduler.thy ===== *)
theory Scheduler
  imports Task
begin

text \<open>
  Scheduling (\<open>scheduler/mod.rs\<close>, \<open>scheduler/round_robin.rs\<close>, \<open>scheduler/waitqueue.rs\<close>): the round-robin
  policy of a hart, the switch to the task it picks, the list of all tasks, and queues of waiting tasks.
  A switch saves the hart's registers in the context of the task it leaves and loads those of the task it
  enters, whose address space and kernel stack become the hart's.
\<close>

section \<open>The round-robin policy\<close>

fun rr_search :: "nat \<Rightarrow> (tid \<Rightarrow> bool) \<Rightarrow> tid list \<Rightarrow> tid option \<times> tid list" where
  "rr_search 0 ready ts = (None, ts)"
| "rr_search (Suc n) ready ts =
     (let ts' = rotate1 ts in
      if \<not> ready (hd ts') then rr_search n ready ts' else (Some (hd ts'), ts'))"

definition rr_next :: "(tid \<Rightarrow> bool) \<Rightarrow> RoundRobinPolicy \<Rightarrow> tid \<times> RoundRobinPolicy" where
  "rr_next ready p =
     (if rr_tasks p = [] then (rr_idle_tid p, p)
      else (case rr_search (length (rr_tasks p)) ready (rr_tasks p) of
              (Some t, ts) \<Rightarrow> (t, p\<lparr>rr_tasks := ts\<rparr>)
            | (None, ts) \<Rightarrow> (rr_idle_tid p, p\<lparr>rr_tasks := ts\<rparr>)))"

definition task_enqueued :: "RoundRobinPolicy \<Rightarrow> tid \<Rightarrow> RoundRobinPolicy" where
  "task_enqueued p t = p\<lparr>rr_tasks := rr_tasks p @ [t]\<rparr>"

definition task_dequeued :: "RoundRobinPolicy \<Rightarrow> tid \<Rightarrow> RoundRobinPolicy panics" where
  "task_dequeued p t = do {
     ensure (t \<in> set (rr_tasks p));
     Some (p\<lparr>rr_tasks := remove1 t (rr_tasks p)\<rparr>)
   }"

definition idle_task :: "RoundRobinPolicy \<Rightarrow> tid \<Rightarrow> RoundRobinPolicy" where
  "idle_task p t = p\<lparr>rr_idle_tid := t\<rparr>"

section \<open>The list of tasks\<close>

text \<open>\<open>f\<close> builds the task for its identifier, and may change the kernel while it does.\<close>

definition task_insert_with :: "Kernel \<Rightarrow> (tid \<Rightarrow> Kernel \<Rightarrow> (Task \<times> Kernel) panics) \<Rightarrow> (tid \<times> Kernel) panics" where
  "task_insert_with k f = do {
     let n = next_id k;
     let k1 = k\<lparr>next_id := n + 1\<rparr>;
     t \<leftarrow> non_zero n;
     (task, k2) \<leftarrow> f t k1;
     Some (t, set_task k2 t (task\<lparr>task_tid := t\<rparr>))
   }"

definition task_insert :: "Kernel \<Rightarrow> Task \<Rightarrow> (tid \<times> Kernel) panics" where
  "task_insert k task = task_insert_with k (\<lambda>_ k. Some (task, k))"

definition task_remove :: "Kernel \<Rightarrow> tid \<Rightarrow> Task option \<times> Kernel" where
  "task_remove k t = (get_task k t, k\<lparr>task_list := bt_remove t (task_list k)\<rparr>)"

section \<open>The scheduler\<close>

definition is_ready :: "Kernel \<Rightarrow> tid \<Rightarrow> bool" where
  "is_ready k t = (case get_state k t of Some st \<Rightarrow> run_state st = Ready | None \<Rightarrow> False)"

definition set_hart :: "Kernel \<Rightarrow> nat \<Rightarrow> SchedulerInner \<Rightarrow> Kernel" where
  "set_hart k hart inner = k\<lparr>harts := (harts k)(hart := inner)\<rparr>"

definition enqueue_with :: "Kernel \<Rightarrow> nat \<Rightarrow> (tid \<Rightarrow> Kernel \<Rightarrow> (Task \<times> Kernel) panics) \<Rightarrow> Kernel panics" where
  "enqueue_with k hart f = do {
     (t, k1) \<leftarrow> task_insert_with k f;
     ensure (hart < n_cpus k1);
     let inner = harts k1 hart;
     Some (set_hart k1 hart (inner\<lparr>sc_run_queue := bt_insert t metadata_new (sc_run_queue inner),
       sc_policy := task_enqueued (sc_policy inner) t\<rparr>))
   }"

definition enqueue :: "Kernel \<Rightarrow> nat \<Rightarrow> Task \<Rightarrow> Kernel panics" where
  "enqueue k hart task = enqueue_with k hart (\<lambda>_ k. Some (task, k))"

definition satp_for :: "tid \<Rightarrow> Task \<Rightarrow> usize" where
  "satp_for t task =
     satp_as_usize \<lparr> satp_mode = Sv39, satp_asid = ucast t, satp_root = mgr_table (memory_manager (mutable_state task)) \<rparr>"

text \<open>What is installed on the hart when it starts to run \<open>task\<close>.\<close>

definition load_task :: "Kernel \<Rightarrow> nat \<Rightarrow> tid \<Rightarrow> Task \<Rightarrow> Kernel" where
  "load_task k hart t task =
     k\<lparr>current_task := (current_task k)(hart := Some t),
       hart_sscratch := (hart_sscratch k)(hart := \<lparr> kernel_stack_top = task_kernel_stack task,
         kernel_thread_local = hart_tp k hart, kernel_global_ptr = hart_gp k hart, scratch_sp = 0 \<rparr>),
       hart_context := (hart_context k)(hart := task_context task),
       satp_of := (satp_of k)(hart := satp_for t task)\<rparr>"

text \<open>\<open>time_out\<close> and \<open>time_in\<close> are the two readings of the \<open>time\<close> register.\<close>

definition schedule :: "u64 \<Rightarrow> u64 \<Rightarrow> Kernel \<Rightarrow> nat \<Rightarrow> Kernel panics" where
  "schedule time_out time_in k hart = do {
     ensure (hart < n_cpus k);
     let inner = harts k hart;
     current \<leftarrow> current_task k hart;
     md \<leftarrow> bt_get (sc_run_queue inner) current;
     out_task \<leftarrow> get_task k current;
     let rq = bt_insert current (md\<lparr>md_run_time := md_run_time md + (time_out - md_last_scheduled_at md)\<rparr>)
       (sc_run_queue inner);
     let (t, pol) = rr_next (is_ready k) (sc_policy inner);
     md_in \<leftarrow> bt_get rq t;
     to_task \<leftarrow> get_task k t;
     if t \<noteq> current then do {
       let rq' = bt_insert t (md_in\<lparr>md_last_scheduled_at := time_in\<rparr>) rq;
       let k1 = set_hart k hart (inner\<lparr>sc_run_queue := rq', sc_policy := pol\<rparr>);
       let k2 = set_task k1 current (out_task\<lparr>task_context := hart_context k hart\<rparr>);
       Some (load_task k2 hart t to_task)
     } else Some (set_hart k hart (inner\<lparr>sc_run_queue := rq, sc_policy := pol\<rparr>))
   }"

text \<open>The hart must not be running a task yet.\<close>

definition begin_scheduling :: "(nat \<Rightarrow> nat \<Rightarrow> usize) \<Rightarrow> u64 \<Rightarrow> Kernel \<Rightarrow> nat \<Rightarrow> Kernel panics" where
  "begin_scheduling time now k hart = do {
     let idle_tid = next_id k;
     k1 \<leftarrow> enqueue_with k hart (\<lambda>_ k. task_idle time k hart);
     let inner = harts k1 hart;
     let (next, pol) = rr_next (is_ready k1) (idle_task (sc_policy inner) idle_tid);
     _ \<leftarrow> bt_get (sc_run_queue inner) next;
     to_task \<leftarrow> get_task k1 next;
     ensure (current_task k1 hart = None);
     let k2 = load_task (set_hart k1 hart (inner\<lparr>sc_policy := pol\<rparr>)) hart next to_task;
     Some (set_timer k2 hart now)
   }"

section \<open>Wait queues\<close>

definition set_run_state :: "Kernel \<Rightarrow> tid \<Rightarrow> TaskState \<Rightarrow> Kernel" where
  "set_run_state k t st = modify_state k t (\<lambda>s. s\<lparr>run_state := st\<rparr>)"

definition wait :: "u64 \<Rightarrow> u64 \<Rightarrow> Kernel \<Rightarrow> nat \<Rightarrow> nat \<Rightarrow> Kernel panics" where
  "wait time_out time_in k hart c = do {
     t \<leftarrow> current_task k hart;
     let k1 = set_chan k c ((chans k c)\<lparr>chan_waiters := chan_waiters (chans k c) @ [t]\<rparr>);
     let k2 = set_run_state k1 t Blocked;
     schedule time_out time_in k2 hart
   }"

definition wake_one :: "Kernel \<Rightarrow> nat \<Rightarrow> Kernel" where
  "wake_one k c =
     (case chan_waiters (chans k c) of
        [] \<Rightarrow> k
      | t # ts \<Rightarrow> set_run_state (set_chan k c ((chans k c)\<lparr>chan_waiters := ts\<rparr>)) t Ready)"

definition wake_all :: "Kernel \<Rightarrow> nat \<Rightarrow> Kernel" where
  "wake_all k c =
     fold (\<lambda>t k. set_run_state k t Ready) (chan_waiters (chans k c))
       (set_chan k c ((chans k c)\<lparr>chan_waiters := []\<rparr>))"

section \<open>Fairness of the policy\<close>

lemma rotate1_nth: "ts \<noteq> [] \<Longrightarrow> i < length ts \<Longrightarrow> rotate1 ts ! i = ts ! (Suc i mod length ts)"
  by (rule nth_rotate1)

lemma rotate1_index:
  assumes "ts \<noteq> []"
  shows "rotate1 ts ! (i mod length ts) = ts ! (Suc i mod length ts)"
  using nth_rotate1 [of "i mod length ts" ts] assms by (simp add: mod_Suc_eq)

lemma hd_rotate1: "ts \<noteq> [] \<Longrightarrow> hd (rotate1 ts) = ts ! (1 mod length ts)"
  using rotate1_index [of ts 0] by (simp add: hd_conv_nth)

lemma rotate_rotate1: "rotate j (rotate1 ts) = rotate (Suc j) ts"
  by (simp add: rotate1_rotate_swap)

lemma rr_search_finds:
  assumes "ts \<noteq> []" "0 < k" "k \<le> m" "ts ! (k mod length ts) = t" "ready t"
  shows "\<exists>j. 0 < j \<and> j \<le> k \<and> rr_search m ready ts = (Some (ts ! (j mod length ts)), rotate j ts)"
  using assms
proof (induction m arbitrary: ts k)
  case (Suc m)
  let ?n = "length ts"
  show ?case
  proof (cases "ready (hd (rotate1 ts))")
    case True
    then have "rr_search (Suc m) ready ts = (Some (ts ! (1 mod ?n)), rotate 1 ts)"
      using hd_rotate1 [OF Suc.prems(1)] by (simp add: Let_def)
    then show ?thesis using Suc.prems(2) by (intro exI [of _ 1]) simp
  next
    case False
    have k1: "k \<noteq> 1" using False Suc.prems hd_rotate1 [of ts] by auto
    then obtain k' where k': "k = Suc k'" "0 < k'" using Suc.prems(2) by (cases k) auto
    have "rotate1 ts ! (k' mod length (rotate1 ts)) = t"
      using rotate1_index [OF Suc.prems(1), of k'] Suc.prems(4) k' by simp
    then obtain j where j: "0 < j" "j \<le> k'"
      "rr_search m ready (rotate1 ts) = (Some (rotate1 ts ! (j mod ?n)), rotate j (rotate1 ts))"
      using Suc.IH [of "rotate1 ts" k'] Suc.prems k' by auto
    have "rr_search (Suc m) ready ts = (Some (ts ! (Suc j mod ?n)), rotate (Suc j) ts)"
      using False j(3) rotate1_index [OF Suc.prems(1), of j] rotate_rotate1 [of j ts] by (simp add: Let_def)
    then show ?thesis using j k' by (intro exI [of _ "Suc j"]) simp
  qed
qed simp

lemma rr_search_sound:
  "ts \<noteq> [] \<Longrightarrow> rr_search m ready ts = (r, ts') \<Longrightarrow>
   (\<exists>j. ts' = rotate j ts) \<and> (case r of Some t \<Rightarrow> t \<in> set ts \<and> ready t | None \<Rightarrow> True)"
proof (induction m arbitrary: ts)
  case 0
  then show ?case by (auto intro: exI [of _ 0])
next
  case (Suc m)
  show ?case
  proof (cases "ready (hd (rotate1 ts))")
    case True
    have "hd (rotate1 ts) \<in> set ts" using Suc.prems(1) hd_in_set [of "rotate1 ts"] by simp
    then show ?thesis using True Suc.prems by (auto simp: Let_def intro: exI [of _ 1])
  next
    case False
    then have "rr_search m ready (rotate1 ts) = (r, ts')" using Suc.prems by (simp add: Let_def)
    then obtain j where j: "ts' = rotate j (rotate1 ts)"
      "case r of Some t \<Rightarrow> t \<in> set ts \<and> ready t | None \<Rightarrow> True"
      using Suc.IH [of "rotate1 ts"] Suc.prems(1) by (simp only: set_rotate1 rotate1_is_Nil_conv) blast
    then show ?thesis using rotate_rotate1 [of j ts] by (intro conjI exI [of _ "Suc j"]) (simp_all only:)
  qed
qed

lemma index_mod:
  assumes "t \<in> set ts"
  obtains k where "0 < k" "k \<le> length ts" "ts ! (k mod length ts) = t"
proof -
  obtain i where i: "i < length ts" "ts ! i = t" using assms by (auto simp: in_set_conv_nth)
  show thesis
  proof (cases i)
    case 0
    then show thesis using i that [of "length ts"] by auto
  next
    case (Suc j)
    then show thesis using i that [of i] by simp
  qed
qed

lemma rr_next_cases:
  assumes "rr_next ready p = (t, p')"
  shows "(\<exists>j. rr_tasks p' = rotate j (rr_tasks p)) \<and> rr_idle_tid p' = rr_idle_tid p \<and>
    (t \<in> set (rr_tasks p) \<and> ready t \<or> t = rr_idle_tid p \<and> (\<forall>u \<in> set (rr_tasks p). \<not> ready u))"
proof (cases "rr_tasks p = []")
  case True
  then show ?thesis using assms by (auto simp: rr_next_def)
next
  case False
  let ?ts = "rr_tasks p"
  obtain r ts' where s: "rr_search (length ?ts) ready ?ts = (r, ts')" by fastforce
  note sound = rr_search_sound [OF False s]
  have res: "rr_idle_tid p' = rr_idle_tid p" "rr_tasks p' = ts'" "t = (case r of Some t \<Rightarrow> t | None \<Rightarrow> rr_idle_tid p)"
    using assms False s by (auto simp: rr_next_def split: option.splits)
  have "\<not> ready u" if r: "r = None" and u: "u \<in> set ?ts" for u
  proof
    assume ready: "ready u"
    obtain k where "0 < k" "k \<le> length ?ts" "?ts ! (k mod length ?ts) = u" using index_mod [OF u] .
    then show False using rr_search_finds [of ?ts k "length ?ts" u ready] False ready s r by auto
  qed
  then show ?thesis using sound res by (auto split: option.splits)
qed

text \<open>The policy after \<open>i\<close> calls of \<open>next\<close>, when call \<open>i\<close> finds the tasks of \<open>ready i\<close> ready.\<close>

primrec rr_after :: "(nat \<Rightarrow> tid \<Rightarrow> bool) \<Rightarrow> RoundRobinPolicy \<Rightarrow> nat \<Rightarrow> RoundRobinPolicy" where
  "rr_after ready p 0 = p"
| "rr_after ready p (Suc i) = snd (rr_next (ready i) (rr_after ready p i))"

lemma rr_after_shift: "rr_after ready p (Suc i) = rr_after (\<lambda>i. ready (Suc i)) (snd (rr_next (ready 0) p)) i"
  by (induction i) simp_all

lemma rr_fair_step:
  assumes "0 < k" "k \<le> length (rr_tasks p)" "rr_tasks p ! (k mod length (rr_tasks p)) = t" "\<forall>i < k. ready i t"
  shows "\<exists>i < k. fst (rr_next (ready i) (rr_after ready p i)) = t"
  using assms
proof (induction k arbitrary: p ready rule: less_induct)
  case (less k)
  let ?ts = "rr_tasks p" and ?n = "length (rr_tasks p)"
  have ne: "?ts \<noteq> []" using less.prems by auto
  obtain j where j: "0 < j" "j \<le> k" "rr_search ?n (ready 0) ?ts = (Some (?ts ! (j mod ?n)), rotate j ?ts)"
    using rr_search_finds [OF ne less.prems(1) less.prems(2) less.prems(3)] less.prems by blast
  define p' where "p' = p\<lparr>rr_tasks := rotate j ?ts\<rparr>"
  have nx: "rr_next (ready 0) p = (?ts ! (j mod ?n), p')" using j(3) ne by (simp add: rr_next_def p'_def)
  show ?case
  proof (cases "j = k")
    case True
    then show ?thesis using nx less.prems by (intro exI [of _ 0]) simp
  next
    case False
    then have jk: "j < k" using j(2) by simp
    have "rotate j ?ts ! ((k - j) mod ?n) = ?ts ! ((j + (k - j) mod ?n) mod ?n)"
      by (rule nth_rotate) (use ne in simp)
    then have "rr_tasks p' ! ((k - j) mod length (rr_tasks p')) = t"
      using jk less.prems(3) by (simp add: p'_def mod_add_right_eq)
    moreover have "k - j < k" "0 < k - j" "k - j \<le> length (rr_tasks p')" "\<forall>i < k - j. ready (Suc i) t"
      using jk j less.prems by (simp_all add: p'_def)
    ultimately obtain i where i: "i < k - j" "fst (rr_next (ready (Suc i)) (rr_after (\<lambda>i. ready (Suc i)) p' i)) = t"
      using less.IH [of "k - j" p' "\<lambda>i. ready (Suc i)"] by blast
    have "rr_after (\<lambda>i. ready (Suc i)) p' i = rr_after ready p (Suc i)" using rr_after_shift nx by simp
    then show ?thesis using i jk j by (intro exI [of _ "Suc i"]) auto
  qed
qed

text \<open>
  C16. The scheduling policy starves no task: a task in the queue of a hart that is ready at each of
  as many calls of \<open>next\<close> as the queue has entries is chosen by one of them, whatever the state of
  the other tasks at each call.
\<close>

theorem round_robin_fair:
  assumes "t \<in> set (rr_tasks p)" "\<forall>i < length (rr_tasks p). ready i t"
  shows "\<exists>i < length (rr_tasks p). fst (rr_next (ready i) (rr_after ready p i)) = t"
proof -
  obtain k where k: "0 < k" "k \<le> length (rr_tasks p)" "rr_tasks p ! (k mod length (rr_tasks p)) = t"
    using index_mod [OF assms(1)] .
  then obtain i where "i < k" "fst (rr_next (ready i) (rr_after ready p i)) = t"
    using rr_fair_step [OF k, of ready] assms(2) by (meson less_le_trans)
  then show ?thesis using k(2) by (intro exI [of _ i]) simp
qed

theorem round_robin_fair_witness:
  "\<exists>i < length (rr_tasks \<lparr> rr_tasks = [1, 2, 3], rr_idle_tid = 1 \<rparr>).
     fst (rr_next (\<lambda>t. t = 3 \<or> even i) (rr_after (\<lambda>i t. t = 3 \<or> even i) \<lparr> rr_tasks = [1, 2, 3], rr_idle_tid = 1 \<rparr> i)) = 3"
  using round_robin_fair [of 3 "\<lparr> rr_tasks = [1, 2, 3], rr_idle_tid = 1 \<rparr>" "\<lambda>i t. t = 3 \<or> even i"] by simp

section \<open>The scheduler\<close>

text \<open>
  What holds of a hart once it schedules: it runs a task of its run queue, and the tasks its policy may
  choose are in its run queue and exist.
\<close>

definition sched_ok :: "Kernel \<Rightarrow> nat \<Rightarrow> bool" where
  "sched_ok k hart \<longleftrightarrow> hart < n_cpus k \<and> bt_ok (task_list k) \<and> bt_ok (sc_run_queue (harts k hart)) \<and>
     (case current_task k hart of
        None \<Rightarrow> False
      | Some c \<Rightarrow>
          (\<forall>t \<in> insert c (insert (rr_idle_tid (sc_policy (harts k hart))) (set (rr_tasks (sc_policy (harts k hart))))).
             bt_get (sc_run_queue (harts k hart)) t \<noteq> None \<and> get_task k t \<noteq> None))"

lemma sched_okD:
  assumes "sched_ok k hart"
  obtains c where "hart < n_cpus k" "bt_ok (task_list k)" "bt_ok (sc_run_queue (harts k hart))"
    "current_task k hart = Some c"
    "\<And>t. t = c \<or> t = rr_idle_tid (sc_policy (harts k hart)) \<or> t \<in> set (rr_tasks (sc_policy (harts k hart))) \<Longrightarrow>
       (\<exists>md. bt_get (sc_run_queue (harts k hart)) t = Some md) \<and> (\<exists>task. get_task k t = Some task)"
  using assms by (auto simp: sched_ok_def split: option.splits)

lemma schedule_spec:
  assumes "sched_ok k hart"
  shows "\<exists>k' c t task. schedule time_out time_in k hart = Some k' \<and> sched_ok k' hart \<and>
    current_task k hart = Some c \<and> current_task k' = (current_task k)(hart \<mapsto> t) \<and>
    (is_ready k t \<or> t = rr_idle_tid (sc_policy (harts k hart)) \<and>
       (\<forall>u \<in> set (rr_tasks (sc_policy (harts k hart))). \<not> is_ready k u)) \<and>
    get_task k t = Some task \<and>
    (if t = c then get_task k' = get_task k \<and> hart_context k' = hart_context k
     else get_task k' = (get_task k)(c \<mapsto> (the (get_task k c))\<lparr>task_context := hart_context k hart\<rparr>) \<and>
       hart_context k' = (hart_context k)(hart := task_context task) \<and>
       satp_of k' = (satp_of k)(hart := satp_for t task) \<and>
       kernel_stack_top (hart_sscratch k' hart) = task_kernel_stack task) \<and>
    (\<forall>h. h \<noteq> hart \<longrightarrow> harts k' h = harts k h)"
proof -
  let ?inner = "harts k hart"
  obtain c where c: "hart < n_cpus k" "bt_ok (task_list k)" "bt_ok (sc_run_queue ?inner)" "current_task k hart = Some c"
    and known: "\<And>t. t = c \<or> t = rr_idle_tid (sc_policy ?inner) \<or> t \<in> set (rr_tasks (sc_policy ?inner)) \<Longrightarrow>
       (\<exists>md. bt_get (sc_run_queue ?inner) t = Some md) \<and> (\<exists>task. get_task k t = Some task)"
    using sched_okD [OF assms] by metis
  obtain md out where out: "bt_get (sc_run_queue ?inner) c = Some md" "get_task k c = Some out" using known by blast
  obtain t pol where nx: "rr_next (is_ready k) (sc_policy ?inner) = (t, pol)" by fastforce
  obtain j where j: "rr_tasks pol = rotate j (rr_tasks (sc_policy ?inner))" "rr_idle_tid pol = rr_idle_tid (sc_policy ?inner)"
    and pick: "t \<in> set (rr_tasks (sc_policy ?inner)) \<and> is_ready k t \<or>
      t = rr_idle_tid (sc_policy ?inner) \<and> (\<forall>u \<in> set (rr_tasks (sc_policy ?inner)). \<not> is_ready k u)"
    using rr_next_cases [OF nx] by blast
  obtain md_t task where task: "bt_get (sc_run_queue ?inner) t = Some md_t" "get_task k t = Some task"
    using known [of t] pick by blast
  define rq where "rq = bt_insert c (md\<lparr>md_run_time := md_run_time md + (time_out - md_last_scheduled_at md)\<rparr>) (sc_run_queue ?inner)"
  have rq: "bt_ok rq" "bt_get rq = (bt_get (sc_run_queue ?inner))(c \<mapsto> md\<lparr>md_run_time := md_run_time md + (time_out - md_last_scheduled_at md)\<rparr>)"
    using bt.ok_insert [OF c(3)] bt.get_insert [OF c(3)] by (simp_all add: rq_def fun_eq_iff)
  obtain md_in where md_in: "bt_get rq t = Some md_in" using rq(2) task(1) by (cases "t = c") auto
  show ?thesis
  proof (cases "t = c")
    case True
    define k' where "k' = set_hart k hart (?inner\<lparr>sc_run_queue := rq, sc_policy := pol\<rparr>)"
    have s: "schedule time_out time_in k hart = Some k'"
      using c out nx md_in True by (simp add: schedule_def ensure_def rq_def [symmetric] k'_def Let_def)
    have "sched_ok k' hart"
      using c rq known j by (auto simp: sched_ok_def k'_def set_hart_def get_task_def)
    then show ?thesis using s True c pick task
      by (intro exI [of _ k'] exI [of _ c] exI [of _ task])
        (auto simp: k'_def set_hart_def get_task_def fun_eq_iff)
  next
    case False
    define rq' where "rq' = bt_insert t (md_in\<lparr>md_last_scheduled_at := time_in\<rparr>) rq"
    define k1 where "k1 = set_hart k hart (?inner\<lparr>sc_run_queue := rq', sc_policy := pol\<rparr>)"
    define k2 where "k2 = set_task k1 c (out\<lparr>task_context := hart_context k hart\<rparr>)"
    define k' where "k' = load_task k2 hart t task"
    have s: "schedule time_out time_in k hart = Some k'"
      using c out nx md_in task False
      by (simp add: schedule_def ensure_def rq_def [symmetric] k'_def k2_def k1_def rq'_def Let_def)
    have "get_task k2 = (get_task k1)(c \<mapsto> out\<lparr>task_context := hart_context k hart\<rparr>)" "bt_ok (task_list k2)"
      using get_set_task [of k1] set_task_ok [of k1] c(2) by (simp_all add: k2_def k1_def set_hart_def)
    then have gt: "get_task k' = (get_task k)(c \<mapsto> out\<lparr>task_context := hart_context k hart\<rparr>)" "bt_ok (task_list k')"
      by (simp_all add: k'_def load_task_def get_task_def fun_eq_iff k1_def set_hart_def)
    have fields: "harts k' = (harts k)(hart := ?inner\<lparr>sc_run_queue := rq', sc_policy := pol\<rparr>)" "n_cpus k' = n_cpus k"
      "current_task k' = (current_task k)(hart \<mapsto> t)" "hart_context k' = (hart_context k)(hart := task_context task)"
      "satp_of k' = (satp_of k)(hart := satp_for t task)" "kernel_stack_top (hart_sscratch k' hart) = task_kernel_stack task"
      by (simp_all add: k'_def load_task_def k2_def k1_def set_task_def set_hart_def)
    have rq': "bt_ok rq'" "bt_get rq' = (bt_get rq)(t \<mapsto> md_in\<lparr>md_last_scheduled_at := time_in\<rparr>)"
      using bt.ok_insert [OF rq(1)] bt.get_insert [OF rq(1)] by (simp_all add: rq'_def fun_eq_iff)
    have "sched_ok k' hart"
      using c known j gt rq rq' fields task by (auto simp: sched_ok_def)
    then show ?thesis using s False c pick task gt fields out
      by - (rule exI [of _ k'], rule exI [of _ c], rule exI [of _ t], rule exI [of _ task], auto)
  qed
qed

text \<open>
  C10. On a hart that schedules, \<open>schedule\<close> never panics and keeps the hart schedulable. It switches to a
  task that is ready, or to the idle task when no task of the hart is. The registers of the task it
  leaves are saved in that task's context, and those of the task it enters are loaded, with its address
  space and its kernel stack; no other task and no other hart is affected.
\<close>

theorem schedule_switches:
  assumes "sched_ok k hart"
  shows "\<exists>k' c t task. schedule time_out time_in k hart = Some k' \<and> sched_ok k' hart \<and>
    current_task k hart = Some c \<and> current_task k' = (current_task k)(hart \<mapsto> t) \<and>
    (is_ready k t \<or> t = rr_idle_tid (sc_policy (harts k hart)) \<and>
       (\<forall>u \<in> set (rr_tasks (sc_policy (harts k hart))). \<not> is_ready k u)) \<and>
    get_task k t = Some task \<and>
    (if t = c then get_task k' = get_task k \<and> hart_context k' = hart_context k
     else get_task k' = (get_task k)(c \<mapsto> (the (get_task k c))\<lparr>task_context := hart_context k hart\<rparr>) \<and>
       hart_context k' = (hart_context k)(hart := task_context task) \<and>
       satp_of k' = (satp_of k)(hart := satp_for t task) \<and>
       kernel_stack_top (hart_sscratch k' hart) = task_kernel_stack task) \<and>
    (\<forall>h. h \<noteq> hart \<longrightarrow> harts k' h = harts k h)"
  by (rule schedule_spec [OF assms])

text \<open>A machine with two harts' queues to fill, and a kernel on it with the given tasks, all of them on hart 0.\<close>

definition demo_task :: "tid \<Rightarrow> TaskState \<Rightarrow> Task" where
  "demo_task t st =
     \<lparr> task_tid = t, task_name = [], task_kernel_stack = 0x1000 * t,
       task_context = \<lparr> ctx_ra = t, ctx_sp = t, ctx_sx = replicate 12 0 \<rparr>,
       mutable_state = (new_mutable_state demo_manager [] \<lparr> ch_sender = \<lparr> snd_chan = 0, other_tid = None, other_cptr = 0 \<rparr>, ch_receiver = 1 \<rparr>)
         \<lparr>run_state := st\<rparr> \<rparr>"

definition demo_kernel :: "(tid \<times> Task) list \<Rightarrow> Kernel" where
  "demo_kernel tasks =
     \<lparr> machine = demo_machine, arcs = (\<lambda>_. 0), task_list = tasks, next_id = 10,
       chans = (\<lambda>_. chan_new), next_chan = 2, n_cpus = 1,
       harts = (\<lambda>_. \<lparr> sc_policy = \<lparr> rr_tasks = map fst tasks, rr_idle_tid = 1 \<rparr>,
         sc_run_queue = map (\<lambda>(t, _). (t, metadata_new)) tasks \<rparr>),
       current_task = (\<lambda>_. Some 1), satp_of = (\<lambda>_. 0),
       hart_context = (\<lambda>_. \<lparr> ctx_ra = 7, ctx_sp = 7, ctx_sx = replicate 12 7 \<rparr>),
       hart_sscratch = (\<lambda>_. sscratch_new), hart_gp = (\<lambda>_. 0), hart_tp = (\<lambda>_. 0), timer_at = (\<lambda>_. 0),
       timer_freq = 10000000, trap_frames = (\<lambda>_. \<lparr> sepc = 0, registers = default_registers \<rparr>),
       return_to_usermode_addr = 0, isr_registry = (\<lambda>_. None), the_plic = None, claimed_devices = [], console = [] \<rparr>"

theorem schedule_switches_witness:
  "let k = demo_kernel [(1, demo_task 1 Ready), (2, demo_task 2 Blocked), (3, demo_task 3 Ready)] in
   sched_ok k 0 \<and> (\<exists>k'. schedule 5 6 k 0 = Some k' \<and> sched_ok k' 0)"
proof -
  let ?k = "demo_kernel [(1, demo_task 1 Ready), (2, demo_task 2 Blocked), (3, demo_task 3 Ready)]"
  have "sched_ok ?k 0"
    by (simp add: sched_ok_def demo_kernel_def get_task_def bt_get_def bt_ok_def)
  then show ?thesis using schedule_switches [of ?k 0 5 6] by (auto simp: Let_def)
qed

end
