(* ===== verification/User_Ptr.thy ===== *)
theory User_Ptr
  imports Memory_Manager
begin

text \<open>
  Pointers and slices passed in by a task (\<open>mem/user.rs\<close>). A raw pointer is an address with the size
  and alignment of its type; validating it checks every page it touches in the task's page table, and
  only a validated pointer can be read or written. An access goes through the page table of the
  running task, so it faults (\<^term>\<open>None\<close>) where the table has no leaf.
\<close>

section \<open>Raw and validated pointers\<close>

datatype InvalidUserPtr = InvalidAccess | PtrNotMapped | PtrUnaligned

datatype UserPtrMode = ModeRead | ModeReadWrite

fun mode_flags :: "UserPtrMode \<Rightarrow> flags" where
  "mode_flags ModeRead = FLAG_READ"
| "mode_flags ModeReadWrite = FLAG_READ OR FLAG_WRITE"

text \<open>\<open>core::mem::size_of\<close> and \<open>align_of\<close> of the pointee type.\<close>

record pointee =
  size_of :: usize
  align_of :: usize

record RawUserPtr =
  p_addr :: vaddr
  p_mode :: UserPtrMode

record ValidatedUserPtr =
  v_addr :: vaddr
  v_mode :: UserPtrMode

fun of_invalid_region :: "InvalidRegion \<Rightarrow> InvalidUserPtr" where
  "of_invalid_region RegionNotMapped = PtrNotMapped"
| "of_invalid_region RegionInvalidPermissions = InvalidAccess"

definition validate_ptr ::
  "Machine \<Rightarrow> UserspaceMemoryManager \<Rightarrow> pointee \<Rightarrow> RawUserPtr \<Rightarrow> (InvalidUserPtr + ValidatedUserPtr) panics" where
  "validate_ptr s mgr T p =
     (if p_addr p mod align_of T \<noteq> 0 then Some (Inl PtrUnaligned)
      else do {
        to \<leftarrow> vaddr_add (p_addr p) (size_of T);
        r \<leftarrow> is_user_region_valid s mgr (p_addr p, to) (\<lambda>f. flags_bitand f (mode_flags (p_mode p)));
        Some (case r of
            Inr _ \<Rightarrow> Inr \<lparr> v_addr = p_addr p, v_mode = p_mode p \<rparr>
          | Inl (_, e) \<Rightarrow> Inl (of_invalid_region e))
      })"

record RawUserSlice =
  rs_addr :: vaddr
  rs_len :: usize
  rs_mode :: UserPtrMode

record ValidatedUserSlice =
  vs_addr :: vaddr
  vs_len :: usize
  vs_mode :: UserPtrMode

definition slice_readable :: "vaddr \<Rightarrow> usize \<Rightarrow> RawUserSlice" where
  "slice_readable addr len = \<lparr> rs_addr = addr, rs_len = len, rs_mode = ModeRead \<rparr>"

definition slice_writable :: "vaddr \<Rightarrow> usize \<Rightarrow> RawUserSlice" where
  "slice_writable addr len = \<lparr> rs_addr = addr, rs_len = len, rs_mode = ModeReadWrite \<rparr>"

definition validate_slice ::
  "Machine \<Rightarrow> UserspaceMemoryManager \<Rightarrow> pointee \<Rightarrow> RawUserSlice \<Rightarrow> ((vaddr \<times> InvalidUserPtr) + ValidatedUserSlice) panics" where
  "validate_slice s mgr T sl =
     (if rs_addr sl mod align_of T \<noteq> 0 then Some (Inl (rs_addr sl, PtrUnaligned))
      else if rs_len sl = 0 then Some (Inr \<lparr> vs_addr = rs_addr sl, vs_len = rs_len sl, vs_mode = rs_mode sl \<rparr>)
      else do {
        to \<leftarrow> vaddr_add (rs_addr sl) (size_of T * rs_len sl);
        r \<leftarrow> is_user_region_valid s mgr (rs_addr sl, to) (\<lambda>f. flags_bitand f (mode_flags (rs_mode sl)));
        Some (case r of
            Inr _ \<Rightarrow> Inr \<lparr> vs_addr = rs_addr sl, vs_len = rs_len sl, vs_mode = rs_mode sl \<rparr>
          | Inl (addr, e) \<Rightarrow> Inl (addr, of_invalid_region e))
      })"

section \<open>Access\<close>

text \<open>The translation of an access by the running task: the leaf that maps the address.\<close>

definition user_paddr :: "Machine \<Rightarrow> UserspaceMemoryManager \<Rightarrow> vaddr \<Rightarrow> paddr option" where
  "user_paddr s mgr x =
     (case with_entry (tables (phys s)) (mgr_table mgr) top_level (rev (vpns x)) (\<lambda>e sz. (e, sz)) of
        Some (Some (e, sz)) \<Rightarrow> Some (shl (shr e 10) 12 + offset_into_page x sz)
      | _ \<Rightarrow> None)"

definition read_user :: "Machine \<Rightarrow> UserspaceMemoryManager \<Rightarrow> vaddr \<Rightarrow> nat \<Rightarrow> u8 list option" where
  "read_user s mgr addr n = those (map (\<lambda>i. map_option (bytes s) (user_paddr s mgr (addr + of_nat i))) [0..<n])"

fun write_user :: "Machine \<Rightarrow> UserspaceMemoryManager \<Rightarrow> vaddr \<Rightarrow> u8 list \<Rightarrow> Machine option" where
  "write_user s mgr addr [] = Some s"
| "write_user s mgr addr (b # bs) = do {
     p \<leftarrow> user_paddr s mgr addr;
     write_user (s\<lparr>bytes := (bytes s)(p := b)\<rparr>) mgr (addr + 1) bs
   }"

definition ptr_read :: "Machine \<Rightarrow> UserspaceMemoryManager \<Rightarrow> pointee \<Rightarrow> ValidatedUserPtr \<Rightarrow> u8 list option" where
  "ptr_read s mgr T p = read_user s mgr (v_addr p) (unat (size_of T))"

definition ptr_write :: "Machine \<Rightarrow> UserspaceMemoryManager \<Rightarrow> ValidatedUserPtr \<Rightarrow> u8 list \<Rightarrow> Machine option" where
  "ptr_write s mgr p value = write_user s mgr (v_addr p) value"

text \<open>\<open>from_raw_parts\<close> covers \<open>len\<close> elements, also where the number of their bytes does not fit a \<open>usize\<close>.\<close>

definition slice_bytes :: "pointee \<Rightarrow> usize \<Rightarrow> nat" where
  "slice_bytes T len = unat (size_of T) * unat len"

definition slice_with :: "Machine \<Rightarrow> UserspaceMemoryManager \<Rightarrow> pointee \<Rightarrow> ValidatedUserSlice \<Rightarrow> u8 list option" where
  "slice_with s mgr T sl = read_user s mgr (vs_addr sl) (slice_bytes T (vs_len sl))"

definition slice_with_mut :: "Machine \<Rightarrow> UserspaceMemoryManager \<Rightarrow> ValidatedUserSlice \<Rightarrow> u8 list \<Rightarrow> Machine option" where
  "slice_with_mut s mgr sl data = write_user s mgr (vs_addr sl) data"

section \<open>What validation guarantees\<close>

lemma user_paddr_flags:
  "mgr_page_flags s mgr x = Some (Some fl) \<Longrightarrow> \<exists>p. user_paddr s mgr x = Some p"
  unfolding mgr_page_flags_def page_flags_entry_at user_paddr_def
  by (auto split: option.splits)

lemma those_total: "(\<forall>x \<in> set xs. \<exists>y. f x = Some y) \<Longrightarrow> \<exists>ys. those (map f xs) = Some ys \<and> length ys = length xs"
  by (induction xs) auto

lemma read_user_total:
  assumes "\<forall>i < n. \<exists>p. user_paddr s mgr (addr + of_nat i) = Some p"
  shows "\<exists>bs. read_user s mgr addr n = Some bs \<and> length bs = n"
  using those_total [of "[0..<n]" "\<lambda>i. map_option (bytes s) (user_paddr s mgr (addr + of_nat i))"] assms
  by (auto simp: read_user_def)

lemma user_paddr_bytes [simp]: "user_paddr (s\<lparr>bytes := b\<rparr>) mgr x = user_paddr s mgr x"
  by (simp add: user_paddr_def)

lemma write_user_total:
  assumes "\<forall>i < length bs. \<exists>p. user_paddr s mgr (addr + of_nat i) = Some p"
  shows "\<exists>s'. write_user s mgr addr bs = Some s' \<and> phys s' = phys s \<and>
    (\<forall>p. p \<notin> {p. \<exists>i < length bs. user_paddr s mgr (addr + of_nat i) = Some p} \<longrightarrow> bytes s' p = bytes s p)"
  using assms
proof (induction bs arbitrary: s addr)
  case (Cons b bs)
  obtain q where q: "user_paddr s mgr addr = Some q" using Cons.prems by (auto dest: spec [of _ 0])
  let ?s = "s\<lparr>bytes := (bytes s)(q := b)\<rparr>"
  have "\<forall>i < length bs. \<exists>p. user_paddr ?s mgr (addr + 1 + of_nat i) = Some p"
  proof (intro allI impI)
    fix i assume "i < length bs"
    then show "\<exists>p. user_paddr ?s mgr (addr + 1 + of_nat i) = Some p"
      using Cons.prems [rule_format, of "Suc i"] by (simp add: algebra_simps)
  qed
  from Cons.IH [OF this] obtain s' where s': "write_user ?s mgr (addr + 1) bs = Some s'" "phys s' = phys s"
    "\<forall>p. p \<notin> {p. \<exists>i < length bs. user_paddr s mgr (addr + 1 + of_nat i) = Some p} \<longrightarrow> bytes s' p = ((bytes s)(q := b)) p"
    by auto
  have "bytes s' p = bytes s p" if n: "\<not> (\<exists>i < length (b # bs). user_paddr s mgr (addr + of_nat i) = Some p)" for p
  proof -
    have "p \<noteq> q" using n q by (auto dest: spec [of _ 0])
    moreover have "\<not> (\<exists>i < length bs. user_paddr s mgr (addr + 1 + of_nat i) = Some p)"
    proof
      assume "\<exists>i < length bs. user_paddr s mgr (addr + 1 + of_nat i) = Some p"
      then obtain i where "i < length bs" "user_paddr s mgr (addr + of_nat (Suc i)) = Some p" by (auto simp: algebra_simps)
      then show False using n by (metis length_Cons Suc_less_eq)
    qed
    ultimately show ?thesis using s'(3) by auto
  qed
  then show ?case using q s'(1,2) by auto
qed simp

lemma result_Inr:
  "(case r of Inl (a, e) \<Rightarrow> Inl (a, g e) | Inr (u :: unit) \<Rightarrow> Inr v) = Inr w \<longleftrightarrow> r = Inr () \<and> v = w"
  by (cases r) auto

text \<open>A validated slice, with its bytes inside user space, and every one of them mapped with its mode.\<close>

lemma validate_slice_Inr:
  assumes v: "validate_slice s mgr T sl = Some (Inr vs)" and u: "in_userspace (rs_addr sl)"
    and i: "i < unat (size_of T * rs_len sl)"
  shows "vs_addr vs = rs_addr sl" "vs_len vs = rs_len sl" "vs_mode vs = rs_mode sl"
    "in_userspace (rs_addr sl + of_nat i)"
    "\<exists>fl. mgr_page_flags s mgr (rs_addr sl + of_nat i) = Some (Some fl) \<and> flags_bitand fl (mode_flags (rs_mode sl))"
proof -
  let ?a = "rs_addr sl" and ?n = "size_of T * rs_len sl"
  have nz: "rs_len sl \<noteq> 0" using i by auto
  obtain to where t: "vaddr_add ?a ?n = Some to"
    "is_user_region_valid s mgr (?a, to) (\<lambda>f. flags_bitand f (mode_flags (rs_mode sl))) = Some (Inr ())"
    and e: "vs = \<lparr> vs_addr = ?a, vs_len = rs_len sl, vs_mode = rs_mode sl \<rparr>"
    using v nz by (auto simp: validate_slice_def bind_eq_Some_conv result_Inr split: if_splits)
  show "vs_addr vs = ?a" "vs_len vs = rs_len sl" "vs_mode vs = rs_mode sl" using e by simp_all
  have to: "unat ?a + unat ?n < 0x3FFFFFFFFF" "to = ?a + ?n"
    using t(1) unfolding vaddr_add_def vaddr_checked_add_user [OF u] by blast+
  have uto: "unat to = unat ?a + unat ?n" unfolding to(2) using to(1) unat_add_lem [of ?a ?n] by simp
  have ui: "unat (of_nat i :: usize) = i" by (rule unat_of_nat_64) (use i to(1) in simp)
  have ux: "unat (?a + of_nat i) = unat ?a + i" using unat_add_lem [of ?a "of_nat i"] ui i to(1) by simp
  show "in_userspace (?a + of_nat i)" using ux i to(1) by (simp add: in_userspace_iff word_less_nat_alt)
  have usto: "in_userspace to" "?a \<le> to" using uto to(1) by (simp_all add: in_userspace_iff word_less_nat_alt word_le_nat_alt)
  have "align_down_to ?a Kilopage \<le> ?a + of_nat i" "?a + of_nat i \<le> to"
    using align_down_le [of ?a Kilopage] ux uto i by (simp_all add: word_le_nat_alt)
  then show "\<exists>fl. mgr_page_flags s mgr (?a + of_nat i) = Some (Some fl) \<and> flags_bitand fl (mode_flags (rs_mode sl))"
    by (intro t(2) [unfolded is_user_region_valid_iff [OF u usto], rule_format] conjI)
qed

text \<open>
  The checked range is rounded up to the next page with an addition that wraps. A slice of kernel addresses is refused
  at its first page, unless its end lies in the last page of the address space: then no page is checked at all.
\<close>

lemma kernel_first_page: "is_kernel_region a \<Longrightarrow> is_kernel_region (vaddr_new (align_down_to a Kilopage))"
  by (simp add: is_kernel_region_iff vaddr_new_def align_down_to_def shl_def bit_or_iff bit_and_iff bit_not_iff units_def)

lemma check_first_kernel:
  assumes "is_kernel_region start"
  shows "is_user_region_valid s mgr (start, stop) f = Some (Inr ()) \<longleftrightarrow> align_to_next stop Kilopage \<le> align_down_to start Kilopage"
proof (cases "align_to_next stop Kilopage \<le> align_down_to start Kilopage")
  case False
  let ?d = "align_down_to start Kilopage" and ?n = "(unat (align_to_next stop Kilopage - align_down_to start Kilopage) + 4095) div 4096"
  have "align_to_next stop Kilopage - ?d \<noteq> 0" using False by auto
  then have "0 < unat (align_to_next stop Kilopage - ?d)" unfolding unat_gt_0 .
  then have "0 < ?n" by (simp add: div_greater_zero_iff)
  then obtain ps where "[0..<?n] = 0 # ps" using upt_conv_Cons [of 0 ?n] by blast
  then have "step_pages ?d (align_to_next stop Kilopage) = ?d # map (\<lambda>i. ?d + of_nat i * kib 4) ps"
    using False by (simp add: step_pages_def)
  then show ?thesis using False kernel_first_page [OF assms] by (simp add: is_user_region_valid_def Let_def)
qed (simp add: is_user_region_valid_def step_pages_def)

lemma last_page_wraps:
  assumes "start \<le> stop" 
  shows "align_to_next stop Kilopage \<le> align_down_to start Kilopage \<longleftrightarrow> 0xFFFFFFFFFFFFF000 \<le> stop"
proof
  assume w: "0xFFFFFFFFFFFFF000 \<le> stop"
  have "unat stop div 4096 = 0xFFFFFFFFFFFFF"
  proof -
    have "0xFFFFFFFFFFFFF000 \<le> unat stop" "unat stop < 2 ^ 64" using w unsigned_less [of stop] by (simp_all add: word_le_nat_alt)
    then show ?thesis by simp
  qed
  then have "unat (align_down_to stop Kilopage) = 0xFFFFFFFFFFFFF000" by (simp add: unat_align_down)
  then have "align_down_to stop Kilopage = 0xFFFFFFFFFFFFF000" by (intro word_unat_eq_iff [THEN iffD2]) simp
  moreover have "(0xFFFFFFFFFFFFF000 :: usize) + to_byte_size Kilopage = 0" by code_simp
  ultimately show "align_to_next stop Kilopage \<le> align_down_to start Kilopage" by (simp add: align_to_next_def)
next
  assume w: "align_to_next stop Kilopage \<le> align_down_to start Kilopage"
  show "0xFFFFFFFFFFFFF000 \<le> stop"
  proof (rule ccontr)
    assume "\<not> ?thesis"
    then have l: "unat stop < 0xFFFFFFFFFFFFF000" by (simp add: word_le_nat_alt)
    let ?d = "align_down_to stop Kilopage"
    have d: "unat ?d = unat stop div 4096 * 4096" by (simp add: unat_align_down)
    have "unat ?d + 4096 < 2 ^ 64" using l d by simp
    then have "unat (align_to_next stop Kilopage) = unat ?d + 4096"
      unfolding align_to_next_def using unat_add_lem [of ?d "to_byte_size Kilopage"] by (simp add: units_def)
    moreover have "unat stop < unat ?d + 4096" using d by simp
    moreover have "unat (align_down_to start Kilopage) \<le> unat stop"
      using align_down_le [of start Kilopage] assms by (simp add: word_le_nat_alt)
    ultimately show False using w by (simp add: word_le_nat_alt)
  qed
qed

lemma validate_slice_kernel:
  assumes k: "is_kernel_region (rs_addr sl)" and l: "rs_len sl \<noteq> 0" and v: "validate_slice s mgr T sl = Some (Inr vs)"
  shows "0xFFFFFFFFFFFFF000 \<le> rs_addr sl + size_of T * rs_len sl"
proof -
  let ?a = "rs_addr sl" and ?n = "size_of T * rs_len sl"
  obtain to where t: "vaddr_checked_add ?a ?n = Some to"
    "is_user_region_valid s mgr (?a, to) (\<lambda>f. flags_bitand f (mode_flags (rs_mode sl))) = Some (Inr ())"
    using v l by (auto simp: validate_slice_def vaddr_add_def bind_eq_Some_conv result_Inr split: if_splits)
  have to: "to = ?a + ?n" "?a \<le> to" using vaddr_checked_add_Some [OF t(1)] by (simp_all add: word_le_nat_alt)
  have "0xFFFFFFFFFFFFF000 \<le> to" using t(2) unfolding check_first_kernel [OF k] last_page_wraps [OF to(2)] .
  then show ?thesis unfolding to(1) .
qed

lemma validate_slice_user:
  assumes "validate_slice s mgr T sl = Some (Inr vs)" "rs_len sl \<noteq> 0" "\<not> is_kernel_region (rs_addr sl)"
  shows "in_userspace (rs_addr sl)"
proof -
  let ?a = "rs_addr sl" and ?n = "size_of T * rs_len sl"
  obtain to where t: "vaddr_checked_add ?a ?n = Some to"
    using assms(1,2) by (auto simp: validate_slice_def vaddr_add_def bind_eq_Some_conv split: if_splits)
  note c = vaddr_checked_add_Some [OF t]
  have "in_userspace to" using c assms(3) by simp
  moreover have "?a \<le> to" using c by (simp add: word_le_nat_alt)
  ultimately show ?thesis unfolding in_userspace_iff by (simp add: le_less_trans)
qed

section \<open>Properties\<close>

text \<open>
  C6. A slice of user memory that \<open>RawUserSlice::validate\<close> accepted can be used without a fault. Where the number of
  its bytes fits a \<open>usize\<close>, every byte of it lies in user space and is mapped with the permissions of its mode, reading
  the slice gives all its bytes, and writing bytes within it changes no byte of physical memory but those the slice
  maps to; the only other slices it accepts start in the kernel's half and end in the last page of the address space.
\<close>

theorem validated_slice_accessible:
  assumes "validate_slice s mgr T sl = Some (Inr vs)" "slice_bytes T (rs_len sl) < 2 ^ 64"
  shows "(\<forall>i < slice_bytes T (rs_len sl). in_userspace (rs_addr sl + of_nat i) \<and>
      (\<exists>fl. mgr_page_flags s mgr (rs_addr sl + of_nat i) = Some (Some fl) \<and> flags_bitand fl (mode_flags (rs_mode sl)))) \<and>
    (\<exists>bs. slice_with s mgr T vs = Some bs \<and> length bs = slice_bytes T (rs_len sl)) \<and>
    (\<forall>data. length data \<le> slice_bytes T (rs_len sl) \<longrightarrow>
      (\<exists>s'. slice_with_mut s mgr vs data = Some s' \<and> phys s' = phys s \<and>
        (\<forall>p. (\<forall>i < length data. user_paddr s mgr (rs_addr sl + of_nat i) \<noteq> Some p) \<longrightarrow> bytes s' p = bytes s p))) \<or>
    is_kernel_region (rs_addr sl) \<and> 0xFFFFFFFFFFFFF000 \<le> rs_addr sl + size_of T * rs_len sl"
proof (cases "rs_len sl \<noteq> 0 \<and> is_kernel_region (rs_addr sl)")
  case True
  then show ?thesis using validate_slice_kernel assms(1) by blast
next
  case False
  let ?a = "rs_addr sl" and ?n = "slice_bytes T (rs_len sl)"
  have n: "unat (size_of T * rs_len sl) = ?n" using assms(2) by (simp add: slice_bytes_def unat_word_ariths)
  have u: "in_userspace ?a" if "i < ?n" for i
    using validate_slice_user [OF assms(1)] False that by (cases "rs_len sl = 0") (auto simp: slice_bytes_def)
  note ok = validate_slice_Inr(4,5) [OF assms(1) u, unfolded n]
  have vs: "vs_addr vs = ?a" "vs_len vs = rs_len sl"
    using assms(1) by (auto simp: validate_slice_def bind_eq_Some_conv result_Inr split: if_splits)
  have m: "\<forall>i < ?n. \<exists>p. user_paddr s mgr (?a + of_nat i) = Some p"
    using ok(2) user_paddr_flags by blast
  have rd: "\<exists>bs. slice_with s mgr T vs = Some bs \<and> length bs = ?n"
    using read_user_total [OF m] by (simp add: slice_with_def vs)
  have wr: "\<exists>s'. slice_with_mut s mgr vs data = Some s' \<and> phys s' = phys s \<and>
        (\<forall>p. (\<forall>i < length data. user_paddr s mgr (?a + of_nat i) \<noteq> Some p) \<longrightarrow> bytes s' p = bytes s p)"
    if "length data \<le> ?n" for data
  proof -
    have "\<forall>i < length data. \<exists>p. user_paddr s mgr (?a + of_nat i) = Some p" using m that by auto
    from write_user_total [OF this] show ?thesis by (auto simp: slice_with_mut_def vs)
  qed
  show ?thesis using ok rd wr by blast
qed

lemma demo_slice:
  obtains s' mgr' vs where
    "alloc_region (\<lambda>_. 0) demo_machine demo_manager (Some 0x4000) demo_desc = Some ((0x4000, 0x6000), s', mgr')"
    "validate_slice s' mgr' \<lparr> size_of = 1, align_of = 1 \<rparr> (slice_readable 0x4F00 2) = Some (Inr vs)"
proof -
  let ?sl = "slice_readable 0x4F00 2" and ?T = "\<lparr> size_of = 1, align_of = 1 \<rparr> :: pointee"
  obtain s' mgr' where a: "alloc_region (\<lambda>_. 0) demo_machine demo_manager (Some 0x4000) demo_desc = Some ((0x4000, 0x6000), s', mgr')"
    by (rule demo_alloc_region)
  have fl: "mgr_page_flags s' mgr' x = Some (Some rw_flags)" if "0x4000 \<le> x" "x < 0x6000" for x
  proof -
    have "in_userspace x" using that(2) unfolding in_userspace_iff by (rule less_trans) simp
    then show ?thesis using alloc_region_spec [OF demo_manager_ok demo_hyps a] that
      by (auto simp: mgr_page_flags_def demo_desc_def)
  qed
  have u: "in_userspace 0x4F00" "in_userspace 0x4F02" "(0x4F00 :: vaddr) \<le> 0x4F02" by (simp_all add: in_userspace_iff)
  have d: "align_down_to 0x4F00 Kilopage = 0x4000" by code_simp
  have rd: "flags_bitand rw_flags FLAG_READ" by code_simp
  have "is_user_region_valid s' mgr' (0x4F00, 0x4F02) (\<lambda>f. flags_bitand f (mode_flags ModeRead)) = Some (Inr ())"
    unfolding is_user_region_valid_iff [OF u] d
  proof (intro allI impI)
    fix x :: vaddr assume x: "0x4000 \<le> x \<and> x \<le> 0x4F02"
    have "x < 0x6000" using conjunct2 [OF x] by (rule le_less_trans) simp
    then show "\<exists>fl. mgr_page_flags s' mgr' x = Some (Some fl) \<and> flags_bitand fl (mode_flags ModeRead)"
      using fl x rd by simp
  qed
  moreover have "vaddr_add 0x4F00 2 = Some 0x4F02" by code_simp
  ultimately have "validate_slice s' mgr' ?T ?sl = Some (Inr \<lparr> vs_addr = 0x4F00, vs_len = 2, vs_mode = ModeRead \<rparr>)"
    by (simp add: validate_slice_def slice_readable_def)
  with a show thesis by (rule that)
qed

theorem validated_slice_accessible_witness:
  "\<exists>s mgr vs. validate_slice s mgr \<lparr> size_of = 1, align_of = 1 \<rparr> (slice_readable 0x4F00 2) = Some (Inr vs) \<and>
    (\<exists>bs. slice_with s mgr \<lparr> size_of = 1, align_of = 1 \<rparr> vs = Some bs \<and> length bs = 2)"
proof -
  obtain s mgr vs where
    v: "validate_slice s mgr \<lparr> size_of = 1, align_of = 1 \<rparr> (slice_readable 0x4F00 2) = Some (Inr vs)"
    by (rule demo_slice)
  have n: "slice_bytes \<lparr> size_of = 1, align_of = 1 \<rparr> (rs_len (slice_readable 0x4F00 2)) = 2"
    by (simp add: slice_bytes_def slice_readable_def)
  have k: "\<not> is_kernel_region (rs_addr (slice_readable 0x4F00 2))" by (simp add: slice_readable_def is_kernel_region_iff)
  have l: "slice_bytes \<lparr> size_of = 1, align_of = 1 \<rparr> (rs_len (slice_readable 0x4F00 2)) < 2 ^ 64" unfolding n by simp
  show ?thesis using v k validated_slice_accessible [OF v l] unfolding n by blast
qed

text \<open>
  C27. Validation accepts slices of kernel memory: in every state, every slice that starts in the kernel's half and
  ends in the last page of the address space is accepted, to be read and written, because the rounded-up end wraps
  to 0 and no page is checked.
\<close>

theorem validate_slice_accepts_kernel:
  assumes "is_kernel_region a" "unat a + unat len < 2 ^ 64" "0xFFFFFFFFFFFFF000 \<le> a + len"
  shows "validate_slice s mgr \<lparr> size_of = 1, align_of = 1 \<rparr> (slice_writable a len) =
      Some (Inr \<lparr> vs_addr = a, vs_len = len, vs_mode = ModeReadWrite \<rparr>)"
proof -
  have u: "unat (a + len) = unat a + unat len" using assms(2) unat_add_lem [of a len] by simp
  then have le: "a \<le> a + len" by (simp add: word_le_nat_alt)
  have k: "is_kernel_region (a + len)"
    using assms(1) le by (simp add: is_kernel_region_iff bit_last_iff_le word_le_nat_alt)
  have "checked_add a len = Some (a + len)" using u assms(2) by (simp add: checked_add_Some_iff)
  then have "vaddr_add a len = Some (a + len)" using assms(1) k by (simp add: vaddr_add_def vaddr_checked_add_def Let_def)
  moreover have "is_user_region_valid s mgr (a, a + len) (\<lambda>f. flags_bitand f (mode_flags ModeReadWrite)) = Some (Inr ())"
    unfolding check_first_kernel [OF assms(1)] last_page_wraps [OF le] by (rule assms(3))
  ultimately show ?thesis by (simp add: validate_slice_def slice_writable_def)
qed

theorem validate_slice_accepts_kernel_witness:
  "is_kernel_region 0xFFFFFFFFC0000000 \<and>
   validate_slice demo_machine demo_manager \<lparr> size_of = 1, align_of = 1 \<rparr> (slice_writable 0xFFFFFFFFC0000000 0x3FFFF000) =
     Some (Inr \<lparr> vs_addr = 0xFFFFFFFFC0000000, vs_len = 0x3FFFF000, vs_mode = ModeReadWrite \<rparr>)"
proof -
  have k: "is_kernel_region 0xFFFFFFFFC0000000" by (simp add: is_kernel_region_iff)
  show ?thesis using k validate_slice_accepts_kernel [OF k, of "0x3FFFF000"] by simp
qed

text \<open>
  A slice whose number of bytes does not fit a \<open>usize\<close> is checked for the wrapped product only: with elements of 32
  bytes and \<open>2^59\<close> of them, one mapped page is enough for a slice as long as the whole address space.
\<close>

lemma overflowing_slice_accepted:
  assumes "\<forall>x. align_down_to a Kilopage \<le> x \<and> x \<le> a \<longrightarrow>
      (\<exists>fl. mgr_page_flags s mgr x = Some (Some fl) \<and> flags_bitand fl FLAG_READ)"
    and "in_userspace a" "a mod 8 = 0"
  shows "validate_slice s mgr \<lparr> size_of = 32, align_of = 8 \<rparr> (slice_readable a 0x800000000000000) =
      Some (Inr \<lparr> vs_addr = a, vs_len = 0x800000000000000, vs_mode = ModeRead \<rparr>) \<and>
    slice_bytes \<lparr> size_of = 32, align_of = 8 \<rparr> 0x800000000000000 = 2 ^ 64"
proof -
  have "unat a < 0x3FFFFFFFFF" using assms(2) by (simp add: in_userspace_iff word_less_nat_alt)
  then have "vaddr_add a 0 = Some a" unfolding vaddr_add_def vaddr_checked_add_user [OF assms(2)] by simp
  moreover have "(32 :: usize) * 0x800000000000000 = 0" by code_simp
  ultimately have "vaddr_add a (32 * 0x800000000000000) = Some a" by (rule ssubst [rotated])
  moreover have "is_user_region_valid s mgr (a, a) (\<lambda>f. flags_bitand f FLAG_READ) = Some (Inr ())"
    unfolding is_user_region_valid_iff [OF assms(2,2) order_refl] using assms(1) .
  ultimately show ?thesis using assms(3) by (simp add: validate_slice_def slice_readable_def slice_bytes_def)
qed

text \<open>
  A task chooses the address and the length of a slice, and the end of the slice is computed with
  \<^const>\<open>vaddr_add\<close>, which panics when it leaves user space: such a slice brings the kernel down
  instead of being refused.
\<close>

lemma huge_slice_panics: "validate_slice s mgr \<lparr> size_of = 1, align_of = 1 \<rparr> (slice_readable 0x3FFFFFF000 0x1000) = None"
proof -
  have "vaddr_add 0x3FFFFFF000 0x1000 = None" by code_simp
  then show ?thesis by (simp add: validate_slice_def slice_readable_def)
qed

end
