(* ===== verification/Channel.thy ===== *)
theory Channel
  imports Scheduler User_Ptr
begin

text \<open>
  Messages between tasks (\<open>syscall/channel.rs\<close>): sending, receiving, and the two system calls on top of
  them, which move capabilities along with a message. A receiver that finds its queue empty blocks; the
  system call is then resumed after a message has woken the task, so it is given in two parts, before
  and after the message is there.
\<close>

section \<open>Senders and receivers\<close>

definition kernel_message :: "KernelMessage \<Rightarrow> ChannelMessage" where
  "kernel_message m = \<lparr> msg_data = into_parts m, msg_caps = [] \<rparr>"

definition push_message :: "Kernel \<Rightarrow> nat \<Rightarrow> ChannelMessage \<Rightarrow> Kernel" where
  "push_message k c msg = wake_one (set_chan k c ((chans k c)\<lparr>chan_queue := chan_queue (chans k c) @ [msg]\<rparr>)) c"

text \<open>
  \<open>Sender::send\<close>. The task on the other side is told through its kernel channel, if it asked for that;
  the queue is locked meanwhile, so a kernel channel that is this channel would deadlock.
\<close>

partial_function (option) chan_send :: "Kernel \<Rightarrow> Sender \<Rightarrow> ChannelMessage \<Rightarrow> ((ChannelMessage + unit) \<times> Kernel) option" where
  "chan_send k s msg =
     (if \<not> chan_alive (chans k (snd_chan s)) then Some (Inl msg, k)
      else
        (case Option.bind (other_tid s) (get_state k) of
           None \<Rightarrow> Some (Inr (), push_message k (snd_chan s) msg)
         | Some st \<Rightarrow>
             if subscribes_to_events st then
               if snd_chan (ch_sender (kernel_channel st)) = snd_chan s then None
               else
                 Option.bind (chan_send k (ch_sender (kernel_channel st)) (kernel_message (NewChannelMessage (other_cptr s))))
                   (\<lambda>(r, k'). case r of
                      Inl e \<Rightarrow> Some (Inl e, k')
                    | Inr _ \<Rightarrow> Some (Inr (), push_message k' (snd_chan s) msg))
             else Some (Inr (), push_message k (snd_chan s) msg)))"

text \<open>One turn of the loop of \<open>Receiver::recv\<close>: a message, or the task waits and another one runs.\<close>

definition chan_recv :: "u64 \<Rightarrow> u64 \<Rightarrow> Kernel \<Rightarrow> nat \<Rightarrow> nat \<Rightarrow> (ChannelMessage option \<times> Kernel) panics" where
  "chan_recv time_out time_in k hart c =
     (case chan_queue (chans k c) of
        m # ms \<Rightarrow> Some (Some m, set_chan k c ((chans k c)\<lparr>chan_queue := ms\<rparr>))
      | [] \<Rightarrow> do { k' \<leftarrow> wait time_out time_in k hart c; Some (None, k') })"

definition try_recv :: "Kernel \<Rightarrow> nat \<Rightarrow> (unit + ChannelMessage option) \<times> Kernel" where
  "try_recv k c =
     (case chan_queue (chans k c) of
        m # ms \<Rightarrow> (Inr (Some m), set_chan k c ((chans k c)\<lparr>chan_queue := ms\<rparr>))
      | [] \<Rightarrow> (if chan_alive (chans k c) then (Inr None, k) else (Inl (), k)))"

section \<open>Values in the memory of a task\<close>

definition of_ne_bytes :: "u8 list \<Rightarrow> usize" where
  "of_ne_bytes bs = fold (\<lambda>(i, b) v. v OR shl (ucast b) (8 * i)) (enumerate 0 (take 8 bs)) 0"

definition capability_type :: pointee where
  "capability_type = \<lparr> size_of = 16, align_of = 8 \<rparr>"

definition capability_description_type :: pointee where
  "capability_description_type = \<lparr> size_of = 48, align_of = 8 \<rparr>"

definition parse_capability :: "u8 list \<Rightarrow> UserCapability" where
  "parse_capability bs = \<lparr> uc_cptr = of_ne_bytes bs, uc_rights = of_ne_bytes (drop 8 bs) \<rparr>"

text \<open>A \<open>Channel\<close> description has no fields after its tag.\<close>

fun description_bytes :: "CapabilityDescription \<Rightarrow> u8 list" where
  "description_bytes DescChannel = ne_bytes 0"
| "description_bytes (DescMemory ptr len perms) = ne_bytes 1 @ ne_bytes ptr @ ne_bytes len @ ne_bytes perms"
| "description_bytes (DescMappedMmio ptr len n) = ne_bytes 2 @ ne_bytes ptr @ ne_bytes len @ ne_bytes n"

definition capability_bytes :: "CapabilityWithDescription \<Rightarrow> u8 list" where
  "capability_bytes c =
     ne_bytes (uc_cptr (cd_capability c)) @ ne_bytes (uc_rights (cd_capability c)) @ description_bytes (cd_description c)"

section \<open>Sending\<close>

fun channel_of :: "rights \<Rightarrow> Capability option \<Rightarrow> UserspaceChannel option" where
  "channel_of right (Some cap) =
     (case cap_resource cap of
        ChannelCap ch \<Rightarrow> (if rights_bitand (cap_rights cap) right then Some ch else None)
      | _ \<Rightarrow> None)"
| "channel_of right None = None"

fun is_shared_memory :: "CapabilityResource \<Rightarrow> bool" where
  "is_shared_memory (SharedMemory _ _ _) = True"
| "is_shared_memory _ = False"

text \<open>A capability may be sent by a task that holds it with the rights it names and may grant it.\<close>

definition sendable :: "CapabilitySpace \<Rightarrow> UserCapability \<Rightarrow> Capability option" where
  "sendable cs u =
     (case cap_resolve cs (uc_cptr u) of
        Some cap \<Rightarrow>
          if is_superset (cap_rights cap) (uc_rights u) \<and> rights_bitand (cap_rights cap) RIGHT_GRANT \<and>
             \<not> (is_shared_memory (cap_resource cap) \<and> rights_bitand (cap_rights cap) RIGHT_WRITE \<and>
                \<not> rights_bitand (cap_rights cap) RIGHT_READ)
          then Some cap else None
      | None \<Rightarrow> None)"

definition clone_caps :: "Kernel \<Rightarrow> Capability list \<Rightarrow> Kernel" where
  "clone_caps k caps = fold (\<lambda>cap k. clone_resource k (cap_resource cap)) caps k"

text \<open>The capabilities named by the slice at \<open>addr\<close>, one after the other; those cloned before an error are dropped again.\<close>

fun collect_from :: "Kernel \<Rightarrow> MutableState \<Rightarrow> vaddr \<Rightarrow> nat \<Rightarrow> (SyscallError + Capability list) panics" where
  "collect_from k st addr 0 = Some (Inr [])"
| "collect_from k st addr (Suc n) = do {
     bs \<leftarrow> read_user (machine k) (memory_manager st) addr 16;
     (case sendable (cspace st) (parse_capability bs) of
        None \<Rightarrow> Some (Inl (InvalidArgument 2))
      | Some cap \<Rightarrow> do {
          r \<leftarrow> collect_from k st (addr + 16) n;
          Some (case r of Inl e \<Rightarrow> Inl e | Inr caps \<Rightarrow> Inr (cap # caps))
        })
   }"

definition collect_caps ::
  "Kernel \<Rightarrow> MutableState \<Rightarrow> vaddr \<Rightarrow> usize \<Rightarrow> (SyscallError + Capability list) panics" where
  "collect_caps k st addr n =
     (if n = 0 then Some (Inr [])
      else do {
        v \<leftarrow> validate_slice (machine k) (memory_manager st) capability_type
               \<lparr> rs_addr = addr, rs_len = n, rs_mode = ModeRead \<rparr>;
        (case v of
           Inl _ \<Rightarrow> Some (Inl (InvalidArgument 3))
         | Inr sl \<Rightarrow> collect_from k st (vs_addr sl) (unat (vs_len sl)))
      })"

definition message_data :: "GeneralRegisters \<Rightarrow> usize list" where
  "message_data r = [r_t0 r, r_t1 r, r_t2 r, r_t3 r, r_t4 r, r_t5 r, r_t6 r]"

definition send_message :: "Kernel \<Rightarrow> tid \<Rightarrow> GeneralRegisters \<Rightarrow> ((SyscallError + unit) \<times> Kernel) panics" where
  "send_message k t frame = do {
     st \<leftarrow> get_state k t;
     (case channel_of RIGHT_WRITE (cap_resolve (cspace st) (r_a1 frame)) of
        None \<Rightarrow> Some (Inl (InvalidArgument 0), k)
      | Some channel \<Rightarrow> do {
          caps \<leftarrow> collect_caps k st (vaddr_new (r_a2 frame)) (r_a3 frame);
          (case caps of
             Inl e \<Rightarrow> Some (Inl e, k)
           | Inr caps \<Rightarrow> do {
               (r, k') \<leftarrow> chan_send (clone_caps k caps) (ch_sender channel)
                 \<lparr> msg_data = message_data frame, msg_caps = caps \<rparr>;
               _ \<leftarrow> unwrap r;
               Some (Inr (), k')
             })
        })
   }"

section \<open>Receiving\<close>

definition set_manager :: "Kernel \<Rightarrow> tid \<Rightarrow> Machine \<Rightarrow> UserspaceMemoryManager \<Rightarrow> Kernel" where
  "set_manager k t s mgr = modify_state (k\<lparr>machine := s\<rparr>) t (\<lambda>st. st\<lparr>memory_manager := mgr\<rparr>)"

definition set_cspace :: "Kernel \<Rightarrow> tid \<Rightarrow> CapabilitySpace \<Rightarrow> Kernel" where
  "set_cspace k t cs = modify_state k t (\<lambda>st. st\<lparr>cspace := cs\<rparr>)"

definition rights_perms :: "rights \<Rightarrow> permissions" where
  "rights_perms r =
     (let p = (if rights_bitand r RIGHT_READ then PERM_READ else 0);
          p = (if rights_bitand r RIGHT_WRITE then perms_bitor p PERM_WRITE else p)
      in if rights_bitand r RIGHT_EXECUTE then perms_bitor p PERM_EXECUTE else p)"

definition rights_flags :: "rights \<Rightarrow> flags" where
  "rights_flags r =
     (let f = flags_bitor FLAG_VALID FLAG_USER;
          f = (if rights_bitand r RIGHT_READ then flags_bitor f FLAG_READ else f);
          f = (if rights_bitand r RIGHT_WRITE then flags_bitor f FLAG_WRITE else f)
      in if rights_bitand r RIGHT_EXECUTE then flags_bitor f FLAG_EXECUTE else f)"

text \<open>A channel that is passed on is replaced by a new one between the receiver and the task at its other side.\<close>

definition install_channel ::
  "Kernel \<Rightarrow> tid \<Rightarrow> UserspaceChannel \<Rightarrow> rights \<Rightarrow> ((cptr \<times> CapabilityDescription) option \<times> Kernel) panics" where
  "install_channel k t channel r =
     (case other_tid (ch_sender channel) of
        None \<Rightarrow> Some (None, k)
      | Some other \<Rightarrow>
          if other = t then Some (None, k)
          else
            (case get_state k other of
               None \<Rightarrow> Some (None, k)
             | Some other_st \<Rightarrow> do {
                 st \<leftarrow> get_state k t;
                 let ((c1, c2), k1) = userspace_channel_new k;
                 let this_cptr = next_cptr (cspace st);
                 let other_cptr = next_cptr (cspace other_st);
                 let c1 = c1\<lparr>ch_sender := (ch_sender c1)\<lparr>other_tid := Some t, other_cptr := this_cptr\<rparr>\<rparr>;
                 let c2 = c2\<lparr>ch_sender := (ch_sender c2)\<lparr>other_tid := Some other, other_cptr := other_cptr\<rparr>\<rparr>;
                 let k2 = set_cspace k1 other
                   (snd (mint_with (cspace other_st) (\<lambda>_. \<lparr> cap_resource = ChannelCap c1, cap_rights = r \<rparr>)));
                 let k3 = set_cspace k2 t
                   (snd (mint_with (cspace st) (\<lambda>_. \<lparr> cap_resource = ChannelCap c2, cap_rights = r \<rparr>)));
                 Some (Some (this_cptr, DescChannel), k3)
               }))"

definition install_shared_memory ::
  "(nat \<Rightarrow> usize) \<Rightarrow> Kernel \<Rightarrow> tid \<Rightarrow> UniquePhysicalRegion \<Rightarrow> AddressRegionKind \<Rightarrow> rights \<Rightarrow>
   ((cptr \<times> CapabilityDescription) option \<times> Kernel) panics" where
  "install_shared_memory time k t rg kd r = do {
     st \<leftarrow> get_state k t;
     let k1 = arc_clone k rg;
     (addr, s, mgr) \<leftarrow> apply_shared_region time (machine k1) (memory_manager st) None (rights_flags r) rg kd;
     (c, cs) \<leftarrow> mint (cspace st) \<lparr> cap_resource = SharedMemory rg addr kd, cap_rights = r \<rparr>;
     Some (Some (c, DescMemory (fst addr) (snd addr - fst addr) (rights_perms r)),
       set_cspace (set_manager k1 t s mgr) t cs)
   }"

text \<open>Interrupts of a device are routed to the task that holds it.\<close>

definition route_interrupt :: "nat \<Rightarrow> tid \<Rightarrow> usize \<Rightarrow> Kernel \<Rightarrow> Kernel panics" where
  "route_interrupt hart t interrupt k = do {
     plic \<leftarrow> the_plic k;
     let ctx = current_plic_context (of_nat hart);
     plic \<leftarrow> enable_interrupt plic ctx interrupt;
     plic \<leftarrow> set_context_threshold plic ctx 0;
     plic \<leftarrow> set_interrupt_priority plic interrupt 7;
     register_isr (k\<lparr>the_plic := Some plic\<rparr>) interrupt t
   }"

definition install_mmio ::
  "(nat \<Rightarrow> usize) \<Rightarrow> Kernel \<Rightarrow> nat \<Rightarrow> tid \<Rightarrow> paddr \<times> paddr \<Rightarrow> usize list \<Rightarrow> rights \<Rightarrow>
   ((cptr \<times> CapabilityDescription) option \<times> Kernel) panics" where
  "install_mmio time k hart t p interrupts r = do {
     st \<leftarrow> get_state k t;
     (virt, s, mgr) \<leftarrow> map_mmio_device time (machine k) (memory_manager st) (fst p) None (snd p - fst p);
     let k1 = set_manager k t s mgr;
     _ \<leftarrow> the_plic k1;
     k2 \<leftarrow> for_loop (route_interrupt hart t) interrupts k1;
     (c, cs) \<leftarrow> mint (cspace st) \<lparr> cap_resource = MmioCap p virt interrupts, cap_rights = r \<rparr>;
     Some (Some (c, DescMappedMmio (fst virt) (snd p - fst p) (of_nat (length interrupts))), set_cspace k2 t cs)
   }"

fun install_cap ::
  "(nat \<Rightarrow> usize) \<Rightarrow> Kernel \<Rightarrow> nat \<Rightarrow> tid \<Rightarrow> Capability \<Rightarrow> ((cptr \<times> CapabilityDescription) option \<times> Kernel) panics" where
  "install_cap time k hart t cap =
     (case cap_resource cap of
        ChannelCap channel \<Rightarrow> install_channel k t channel (cap_rights cap)
      | SharedMemory rg _ kd \<Rightarrow> install_shared_memory time k t rg kd (cap_rights cap)
      | MmioCap p _ interrupts \<Rightarrow> install_mmio time k hart t p interrupts (cap_rights cap))"

text \<open>The loop over the buffer for the received capabilities, from its entry \<open>i\<close> at \<open>addr\<close>.\<close>

fun install_caps ::
  "(nat \<Rightarrow> nat \<Rightarrow> usize) \<Rightarrow> Kernel \<Rightarrow> nat \<Rightarrow> tid \<Rightarrow> vaddr \<Rightarrow> nat \<Rightarrow> Capability list \<Rightarrow> Kernel panics" where
  "install_caps time k hart t addr i [] = Some k"
| "install_caps time k hart t addr i (cap # caps) = do {
     (r, k1) \<leftarrow> install_cap (time i) k hart t cap;
     k2 \<leftarrow> (case r of
         None \<Rightarrow> Some k1
       | Some (c, desc) \<Rightarrow> do {
           st \<leftarrow> get_state k1 t;
           s \<leftarrow> write_user (machine k1) (memory_manager st) addr
             (capability_bytes \<lparr> cd_capability = \<lparr> uc_cptr = c, uc_rights = cap_rights cap \<rparr>, cd_description = desc \<rparr>);
           Some (k1\<lparr>machine := s\<rparr>)
         });
     install_caps time k2 hart t (addr + 48) (Suc i) caps
   }"

definition drop_caps :: "Kernel \<Rightarrow> Capability list \<Rightarrow> Kernel panics" where
  "drop_caps k caps = for_loop (\<lambda>cap k. drop_resource k (cap_resource cap)) caps k"

definition set_message :: "GeneralRegisters \<Rightarrow> usize list \<Rightarrow> usize \<Rightarrow> usize \<Rightarrow> GeneralRegisters" where
  "set_message r d written remaining =
     r\<lparr>r_a1 := written, r_a2 := remaining, r_t0 := d ! 0, r_t1 := d ! 1, r_t2 := d ! 2, r_t3 := d ! 3,
       r_t4 := d ! 4, r_t5 := d ! 5, r_t6 := d ! 6\<rparr>"

text \<open>The rest of \<open>read_message\<close> once a message has been taken from the queue \<open>c\<close>.\<close>

definition read_finish ::
  "(nat \<Rightarrow> nat \<Rightarrow> usize) \<Rightarrow> Kernel \<Rightarrow> nat \<Rightarrow> tid \<Rightarrow> nat \<Rightarrow> GeneralRegisters \<Rightarrow> ChannelMessage \<Rightarrow>
   ((SyscallError + unit) \<times> GeneralRegisters \<times> Kernel) panics" where
  "read_finish time k hart t c regs msg = do {
     st \<leftarrow> get_state k t;
     let len = r_a3 regs;
     let caps = msg_caps msg;
     r \<leftarrow> (if len = 0 then Some (Inr (0, caps, k))
          else do {
            v \<leftarrow> validate_slice (machine k) (memory_manager st) capability_description_type
                   \<lparr> rs_addr = vaddr_new (r_a2 regs), rs_len = len, rs_mode = ModeReadWrite \<rparr>;
            (case v of
               Inl _ \<Rightarrow> do { k' \<leftarrow> drop_caps k caps; Some (Inl k') }
             | Inr sl \<Rightarrow> do {
                 let n = min (unat len) (length caps);
                 k' \<leftarrow> install_caps time k hart t (vs_addr sl) 0 (take n caps);
                 Some (Inr (n, drop n caps, k'))
               })
          });
     (case r of
        Inl k' \<Rightarrow> Some (Inl (InvalidArgument 3), regs, k')
      | Inr (written, rest, k') \<Rightarrow> do {
          let k'' = (if rest \<noteq> []
            then set_chan k' c ((chans k' c)\<lparr>chan_queue := \<lparr> msg_data = replicate 7 0, msg_caps = rest \<rparr> # chan_queue (chans k' c)\<rparr>)
            else k');
          Some (Inr (), set_message regs (msg_data msg) (of_nat written) (of_nat (length rest)), k'')
        })
   }"

text \<open>What a system call comes to: it returns, its task waits in a queue, or its task is gone.\<close>

datatype 'a outcome = Returned 'a | Suspended nat | Exited

definition resume_read ::
  "u64 \<Rightarrow> u64 \<Rightarrow> (nat \<Rightarrow> nat \<Rightarrow> usize) \<Rightarrow> Kernel \<Rightarrow> nat \<Rightarrow> tid \<Rightarrow> nat \<Rightarrow> GeneralRegisters \<Rightarrow>
   (((SyscallError + unit) \<times> GeneralRegisters) outcome \<times> Kernel) panics" where
  "resume_read time_out time_in time k hart t c regs = do {
     (r, k1) \<leftarrow> chan_recv time_out time_in k hart c;
     (case r of
        None \<Rightarrow> Some (Suspended c, k1)
      | Some msg \<Rightarrow> do {
          (res, regs', k2) \<leftarrow> read_finish time k1 hart t c regs msg;
          Some (Returned (res, regs'), k2)
        })
   }"

definition read_message ::
  "u64 \<Rightarrow> u64 \<Rightarrow> (nat \<Rightarrow> nat \<Rightarrow> usize) \<Rightarrow> Kernel \<Rightarrow> nat \<Rightarrow> tid \<Rightarrow> GeneralRegisters \<Rightarrow>
   (((SyscallError + unit) \<times> GeneralRegisters) outcome \<times> Kernel) panics" where
  "read_message time_out time_in time k hart t regs = do {
     st \<leftarrow> get_state k t;
     (case channel_of RIGHT_READ (cap_resolve (cspace st) (r_a1 regs)) of
        None \<Rightarrow> Some (Returned (Inl (InvalidArgument 0), regs), k)
      | Some channel \<Rightarrow>
          if read_flags_bitand (r_a4 regs) READ_NONBLOCKING then
            (case try_recv k (ch_receiver channel) of
               (Inr (Some msg), k1) \<Rightarrow> do {
                 (res, regs', k2) \<leftarrow> read_finish time k1 hart t (ch_receiver channel) regs msg;
                 Some (Returned (res, regs'), k2)
               }
             | (Inr None, k1) \<Rightarrow> Some (Returned (Inl WouldBlock, regs), k1)
             | (Inl _, _) \<Rightarrow> panic)
          else resume_read time_out time_in time k hart t (ch_receiver channel) regs)
   }"

section \<open>No lost wake-up\<close>

abbreviation waiters :: "Kernel \<Rightarrow> nat \<Rightarrow> tid list" where
  "waiters k c \<equiv> chan_waiters (chans k c)"

abbreviation queue :: "Kernel \<Rightarrow> nat \<Rightarrow> ChannelMessage list" where
  "queue k c \<equiv> chan_queue (chans k c)"

text \<open>
  \<open>W c\<close> are the tasks that were woken from the queue \<open>c\<close> and have not run since. Waiting tasks are blocked and
  wait in one queue only, and while some task waits there are no more messages than tasks woken for them.
\<close>

definition wake_ok :: "Kernel \<Rightarrow> (nat \<Rightarrow> tid set) \<Rightarrow> bool" where
  "wake_ok k W \<longleftrightarrow> bt_ok (task_list k) \<and>
     (\<forall>c. finite (W c) \<and> distinct (waiters k c) \<and>
        (\<forall>t \<in> set (waiters k c). \<exists>st. get_state k t = Some st \<and> run_state st = Blocked) \<and>
        (\<forall>t \<in> W c. is_ready k t) \<and>
        (waiters k c \<noteq> [] \<longrightarrow> length (queue k c) \<le> card (W c))) \<and>
     (\<forall>c c'. c \<noteq> c' \<longrightarrow> set (waiters k c) \<inter> set (waiters k c') = {})"

lemma wake_okD:
  assumes "wake_ok k W"
  shows "bt_ok (task_list k)" "finite (W c)" "distinct (waiters k c)"
    "t \<in> set (waiters k c) \<Longrightarrow> \<exists>st. get_state k t = Some st \<and> run_state st = Blocked"
    "t \<in> W c \<Longrightarrow> is_ready k t" "waiters k c \<noteq> [] \<Longrightarrow> length (queue k c) \<le> card (W c)"
    "c \<noteq> c' \<Longrightarrow> set (waiters k c) \<inter> set (waiters k c') = {}"
  using assms by (simp_all add: wake_ok_def)

lemma wake_okI:
  assumes "bt_ok (task_list k)" "\<And>c. finite (W c)" "\<And>c. distinct (waiters k c)"
    "\<And>c t. t \<in> set (waiters k c) \<Longrightarrow> \<exists>st. get_state k t = Some st \<and> run_state st = Blocked"
    "\<And>c t. t \<in> W c \<Longrightarrow> is_ready k t" "\<And>c. waiters k c \<noteq> [] \<Longrightarrow> length (queue k c) \<le> card (W c)"
    "\<And>c c'. c \<noteq> c' \<Longrightarrow> set (waiters k c) \<inter> set (waiters k c') = {}"
  shows "wake_ok k W"
  unfolding wake_ok_def by (intro conjI allI ballI impI assms)

definition woken :: "Kernel \<Rightarrow> Kernel \<Rightarrow> (nat \<Rightarrow> tid set) \<Rightarrow> nat \<Rightarrow> tid set" where
  "woken k k' W = (\<lambda>c. W c \<union> (set (waiters k c) - set (waiters k' c)))"

lemma set_chan_simps [simp]:
  "chans (set_chan k c ch) = (chans k)(c := ch)" "get_state (set_chan k c ch) = get_state k"
  "task_list (set_chan k c ch) = task_list k" "current_task (set_chan k c ch) = current_task k"
  "is_ready (set_chan k c ch) = is_ready k" "get_task (set_chan k c ch) = get_task k"
  by (simp_all add: set_chan_def get_state_def get_task_def is_ready_def fun_eq_iff)

lemma set_run_state_simps:
  assumes "bt_ok (task_list k)"
  shows "chans (set_run_state k t r) = chans k" "bt_ok (task_list (set_run_state k t r))"
    "get_state (set_run_state k t r) = (\<lambda>u. if u = t then map_option (\<lambda>s. s\<lparr>run_state := r\<rparr>) (get_state k t) else get_state k u)"
  using get_modify_state [OF assms]
  by (auto simp: set_run_state_def modify_state_def set_task_def split: option.splits)

lemma schedule_frame:
  assumes "schedule time_out time_in k hart = Some k'" "bt_ok (task_list k)"
  shows "chans k' = chans k \<and> get_state k' = get_state k \<and> bt_ok (task_list k') \<and> machine k' = machine k"
proof -
  obtain t pol where nx: "rr_next (is_ready k) (sc_policy (harts k hart)) = (t, pol)" by fastforce
  obtain c where c: "current_task k hart = Some c" using assms(1) by (cases "current_task k hart") (auto simp: schedule_def Let_def)
  show ?thesis
  proof (cases "t = c")
    case True
    then obtain rq where "k' = set_hart k hart ((harts k hart)\<lparr>sc_run_queue := rq, sc_policy := pol\<rparr>)"
      using assms(1) nx c by (auto simp: schedule_def Let_def bind_eq_Some_conv)
    then show ?thesis using assms(2) by (simp add: set_hart_def get_state_def get_task_def fun_eq_iff)
  next
    case False
    then obtain rq out to_task where out: "get_task k c = Some out"
      and k': "k' = load_task (set_task (set_hart k hart ((harts k hart)\<lparr>sc_run_queue := rq, sc_policy := pol\<rparr>)) c
         (out\<lparr>task_context := hart_context k hart\<rparr>)) hart t to_task"
      using assms(1) nx c by (auto simp: schedule_def Let_def bind_eq_Some_conv)
    let ?k1 = "set_hart k hart ((harts k hart)\<lparr>sc_run_queue := rq, sc_policy := pol\<rparr>)"
    let ?out = "out\<lparr>task_context := hart_context k hart\<rparr>"
    have "get_task (set_task ?k1 c ?out) = (get_task k)(c \<mapsto> ?out)"
      using get_set_task [of ?k1 c ?out] assms(2) by (simp add: set_hart_def get_task_def fun_eq_iff)
    then have "get_state k' = get_state k"
      using k' out by (auto simp: load_task_def get_state_def get_task_def fun_eq_iff)
    moreover have "bt_ok (task_list k')"
      using set_task_ok [of ?k1 c ?out] k' assms(2) by (simp add: load_task_def set_hart_def)
    ultimately show ?thesis using k' by (simp add: load_task_def set_task_def set_hart_def)
  qed
qed

lemma set_tl_subset: "x \<in> set (tl xs) \<Longrightarrow> x \<in> set xs"
  by (cases xs) auto

lemma push_message_waiters:
  assumes "bt_ok (task_list k)"
  shows "waiters (push_message k c msg) c' = (if c' = c then tl (waiters k c) else waiters k c')"
    "queue (push_message k c msg) c' = (if c' = c then queue k c @ [msg] else queue k c')"
    "bt_ok (task_list (push_message k c msg))"
    "get_state (push_message k c msg) = (\<lambda>u. if waiters k c \<noteq> [] \<and> u = hd (waiters k c)
       then map_option (\<lambda>s. s\<lparr>run_state := Ready\<rparr>) (get_state k u) else get_state k u)"
proof -
  let ?k = "set_chan k c ((chans k c)\<lparr>chan_queue := chan_queue (chans k c) @ [msg]\<rparr>)"
  have ok: "bt_ok (task_list (set_chan ?k c ch))" for ch using assms by simp
  show "waiters (push_message k c msg) c' = (if c' = c then tl (waiters k c) else waiters k c')"
    "queue (push_message k c msg) c' = (if c' = c then queue k c @ [msg] else queue k c')"
    "bt_ok (task_list (push_message k c msg))"
    "get_state (push_message k c msg) = (\<lambda>u. if waiters k c \<noteq> [] \<and> u = hd (waiters k c)
       then map_option (\<lambda>s. s\<lparr>run_state := Ready\<rparr>) (get_state k u) else get_state k u)"
    using set_run_state_simps [OF ok] assms
    by (auto simp: push_message_def wake_one_def fun_eq_iff split: list.splits)
qed

lemma push_message_wake_ok:
  assumes ok: "wake_ok k W"
  shows "wake_ok (push_message k c msg) (woken k (push_message k c msg) W)"
proof (cases "waiters k c")
  case Nil
  have bt: "bt_ok (task_list k)" using ok by (simp add: wake_ok_def)
  note p = push_message_waiters [OF bt, of c msg]
  have "woken k (push_message k c msg) W = W" using Nil by (simp add: woken_def p fun_eq_iff)
  moreover have "is_ready (push_message k c msg) = is_ready k" using Nil by (simp add: is_ready_def p fun_eq_iff)
  ultimately show ?thesis using ok Nil by (auto simp: wake_ok_def p)
next
  case (Cons t ts)
  have bt: "bt_ok (task_list k)" using ok by (simp add: wake_ok_def)
  note p = push_message_waiters [OF bt, of c msg]
  let ?k = "push_message k c msg"
  have d: "distinct (t # ts)" using wake_okD(3) [OF ok, of c] Cons by simp
  obtain st where st: "get_state k t = Some st" "run_state st = Blocked" using wake_okD(4) [OF ok, of t c] Cons by auto
  have other: "t \<notin> set (waiters k c')" if "c' \<noteq> c" for c' using wake_okD(7) [OF ok that] Cons by auto
  have W: "woken k ?k W = W(c := insert t (W c))" using Cons d by (auto simp: woken_def p fun_eq_iff)
  have tW: "t \<notin> W c'" for c' using wake_okD(5) [OF ok, of t c'] st by (auto simp: is_ready_def)
  have gs: "get_state ?k = (get_state k)(t \<mapsto> st\<lparr>run_state := Ready\<rparr>)" using Cons st by (auto simp: p fun_eq_iff)
  have rd: "is_ready ?k u \<longleftrightarrow> u = t \<or> is_ready k u" for u by (simp add: is_ready_def gs)
  have blocked: "\<exists>s. get_state ?k u = Some s \<and> run_state s = Blocked" if "u \<in> set (waiters ?k c')" for u c'
  proof -
    have "u \<in> set (waiters k c')" using that Cons by (auto simp: p split: if_splits)
    moreover have "u \<noteq> t" using that Cons d other by (auto simp: p split: if_splits)
    ultimately show ?thesis using wake_okD(4) [OF ok] gs by simp
  qed
  have len: "length (queue ?k c') \<le> card ((W(c := insert t (W c))) c')" if "waiters ?k c' \<noteq> []" for c'
  proof -
    have "waiters k c' \<noteq> []" using that Cons by (auto simp: p split: if_splits)
    then have "length (queue k c') \<le> card (W c')" by (rule wake_okD(6) [OF ok])
    then show ?thesis using wake_okD(2) [OF ok, of c] tW [of c] by (auto simp: p)
  qed
  have dist: "distinct (waiters ?k c')" for c' using wake_okD(3) [OF ok, of c'] d Cons by (simp add: p)
  have disj: "set (waiters ?k c') \<inter> set (waiters ?k c'') = {}" if "c' \<noteq> c''" for c' c''
  proof -
    have "set (waiters ?k a) \<subseteq> set (waiters k a)" for a using Cons by (auto simp: p)
    then show ?thesis using wake_okD(7) [OF ok that] by blast
  qed
  have fin: "finite ((W(c := insert t (W c))) c')" for c' using wake_okD(2) [OF ok] by simp
  have ready: "is_ready ?k u" if "u \<in> (W(c := insert t (W c))) c'" for u c'
    using that wake_okD(5) [OF ok] rd by (auto split: if_splits)
  show ?thesis unfolding W by (rule wake_okI) (fact p(3) fin dist blocked ready len disj)+
qed

lemma woken_trans:
  assumes "\<And>c. set (waiters k2 c) \<subseteq> set (waiters k1 c)" "\<And>c. set (waiters k3 c) \<subseteq> set (waiters k2 c)"
  shows "woken k2 k3 (woken k1 k2 W) = woken k1 k3 W"
  using assms by (fastforce simp: woken_def fun_eq_iff)

lemma send_result:
  "(case r of Inl e \<Rightarrow> Some (f e, k1) | Inr x \<Rightarrow> Some (g x, k2)) = Some (r', k') \<Longrightarrow> k' = k1 \<or> k' = k2"
  by (cases r) auto

definition send_keeps :: "Kernel \<Rightarrow> Kernel \<Rightarrow> bool" where
  "send_keeps k k' \<longleftrightarrow>
     (\<forall>W. wake_ok k W \<longrightarrow> wake_ok k' (woken k k' W) \<and> (\<forall>c. set (waiters k' c) \<subseteq> set (waiters k c)))"

lemma chan_send_wake_ok:
  assumes "chan_send k s msg = Some y"
  shows "send_keeps k (snd y)"
proof (rule chan_send.raw_induct [where P = "\<lambda>k s msg y. send_keeps k (snd y)", OF _ assms])
  fix send k s msg y
  assume IH: "\<And>k s msg y. send k s msg = Some y \<Longrightarrow> send_keeps k (snd y)"
    and body: "(if \<not> chan_alive (chans k (snd_chan s)) then Some (Inl msg, k)
      else
        (case Option.bind (other_tid s) (get_state k) of
           None \<Rightarrow> Some (Inr (), push_message k (snd_chan s) msg)
         | Some st \<Rightarrow>
             if subscribes_to_events st then
               if snd_chan (ch_sender (kernel_channel st)) = snd_chan s then None
               else
                 Option.bind (send k (ch_sender (kernel_channel st)) (kernel_message (NewChannelMessage (other_cptr s))))
                   (\<lambda>(r, k'). case r of
                      Inl e \<Rightarrow> Some (Inl e, k')
                    | Inr _ \<Rightarrow> Some (Inr (), push_message k' (snd_chan s) msg))
             else Some (Inr (), push_message k (snd_chan s) msg))) = Some y"
  obtain r k' where y: "y = (r, k')" by fastforce
  have push: "wake_ok (push_message k1 c m) (woken k1 (push_message k1 c m) W) \<and>
      (\<forall>c'. set (waiters (push_message k1 c m) c') \<subseteq> set (waiters k1 c'))" if w: "wake_ok k1 W" for k1 c m W
  proof -
    have "bt_ok (task_list k1)" using w by (simp add: wake_ok_def)
    then show ?thesis using push_message_wake_ok [OF w]
      by (auto simp: push_message_waiters dest: set_tl_subset)
  qed
  show "send_keeps k (snd y)" unfolding send_keeps_def y snd_conv
  proof (intro allI impI)
    fix W assume w: "wake_ok k W"
    have same: "wake_ok k (woken k k W)" using w by (simp add: woken_def)
    show "wake_ok k' (woken k k' W) \<and> (\<forall>c. set (waiters k' c) \<subseteq> set (waiters k c))"
    proof (cases "k' = k \<or> k' = push_message k (snd_chan s) msg")
      case True
      then show ?thesis using push [OF w] same by auto
    next
      case False
      then obtain ks m r1 k1 where k1: "send k ks m = Some (r1, k1)" "k' = k1 \<or> k' = push_message k1 (snd_chan s) msg"
        using body y by (auto simp: bind_eq_Some_conv dest!: send_result split: if_splits option.splits)
      have i: "wake_ok k1 (woken k k1 W)" "\<And>c. set (waiters k1 c) \<subseteq> set (waiters k c)" using IH [OF k1(1)] w by (auto simp: send_keeps_def)
      show ?thesis
      proof (cases "k' = k1")
        case True
        then show ?thesis using i by auto
      next
        case False
        then have k': "k' = push_message k1 (snd_chan s) msg" using k1(2) by simp
        have s2: "\<And>c. set (waiters k' c) \<subseteq> set (waiters k1 c)" using push [OF i(1)] k' by auto
        have "woken k1 k' (woken k k1 W) = woken k k' W" by (rule woken_trans [OF i(2) s2])
        then show ?thesis using push [OF i(1), of "snd_chan s" msg] i(2) s2 k' by (metis subset_trans)
      qed
    qed
  qed
qed

text \<open>
  The steps of the kernel on the queues: a send, by whichever task or interrupt; a turn of a blocking receive, by the
  running task, which first resumes the receive it was woken from; a receive that does not block; the return of the
  capabilities that did not fit, by the task that read them; a switch of the running task, as a timer interrupt makes
  it; and any other step, which leaves the queues, the waiting and the woken tasks alone. A blocked task takes no
  step. \<open>sole c\<close> is the task that holds the receiver of the queue \<open>c\<close>, when there is only one: capabilities are put
  back only into such a queue, without waking anybody.
\<close>

definition waits_alone :: "Kernel \<Rightarrow> (nat \<Rightarrow> tid set) \<Rightarrow> Kernel \<Rightarrow> bool" where
  "waits_alone k W k' \<longleftrightarrow> bt_ok (task_list k') \<and> (\<forall>c. waiters k' c = waiters k c \<and> queue k' c = queue k c \<and>
     (\<forall>t \<in> set (waiters k c) \<union> W c. map_option run_state (get_state k' t) = map_option run_state (get_state k t)))"

inductive chan_step ::
  "(nat \<Rightarrow> tid option) \<Rightarrow> Kernel \<times> (nat \<Rightarrow> tid set) \<Rightarrow> Kernel \<times> (nat \<Rightarrow> tid set) \<Rightarrow> bool" for sole where
  send: "chan_send k s msg = Some (r, k') \<Longrightarrow> chan_step sole (k, W) (k', woken k k' W)"
| recv: "current_task k hart = Some t \<Longrightarrow> is_ready k t \<Longrightarrow> \<forall>c'. c' \<noteq> c \<longrightarrow> t \<notin> W c' \<Longrightarrow>
    sole c = None \<or> sole c = Some t \<Longrightarrow>
    chan_recv time_out time_in k hart c = Some (r, k') \<Longrightarrow> chan_step sole (k, W) (k', W(c := W c - {t}))"
| try_recv: "try_recv k c = (r, k') \<Longrightarrow> chan_step sole (k, W) (k', W)"
| put_back: "current_task k hart = Some t \<Longrightarrow> is_ready k t \<Longrightarrow> sole c = Some t \<Longrightarrow>
    chan_step sole (k, W) (set_chan k c ((chans k c)\<lparr>chan_queue := msg # queue k c\<rparr>), W)"
| switch: "schedule time_out time_in k hart = Some k' \<Longrightarrow> chan_step sole (k, W) (k', W)"
| other: "waits_alone k W k' \<Longrightarrow> chan_step sole (k, W) (k', W)"

lemma set_queue_wake_ok:
  assumes "wake_ok k W" "length q \<le> length (queue k c) \<or> waiters k c = []"
  shows "wake_ok (set_chan k c ((chans k c)\<lparr>chan_queue := q\<rparr>)) W"
  using assms by (fastforce simp: wake_ok_def)

lemma recv_wake_ok:
  assumes ok: "wake_ok k W" and cur: "current_task k hart = Some t" and rd: "is_ready k t"
    and own: "\<forall>c'. c' \<noteq> c \<longrightarrow> t \<notin> W c'" and r: "chan_recv time_out time_in k hart c = Some (r, k')"
  shows "wake_ok k' (W(c := W c - {t}))"
proof (cases "queue k c")
  case (Cons m ms)
  then have k': "k' = set_chan k c ((chans k c)\<lparr>chan_queue := ms\<rparr>)" using r by (simp add: chan_recv_def)
  have "length ms \<le> card (W c - {t})" if "waiters k c \<noteq> []"
  proof -
    have "Suc (length ms) \<le> card (W c)" using wake_okD(6) [OF ok that] Cons by simp
    moreover have "card (W c) \<le> Suc (card (W c - {t}))"
      using wake_okD(2) [OF ok, of c] by (cases "t \<in> W c") (simp_all add: card_Suc_Diff1)
    ultimately show ?thesis by linarith
  qed
  then show ?thesis using ok k' by (auto simp: wake_ok_def)
next
  case Nil
  have bt: "bt_ok (task_list k)" using ok by (simp add: wake_ok_def)
  obtain st where st: "get_state k t = Some st" "run_state st = Ready" using rd by (auto simp: is_ready_def split: option.splits)
  have free: "t \<notin> set (waiters k c')" for c' using wake_okD(4) [OF ok, of t c'] st by auto
  let ?k1 = "set_chan k c ((chans k c)\<lparr>chan_waiters := waiters k c @ [t]\<rparr>)"
  let ?k2 = "set_run_state ?k1 t Blocked"
  have sched: "schedule time_out time_in ?k2 hart = Some k'"
    using r Nil cur by (auto simp: chan_recv_def wait_def Let_def bind_eq_Some_conv)
  have bt1: "bt_ok (task_list ?k1)" using bt by simp
  note s2 = set_run_state_simps [OF bt1, of t Blocked]
  have k': "chans k' = (chans k)(c := (chans k c)\<lparr>chan_waiters := waiters k c @ [t]\<rparr>)"
    "get_state k' = (get_state k)(t \<mapsto> st\<lparr>run_state := Blocked\<rparr>)" "bt_ok (task_list k')"
    using schedule_frame [OF sched] s2 st by (auto simp: fun_eq_iff)
  have rd': "is_ready k' u \<longleftrightarrow> u \<noteq> t \<and> is_ready k u" for u by (simp add: is_ready_def k')
  show ?thesis
  proof (rule wake_okI)
    show "bt_ok (task_list k')" by (rule k'(3))
    show "finite ((W(c := W c - {t})) c')" for c' using wake_okD(2) [OF ok] by simp
    show "distinct (waiters k' c')" for c' using wake_okD(3) [OF ok, of c'] free [of c] by (cases "c' = c") (simp_all add: k')
    show "\<exists>s. get_state k' u = Some s \<and> run_state s = Blocked" if "u \<in> set (waiters k' c')" for u c'
      using that wake_okD(4) [OF ok, of u c'] by (auto simp: k' split: if_splits)
    show "is_ready k' u" if "u \<in> (W(c := W c - {t})) c'" for u c'
      using that wake_okD(5) [OF ok] own rd' by (auto split: if_splits)
    show "length (queue k' c') \<le> card ((W(c := W c - {t})) c')" if "waiters k' c' \<noteq> []" for c'
      using that wake_okD(6) [OF ok, of c'] Nil by (auto simp: k' split: if_splits)
    show "set (waiters k' a) \<inter> set (waiters k' b) = {}" if "a \<noteq> b" for a b
      using wake_okD(7) [OF ok that] free [of a] free [of b] that by (auto simp: k')
  qed
qed

text \<open>A queue with one receiver has only that task waiting or woken.\<close>

definition sole_ok :: "(nat \<Rightarrow> tid option) \<Rightarrow> Kernel \<Rightarrow> (nat \<Rightarrow> tid set) \<Rightarrow> bool" where
  "sole_ok sole k W \<longleftrightarrow> (\<forall>c t. sole c = Some t \<longrightarrow> set (waiters k c) \<union> W c \<subseteq> {t})"

lemma sole_ok_mono:
  assumes "sole_ok sole k W" "\<And>c. set (waiters k' c) \<union> W' c \<subseteq> set (waiters k c) \<union> W c"
  shows "sole_ok sole k' W'"
  using assms unfolding sole_ok_def by (meson subset_trans)

lemma switch_wake_ok:
  assumes "schedule time_out time_in k hart = Some k'" "wake_ok k W"
  shows "wake_ok k' W \<and> chans k' = chans k"
proof -
  note f = schedule_frame [OF assms(1) wake_okD(1) [OF assms(2)]]
  then have "is_ready k' = is_ready k" by (simp add: is_ready_def fun_eq_iff)
  then show ?thesis using f assms(2) by (simp add: wake_ok_def)
qed

lemma other_wake_ok:
  assumes "waits_alone k W k'" "wake_ok k W"
  shows "wake_ok k' W"
proof (rule wake_okI)
  have q: "waiters k' c = waiters k c" "queue k' c = queue k c" for c using assms(1) by (simp_all add: waits_alone_def)
  have st: "map_option run_state (get_state k' t) = map_option run_state (get_state k t)" if "t \<in> set (waiters k c) \<union> W c" for t c
    using assms(1) that unfolding waits_alone_def by blast
  show "bt_ok (task_list k')" using assms(1) by (simp add: waits_alone_def)
  show "finite (W c)" "distinct (waiters k' c)" for c using wake_okD(2,3) [OF assms(2)] q by simp_all
  show "\<exists>st. get_state k' t = Some st \<and> run_state st = Blocked" if t: "t \<in> set (waiters k' c)" for t c
  proof -
    obtain s where "get_state k t = Some s" "run_state s = Blocked" using wake_okD(4) [OF assms(2)] t q by metis
    then show ?thesis using st [of t c] t q by (cases "get_state k' t") auto
  qed
  show "is_ready k' t" if t: "t \<in> W c" for t c
    using wake_okD(5) [OF assms(2) t] st [of t c] t
    by (cases "get_state k' t"; cases "get_state k t") (auto simp: is_ready_def)
  show "length (queue k' c) \<le> card (W c)" if "waiters k' c \<noteq> []" for c using wake_okD(6) [OF assms(2)] that q by simp
  show "set (waiters k' c) \<inter> set (waiters k' c') = {}" if "c \<noteq> c'" for c c' using wake_okD(7) [OF assms(2) that] q by simp
qed

lemma recv_waiters:
  assumes "bt_ok (task_list k)" "current_task k hart = Some t" "chan_recv time_out time_in k hart c = Some (r, k')"
  shows "set (waiters k' c') \<subseteq> set (waiters k c') \<union> (if c' = c then {t} else {})"
proof (cases "queue k c")
  case Nil
  let ?k1 = "set_chan k c ((chans k c)\<lparr>chan_waiters := waiters k c @ [t]\<rparr>)"
  have bt1: "bt_ok (task_list ?k1)" using assms(1) by simp
  note s2 = set_run_state_simps [OF bt1, of t Blocked]
  have "schedule time_out time_in (set_run_state ?k1 t Blocked) hart = Some k'"
    using assms(2,3) Nil by (auto simp: chan_recv_def wait_def Let_def bind_eq_Some_conv)
  then show ?thesis using schedule_frame [of time_out time_in "set_run_state ?k1 t Blocked" hart k'] s2 by auto
qed (use assms(3) in \<open>auto simp: chan_recv_def\<close>)

lemma put_back_nobody:
  assumes "wake_ok k W" "sole_ok sole k W" "is_ready k t" "sole c = Some t"
  shows "waiters k c = []"
proof -
  have "u \<notin> set (waiters k c)" for u
  proof
    assume u: "u \<in> set (waiters k c)"
    then have "u = t" using assms(2,4) by (auto simp: sole_ok_def)
    then show False using wake_okD(4) [OF assms(1) u] assms(3) by (auto simp: is_ready_def)
  qed
  then show ?thesis by (cases "waiters k c") auto
qed

lemma chan_step_ok:
  assumes "chan_step sole (k, W) (k', W')" "wake_ok k W" "sole_ok sole k W"
  shows "wake_ok k' W' \<and> sole_ok sole k' W'"
  using assms(1)
proof (cases rule: chan_step.cases)
  case (send s msg r)
  then have w: "wake_ok k' W'" and sub: "\<And>c. set (waiters k' c) \<subseteq> set (waiters k c)"
    using chan_send_wake_ok [of k s msg] assms(2) by (auto simp: send_keeps_def)
  have "sole_ok sole k' W'" by (rule sole_ok_mono [OF assms(3)]) (use sub send in \<open>auto simp: woken_def\<close>)
  with w show ?thesis by blast
next
  case (recv hart t c time_out time_in r)
  have "wake_ok k' W'" using recv recv_wake_ok [OF assms(2)] by blast
  moreover have "sole_ok sole k' W'"
    unfolding sole_ok_def
  proof (intro allI impI)
    fix c' u assume u: "sole c' = Some u"
    have "set (waiters k c') \<union> W c' \<subseteq> {u}" using assms(3) u by (simp add: sole_ok_def)
    moreover have "c' = c \<Longrightarrow> u = t" using u recv by auto
    moreover have "W' c' \<subseteq> W c'" using recv by auto
    moreover have "set (waiters k' c') \<subseteq> set (waiters k c') \<union> (if c' = c then {t} else {})"
      using recv_waiters [OF wake_okD(1) [OF assms(2)]] recv by blast
    ultimately show "set (waiters k' c') \<union> W' c' \<subseteq> {u}" by (cases "c' = c") auto
  qed
  ultimately show ?thesis by blast
next
  case (try_recv c r)
  then have "wake_ok k' W'" using assms(2) set_queue_wake_ok [OF assms(2), of _ c]
    by (auto simp: try_recv_def split: list.splits if_splits)
  moreover have "sole_ok sole k' W'"
    by (rule sole_ok_mono [OF assms(3)]) (use try_recv in \<open>auto simp: try_recv_def split: list.splits if_splits\<close>)
  ultimately show ?thesis by blast
next
  case (put_back hart t c msg)
  then have "wake_ok k' W'"
    using set_queue_wake_ok [OF assms(2), of "msg # queue k c" c] put_back_nobody [OF assms(2,3)] by simp
  moreover have "sole_ok sole k' W'" by (rule sole_ok_mono [OF assms(3)]) (use put_back in auto)
  ultimately show ?thesis by blast
next
  case (switch time_out time_in hart)
  then show ?thesis using switch_wake_ok assms(2,3) by (simp add: sole_ok_def)
next
  case other
  then show ?thesis using other_wake_ok assms(2,3) by (simp add: sole_ok_def waits_alone_def)
qed

text \<open>
  C4. No wake-up is lost: however sends, receives, returned capabilities, timer ticks and other steps interleave, from
  a kernel in which no task waits, whenever a task waits in a queue that holds messages, at least as many ready tasks
  have been woken from that queue and not resumed their receive yet as there are messages in it. The tasks that wait
  are blocked, and a queue with a single receiver holds no message while that task waits for one.
\<close>

theorem no_lost_wakeup:
  assumes "(chan_step sole)\<^sup>*\<^sup>* (k0, \<lambda>_. {}) (k, W)" "bt_ok (task_list k0)" "\<forall>c. waiters k0 c = []"
  shows "(waiters k c \<noteq> [] \<longrightarrow> length (queue k c) \<le> card (W c) \<and> (\<forall>t \<in> W c. is_ready k t)) \<and>
    (\<forall>t \<in> set (waiters k c). map_option run_state (get_state k t) = Some Blocked) \<and>
    (sole c = Some t \<and> waiters k c \<noteq> [] \<longrightarrow> waiters k c = [t] \<and> queue k c = [])"
proof -
  have "wake_ok k0 (\<lambda>_. {}) \<and> sole_ok sole k0 (\<lambda>_. {})" using assms(2,3) by (simp add: wake_ok_def sole_ok_def)
  with assms(1) have ok: "wake_ok k W \<and> sole_ok sole k W"
    by (induction rule: rtranclp_induct2) (auto dest: chan_step_ok)
  have alone: "waiters k c = [t] \<and> queue k c = []" if s: "sole c = Some t" "waiters k c \<noteq> []"
  proof -
    have sub: "set (waiters k c) \<subseteq> {t}" "W c \<subseteq> {t}" using ok s(1) by (auto simp: sole_ok_def)
    moreover have "distinct (waiters k c)" using ok by (simp add: wake_ok_def)
    ultimately have w: "waiters k c = [t]" using s(2) by (cases "waiters k c" rule: remdups_adj.cases) auto
    have "t \<notin> W c" using wake_okD(4) [of k W t c] wake_okD(5) [of k W t c] ok w by (auto simp: is_ready_def)
    then have "W c = {}" using sub(2) by blast
    then show ?thesis using w wake_okD(6) [of k W c] ok by simp
  qed
  have w: "wake_ok k W" using ok by blast
  have "map_option run_state (get_state k u) = Some Blocked" if "u \<in> set (waiters k c)" for u
    using wake_okD(4) [OF w that] by auto
  then show ?thesis using alone wake_okD(5,6) [OF w] by blast
qed

text \<open>Three tasks: the first two wait for a message, the third sends one, and a tick of the timer runs the first again.\<close>

definition demo_channels :: Kernel where
  "demo_channels = demo_kernel [(1, demo_task 1 Ready), (2, demo_task 2 Ready), (3, demo_task 3 Ready)]"

definition demo_message :: ChannelMessage where
  "demo_message = \<lparr> msg_data = [1, 2, 3, 4, 5, 6, 7], msg_caps = [] \<rparr>"

lemmas demo_channel_simps = demo_channels_def demo_kernel_def demo_task_def
  get_state_def get_task_def bt_get_def new_mutable_state_def metadata_new_def chan_new_def

lemmas demo_run_simps = demo_channel_simps chan_recv_def wait_def schedule_def rr_next_def is_ready_def set_run_state_def
  modify_state_def set_task_def set_chan_def ensure_def Let_def load_task_def set_hart_def

lemma demo_run:
  "\<exists>k1 k2 k3 k4. chan_recv 0 0 demo_channels 0 5 = Some (None, k1) \<and> current_task k1 0 = Some 2 \<and> is_ready k1 2 \<and>
     chan_recv 0 0 k1 0 5 = Some (None, k2) \<and>
     chan_send k2 \<lparr> snd_chan = 5, other_tid = None, other_cptr = 0 \<rparr> demo_message = Some (Inr (), k3) \<and>
     schedule 0 0 k3 0 = Some k4 \<and> current_task k4 0 = Some 1 \<and>
     waiters k2 5 = [1, 2] \<and> waiters k3 5 = [2] \<and> waiters k4 5 = [2] \<and> queue k4 5 = [demo_message] \<and>
     (\<forall>c. c \<noteq> 5 \<longrightarrow> waiters k2 c = waiters k3 c)"
  by (simp add: demo_run_simps chan_send.simps push_message_def wake_one_def)

theorem no_lost_wakeup_witness:
  "\<exists>k. (chan_step (\<lambda>_. None))\<^sup>*\<^sup>* (demo_channels, \<lambda>_. {}) (k, (\<lambda>_. {})(5 := {1})) \<and> current_task k 0 = Some 1 \<and>
     waiters k 5 = [2] \<and> length (queue k 5) = 1 \<and> is_ready k 1 \<and>
     map_option run_state (get_state k 2) = Some Blocked"
proof -
  let ?s = "\<lambda>_ :: nat. None :: tid option" and ?E = "\<lambda>_ :: nat. {} :: tid set"
  obtain k1 k2 k3 k4 where r: "chan_recv 0 0 demo_channels 0 5 = Some (None, k1)" "current_task k1 0 = Some 2" "is_ready k1 2"
     "chan_recv 0 0 k1 0 5 = Some (None, k2)"
     "chan_send k2 \<lparr> snd_chan = 5, other_tid = None, other_cptr = 0 \<rparr> demo_message = Some (Inr (), k3)"
     "schedule 0 0 k3 0 = Some k4" "current_task k4 0 = Some 1"
     "waiters k2 5 = [1, 2]" "waiters k3 5 = [2]" "waiters k4 5 = [2]" "queue k4 5 = [demo_message]"
     "\<forall>c. c \<noteq> 5 \<longrightarrow> waiters k2 c = waiters k3 c"
    using demo_run by blast
  have pre: "bt_ok (task_list demo_channels)" "\<forall>c. waiters demo_channels c = []" "current_task demo_channels 0 = Some 1"
    "is_ready demo_channels 1"
    by (simp_all add: demo_channel_simps is_ready_def bt_ok_def)
  have e: "?E(5 := {}) = ?E" by auto
  have s1: "chan_step ?s (demo_channels, ?E) (k1, ?E)"
    using chan_step.recv [where sole = ?s, OF pre(3,4) _ _ r(1), where W = ?E] by (simp add: e)
  have s2: "chan_step ?s (k1, ?E) (k2, ?E)"
    using chan_step.recv [where sole = ?s, OF r(2,3) _ _ r(4), where W = ?E] by (simp add: e)
  have "woken k2 k3 ?E = ?E(5 := {1})" using r(8,9,12) by (auto simp: woken_def fun_eq_iff)
  then have s3: "chan_step ?s (k2, ?E) (k3, ?E(5 := {1}))"
    using chan_step.send [where sole = ?s, OF r(5), where W = ?E] by simp
  have s4: "chan_step ?s (k3, ?E(5 := {1})) (k4, ?E(5 := {1}))" by (rule chan_step.switch [OF r(6)])
  have s: "(chan_step ?s)\<^sup>*\<^sup>* (demo_channels, ?E) (k4, ?E(5 := {1}))"
    by (intro converse_rtranclp_into_rtranclp [where r = "chan_step ?s", OF s1] converse_rtranclp_into_rtranclp [where r = "chan_step ?s", OF s2]
        converse_rtranclp_into_rtranclp [where r = "chan_step ?s", OF s3] r_into_rtranclp [where r = "chan_step ?s", OF s4])
  show ?thesis using no_lost_wakeup [OF s pre(1,2), of 5] s r(7,10,11) by (intro exI [of _ k4]) auto
qed

section \<open>A message reaches its receiver\<close>

lemma chan_send_quiet:
  assumes "chan_alive (chans k (snd_chan s))"
    "\<forall>st. Option.bind (other_tid s) (get_state k) = Some st \<longrightarrow> \<not> subscribes_to_events st"
  shows "chan_send k s msg = Some (Inr (), push_message k (snd_chan s) msg)"
  using assms by (subst chan_send.simps) (auto split: option.splits)

lemma chan_send_notifies:
  assumes "chan_alive (chans k (snd_chan s))" "Option.bind (other_tid s) (get_state k) = Some st" "subscribes_to_events st"
    "chan_alive (chans k (snd_chan (ch_sender (kernel_channel st))))" "other_tid (ch_sender (kernel_channel st)) = None"
    "snd_chan (ch_sender (kernel_channel st)) \<noteq> snd_chan s"
  shows "chan_send k s msg = Some (Inr (),
    push_message (push_message k (snd_chan (ch_sender (kernel_channel st))) (kernel_message (NewChannelMessage (other_cptr s))))
      (snd_chan s) msg)"
proof -
  have "chan_send k (ch_sender (kernel_channel st)) (kernel_message (NewChannelMessage (other_cptr s))) =
    Some (Inr (), push_message k (snd_chan (ch_sender (kernel_channel st))) (kernel_message (NewChannelMessage (other_cptr s))))"
    by (rule chan_send_quiet) (use assms in auto)
  then show ?thesis using assms by (subst chan_send.simps) simp
qed

text \<open>The task behind a sender, and how it hears of messages: through a kernel channel that is open and not the sender's own queue.\<close>

definition sender_ok :: "Kernel \<Rightarrow> Sender \<Rightarrow> bool" where
  "sender_ok k s \<longleftrightarrow> chan_alive (chans k (snd_chan s)) \<and>
     (case Option.bind (other_tid s) (get_state k) of
        None \<Rightarrow> True
      | Some st \<Rightarrow> chan_alive (chans k (snd_chan (ch_sender (kernel_channel st)))) \<and>
          other_tid (ch_sender (kernel_channel st)) = None \<and> snd_chan (ch_sender (kernel_channel st)) \<noteq> snd_chan s)"

text \<open>The notification a send causes, as the kernel queue it goes to.\<close>

definition notifies :: "Kernel \<Rightarrow> Sender \<Rightarrow> nat option" where
  "notifies k s =
     (case Option.bind (other_tid s) (get_state k) of
        Some st \<Rightarrow> if subscribes_to_events st then Some (snd_chan (ch_sender (kernel_channel st))) else None
      | None \<Rightarrow> None)"

lemma chan_send_queues:
  assumes "sender_ok k s" "bt_ok (task_list k)"
  shows "\<exists>k'. chan_send k s msg = Some (Inr (), k') \<and> bt_ok (task_list k') \<and>
    (\<forall>c. queue k' c = queue k c @
       (if notifies k s = Some c then [kernel_message (NewChannelMessage (other_cptr s))] else []) @
       (if c = snd_chan s then [msg] else [])) \<and>
    (\<forall>t. map_option (run_state_update (\<lambda>_. Ready)) (get_state k' t) = map_option (run_state_update (\<lambda>_. Ready)) (get_state k t))"
proof (cases "notifies k s")
  case None
  have st: "\<forall>st. Option.bind (other_tid s) (get_state k) = Some st \<longrightarrow> \<not> subscribes_to_events st"
    using None by (auto simp: notifies_def split: if_splits)
  show ?thesis
    using chan_send_quiet [OF _ st] assms None push_message_waiters [OF assms(2)]
    by (auto simp: sender_ok_def option.map_comp comp_def intro!: map_option_cong)
next
  case (Some kc)
  then obtain st where st: "Option.bind (other_tid s) (get_state k) = Some st" "subscribes_to_events st"
    and kc: "kc = snd_chan (ch_sender (kernel_channel st))"
    by (auto simp: notifies_def split: if_splits option.splits)
  let ?k1 = "push_message k kc (kernel_message (NewChannelMessage (other_cptr s)))"
  have ok: "chan_alive (chans k (snd_chan s))" "chan_alive (chans k kc)" "other_tid (ch_sender (kernel_channel st)) = None" "kc \<noteq> snd_chan s"
    using assms(1) st(1) by (simp_all add: sender_ok_def kc)
  have e: "chan_send k s msg = Some (Inr (), push_message ?k1 (snd_chan s) msg)"
    using chan_send_notifies [OF ok(1) st] ok kc by simp
  have bt1: "bt_ok (task_list ?k1)" by (rule push_message_waiters(3) [OF assms(2)])
  show ?thesis
    using e push_message_waiters [OF assms(2), of kc] push_message_waiters [OF bt1, of "snd_chan s" msg] Some ok(4)
    by (auto simp: option.map_comp comp_def intro!: map_option_cong)
qed

lemma state_modulo_run:
  assumes "map_option (run_state_update (\<lambda>_. Ready)) (get_state k' t) = map_option (run_state_update (\<lambda>_. Ready)) (get_state k t)"
    "get_state k t = Some st"
  shows "\<exists>r. get_state k' t = Some (st\<lparr>run_state := r\<rparr>)"
proof -
  obtain st' where st': "get_state k' t = Some st'" "st'\<lparr>run_state := Ready\<rparr> = st\<lparr>run_state := Ready\<rparr>"
    using assms by (cases "get_state k' t") auto
  have "st' = (st'\<lparr>run_state := Ready\<rparr>)\<lparr>run_state := run_state st'\<rparr>" by simp
  also have "\<dots> = st\<lparr>run_state := run_state st'\<rparr>" by (simp only: st'(2)) simp
  finally show ?thesis using st'(1) by metis
qed


text \<open>Task 1 may write to task 2, which has asked for notifications.\<close>

definition demo_pair :: Kernel where
  "demo_pair =
     (let end1 = \<lparr> ch_sender = \<lparr> snd_chan = 5, other_tid = Some 2, other_cptr = 1 \<rparr>, ch_receiver = 6 \<rparr>;
          end2 = \<lparr> ch_sender = \<lparr> snd_chan = 6, other_tid = Some 1, other_cptr = 7 \<rparr>, ch_receiver = 5 \<rparr>
      in demo_kernel
           [(1, (demo_task 1 Ready)\<lparr>mutable_state := (mutable_state (demo_task 1 Ready))
              \<lparr>cspace := [(7, \<lparr> cap_resource = ChannelCap end1, cap_rights = RIGHT_WRITE \<rparr>)]\<rparr>\<rparr>),
            (2, (demo_task 2 Ready)\<lparr>mutable_state := (mutable_state (demo_task 2 Ready))
              \<lparr>cspace := [(1, \<lparr> cap_resource = ChannelCap end2, cap_rights = RIGHT_READ \<rparr>)], subscribes_to_events := True\<rparr>\<rparr>)])"


end
