(* ===== verification/Syscalls.thy ===== *)
theory Syscalls
  imports Channel
begin

text \<open>
  The system calls (\<open>syscall/\<close>): memory, devices, address spaces for new tasks, capabilities, and the
  dispatch on the number in \<open>a0\<close> (\<open>syscall/mod.rs\<close>). Each handler takes the kernel, the task that calls and
  its registers. The device tree is parsed by a library; \<open>fdt\<close> is the list of its nodes.
\<close>

section \<open>Memory\<close>

definition perms_flags :: "permissions \<Rightarrow> flags" where
  "perms_flags p =
     (let f = flags_bitor FLAG_VALID FLAG_USER;
          f = (if perms_bitand p PERM_READ then flags_bitor f FLAG_READ else f);
          f = (if perms_bitand p PERM_WRITE then flags_bitor f FLAG_WRITE else f)
      in if perms_bitand p PERM_EXECUTE then flags_bitor f FLAG_EXECUTE else f)"

definition write_without_read :: "permissions \<Rightarrow> bool" where
  "write_without_read p \<longleftrightarrow> perms_bitand p PERM_WRITE \<and> \<not> perms_bitand p PERM_READ"

definition page_size_for :: "usize \<Rightarrow> PageSize" where
  "page_size_for n = (if n \<ge> mib 2 then Megapage else Kilopage)"

definition page_count_for :: "PageSize \<Rightarrow> usize \<Rightarrow> usize panics" where
  "page_count_for sz n = do { up \<leftarrow> round_up_to_next n (to_byte_size sz); Some (up div to_byte_size sz) }"

type_synonym syscall_result = "((SyscallError + unit) \<times> GeneralRegisters \<times> Kernel) panics"

definition share_rights :: "permissions \<Rightarrow> rights panics" where
  "share_rights p =
     (case (perms_bitand p PERM_READ, perms_bitand p PERM_WRITE, perms_bitand p PERM_EXECUTE) of
        (True, True, True) \<Rightarrow> Some (rights_bitor (rights_bitor RIGHT_READ RIGHT_WRITE) RIGHT_EXECUTE)
      | (True, True, False) \<Rightarrow> Some (rights_bitor RIGHT_READ RIGHT_WRITE)
      | (True, False, False) \<Rightarrow> Some RIGHT_READ
      | _ \<Rightarrow> panic)"

text \<open>The region of \<open>alloc_shared_region\<close> is held by the address map and by the caller.\<close>

definition allocate_shared_memory :: "(nat \<Rightarrow> usize) \<Rightarrow> Kernel \<Rightarrow> tid \<Rightarrow> GeneralRegisters \<Rightarrow> syscall_result" where
  "allocate_shared_memory time k t frame = do {
     st \<leftarrow> get_state k t;
     let sz = r_a1 frame;
     let p = r_a2 frame;
     if write_without_read p then Some (Inl (InvalidArgument 1), frame, k)
     else if sz = 0 then Some (Inl (InvalidArgument 0), frame, k)
     else do {
       let page_size = page_size_for sz;
       n \<leftarrow> page_count_for page_size sz;
       ((at, shared), s, mgr) \<leftarrow> alloc_shared_region time (machine k) (memory_manager st) None
         \<lparr> d_size = page_size, d_count = n, d_contiguous = False, d_flags = perms_flags p, d_fill = Zeroed,
           d_kind = Kind_UserAllocated \<rparr>;
       let rg = pr_unique shared;
       let k1 = arc_clone (arc_new (set_manager k t s mgr) rg) rg;
       r \<leftarrow> share_rights p;
       (c, cs) \<leftarrow> mint (cspace st)
         \<lparr> cap_resource = SharedMemory rg at Kind_UserSharedMemory, cap_rights = rights_bitor r RIGHT_GRANT \<rparr>;
       Some (Inr (), frame\<lparr>r_a1 := c, r_a2 := fst at, r_a3 := snd at - fst at\<rparr>, set_cspace k1 t cs)
     }
   }"

definition allocate_virtual_memory :: "(nat \<Rightarrow> usize) \<Rightarrow> Kernel \<Rightarrow> tid \<Rightarrow> GeneralRegisters \<Rightarrow> syscall_result" where
  "allocate_virtual_memory time k t frame = do {
     st \<leftarrow> get_state k t;
     let sz = r_a1 frame;
     let p = r_a2 frame;
     if write_without_read p then Some (Inl (InvalidArgument 1), frame, k)
     else if sz = 0 then Some (Inl (InvalidArgument 0), frame, k)
     else do {
       let page_size = page_size_for sz;
       n \<leftarrow> page_count_for page_size sz;
       (at, s, mgr) \<leftarrow> alloc_region time (machine k) (memory_manager st) None
         \<lparr> d_size = page_size, d_count = n, d_contiguous = False, d_flags = perms_flags p, d_fill = Zeroed,
           d_kind = Kind_UserAllocated \<rparr>;
       Some (Inr (), frame\<lparr>r_a1 := fst at, r_a2 := snd at - fst at\<rparr>, set_manager k t s mgr)
     }
   }"

definition deallocate_virtual_memory :: "Kernel \<Rightarrow> tid \<Rightarrow> GeneralRegisters \<Rightarrow> syscall_result" where
  "deallocate_virtual_memory k t frame = do {
     st \<leftarrow> get_state k t;
     let address = vaddr_new (r_a1 frame);
     (case region_for (memory_manager st) address of
        Some rg \<Rightarrow>
          if kind rg = Kind_UserAllocated then do {
            (freed, s, mgr) \<leftarrow> dealloc_region (machine k) (memory_manager st) address;
            k1 \<leftarrow> drop_memory_region (set_manager k t s mgr) freed;
            Some (Inr (), frame, k1)
          }
          else Some (Inl (InvalidArgument 0), frame, k)
      | None \<Rightarrow> Some (Inl (InvalidArgument 0), frame, k))
   }"

definition allocate_device_addressable_memory :: "(nat \<Rightarrow> usize) \<Rightarrow> Kernel \<Rightarrow> tid \<Rightarrow> GeneralRegisters \<Rightarrow> syscall_result" where
  "allocate_device_addressable_memory time k t frame = do {
     st \<leftarrow> get_state k t;
     let sz = r_a1 frame;
     if sz = 0 then Some (Inl (InvalidArgument 0), frame, k)
     else do {
       n \<leftarrow> page_count_for Kilopage sz;
       (at, s, mgr) \<leftarrow> alloc_region time (machine k) (memory_manager st) None
         \<lparr> d_size = Kilopage, d_count = n, d_contiguous = True,
           d_flags = flags_bitor (flags_bitor (flags_bitor FLAG_VALID FLAG_USER) FLAG_READ) FLAG_WRITE,
           d_fill = (if dma_bitand (r_a2 frame) DMA_ZERO then Zeroed else Unitialized), d_kind = Kind_Dma \<rparr>;
       phys \<leftarrow> mgr_resolve s mgr (fst at);
       phys \<leftarrow> phys;
       Some (Inr (), frame\<lparr>r_a1 := phys, r_a2 := fst at\<rparr>, set_manager k t s mgr)
     }
   }"

definition query_mem_cap :: "Kernel \<Rightarrow> tid \<Rightarrow> GeneralRegisters \<Rightarrow> syscall_result" where
  "query_mem_cap k t frame = do {
     st \<leftarrow> get_state k t;
     (case cap_resolve (cspace st) (r_a1 frame) of
        None \<Rightarrow> Some (Inl (InvalidArgument 0), frame, k)
      | Some cap \<Rightarrow>
          (case cap_resource cap of
             SharedMemory _ vmem _ \<Rightarrow> do {
               p \<leftarrow> (case (rights_bitand (cap_rights cap) RIGHT_READ, rights_bitand (cap_rights cap) RIGHT_WRITE) of
                      (True, True) \<Rightarrow> Some (perms_bitor PERM_READ PERM_WRITE)
                    | (True, False) \<Rightarrow> Some PERM_READ
                    | _ \<Rightarrow> panic);
               Some (Inr (), frame\<lparr>r_a1 := fst vmem, r_a2 := snd vmem - fst vmem, r_a3 := p\<rparr>, k)
             }
           | _ \<Rightarrow> Some (Inl (InvalidArgument 0), frame, k)))
   }"

definition usize_type :: pointee where
  "usize_type = \<lparr> size_of = 8, align_of = 8 \<rparr>"

definition u8_type :: pointee where
  "u8_type = \<lparr> size_of = 1, align_of = 1 \<rparr>"

definition query_mmio_cap :: "Kernel \<Rightarrow> tid \<Rightarrow> GeneralRegisters \<Rightarrow> syscall_result" where
  "query_mmio_cap k t frame = do {
     st \<leftarrow> get_state k t;
     v \<leftarrow> validate_slice (machine k) (memory_manager st) usize_type
            \<lparr> rs_addr = vaddr_new (r_a2 frame), rs_len = r_a3 frame, rs_mode = ModeReadWrite \<rparr>;
     (case v of
        Inl _ \<Rightarrow> Some (Inl (InvalidArgument 1), frame, k)
      | Inr sl \<Rightarrow>
          (case map_option cap_resource (cap_resolve (cspace st) (r_a1 frame)) of
             Some (MmioCap _ vmem interrupts) \<Rightarrow> do {
               let write_n = min (unat (vs_len sl)) (length interrupts);
               s \<leftarrow> write_user (machine k) (memory_manager st) (vs_addr sl) (concat (map ne_bytes (take write_n interrupts)));
               Some (Inr (), frame\<lparr>r_a1 := fst vmem, r_a2 := snd vmem - fst vmem,
                   r_a3 := of_nat (length interrupts), r_a4 := of_nat write_n\<rparr>, k\<lparr>machine := s\<rparr>)
             }
           | _ \<Rightarrow> Some (Inl (InvalidArgument 0), frame, k)))
   }"

section \<open>Text\<close>

text \<open>\<open>core::str::from_utf8\<close>: the well-formed byte sequences of Unicode.\<close>

definition cont_byte :: "u8 \<Rightarrow> bool" where
  "cont_byte b \<longleftrightarrow> 0x80 \<le> b \<and> b \<le> 0xBF"

fun utf8_valid :: "u8 list \<Rightarrow> bool" where
  "utf8_valid [] = True"
| "utf8_valid (a # bs) =
     (if a < 0x80 then utf8_valid bs
      else
        (case bs of
           [] \<Rightarrow> False
         | b # cs \<Rightarrow>
             if 0xC2 \<le> a \<and> a \<le> 0xDF then cont_byte b \<and> utf8_valid cs
             else
               (case cs of
                  [] \<Rightarrow> False
                | c # ds \<Rightarrow>
                    if 0xE0 \<le> a \<and> a \<le> 0xEF
                    then cont_byte b \<and> (a = 0xE0 \<longrightarrow> 0xA0 \<le> b) \<and> (a = 0xED \<longrightarrow> b \<le> 0x9F) \<and> cont_byte c \<and> utf8_valid ds
                    else
                      (case ds of
                         [] \<Rightarrow> False
                       | d # es \<Rightarrow>
                           0xF0 \<le> a \<and> a \<le> 0xF4 \<and> cont_byte b \<and> (a = 0xF0 \<longrightarrow> 0x90 \<le> b) \<and> (a = 0xF4 \<longrightarrow> b \<le> 0x8F) \<and>
                           cont_byte c \<and> cont_byte d \<and> utf8_valid es))))"

text \<open>A string argument: its bytes, or nothing if it is not readable text.\<close>

definition user_str :: "Kernel \<Rightarrow> MutableState \<Rightarrow> vaddr \<Rightarrow> usize \<Rightarrow> u8 list option panics" where
  "user_str k st start len = do {
     v \<leftarrow> validate_slice (machine k) (memory_manager st) u8_type (slice_readable start len);
     (case v of
        Inl _ \<Rightarrow> Some None
      | Inr sl \<Rightarrow> do {
          bs \<leftarrow> slice_with (machine k) (memory_manager st) u8_type sl;
          Some (if utf8_valid bs then Some bs else None)
        })
   }"

definition print :: "Kernel \<Rightarrow> tid \<Rightarrow> vaddr \<Rightarrow> usize \<Rightarrow> ((SyscallError + unit) \<times> Kernel) panics" where
  "print k t start len = do {
     st \<leftarrow> get_state k t;
     v \<leftarrow> validate_slice (machine k) (memory_manager st) u8_type (slice_readable start len);
     (case v of
        Inl _ \<Rightarrow> Some (Inl (InvalidArgument 0), k)
      | Inr sl \<Rightarrow> do {
          bs \<leftarrow> slice_with (machine k) (memory_manager st) u8_type sl;
          Some (Inr (), k\<lparr>console := console k @ bs\<rparr>)
        })
   }"

section \<open>Devices\<close>

text \<open>A node of the device tree: its name, its first register range, if it has one, and its interrupts.\<close>

record fdt_node =
  node_name :: "u8 list"
  node_reg :: "(paddr \<times> usize option) option"
  node_interrupts :: "usize list"

definition claim_device ::
  "fdt_node list \<Rightarrow> (nat \<Rightarrow> usize) \<Rightarrow> Kernel \<Rightarrow> nat \<Rightarrow> tid \<Rightarrow> GeneralRegisters \<Rightarrow> syscall_result" where
  "claim_device fdt time k hart t regs = do {
     st \<leftarrow> get_state k t;
     path \<leftarrow> user_str k st (vaddr_new (r_a1 regs)) (r_a2 regs);
     (case path of
        None \<Rightarrow> Some (Inl (InvalidArgument 0), regs, k)
      | Some node_path \<Rightarrow>
          if map_of (claimed_devices k) node_path \<noteq> None then Some (Inl (InvalidArgument 0), regs, k)
          else
            (case find (\<lambda>n. node_name n = node_path) fdt of
               None \<Rightarrow> Some (Inl (InvalidArgument 0), regs, k)
             | Some node \<Rightarrow>
                 (case node_reg node of
                    Some (start, Some len) \<Rightarrow> do {
                      let k1 = k\<lparr>claimed_devices := (node_path, t) # claimed_devices k\<rparr>;
                      (map_to, s, mgr) \<leftarrow> map_mmio_device time (machine k1) (memory_manager st) start None len;
                      let k2 = set_manager k1 t s mgr;
                      to \<leftarrow> paddr_offset start len;
                      (c, cs) \<leftarrow> mint (cspace st) \<lparr> cap_resource = MmioCap (start, to) map_to (node_interrupts node),
                        cap_rights = rights_bitor (rights_bitor RIGHT_GRANT RIGHT_READ) RIGHT_WRITE \<rparr>;
                      let k3 = set_cspace k2 t cs;
                      _ \<leftarrow> the_plic k3;
                      k4 \<leftarrow> for_loop (route_interrupt hart t) (node_interrupts node) k3;
                      Some (Inr (), regs\<lparr>r_a1 := c\<rparr>, k4)
                    }
                  | _ \<Rightarrow> Some (Inl (InvalidArgument 0), regs, k))))
   }"

definition complete_interrupt :: "Kernel \<Rightarrow> tid \<Rightarrow> GeneralRegisters \<Rightarrow> syscall_result" where
  "complete_interrupt k t regs = do {
     st \<leftarrow> get_state k t;
     let interrupt_id = r_a1 regs;
     (case bt_get (claimed_interrupts st) interrupt_id of
        None \<Rightarrow> Some (Inl (InvalidArgument 0), regs, k)
      | Some hart \<Rightarrow> do {
          let k1 = modify_state k t (\<lambda>st. st\<lparr>claimed_interrupts := bt_remove interrupt_id (claimed_interrupts st)\<rparr>);
          (case the_plic k1 of
             None \<Rightarrow> Some (Inr (), regs, k1)
           | Some plic \<Rightarrow> do {
               p1 \<leftarrow> plic_complete plic (plic_context_for hart) interrupt_id;
               p2 \<leftarrow> enable_interrupt p1 (plic_context_for hart) interrupt_id;
               Some (Inr (), regs, k1\<lparr>the_plic := Some p2\<rparr>)
             })
        })
   }"

text \<open>What happens on an interrupt that was routed to a task: it is masked and the task is told.\<close>

definition invoke_isr :: "Kernel \<Rightarrow> nat \<Rightarrow> usize \<Rightarrow> Kernel panics" where
  "invoke_isr k hart interrupt_id = do {
     ensure (unat interrupt_id < ISR_LIMIT);
     plic \<leftarrow> the_plic k;
     (case isr_registry k (unat interrupt_id) of
        None \<Rightarrow> do {
          p \<leftarrow> plic_complete plic (current_plic_context (of_nat hart)) interrupt_id;
          Some (k\<lparr>the_plic := Some p\<rparr>)
        }
      | Some t \<Rightarrow> do {
          p \<leftarrow> disable_interrupt plic (current_plic_context (of_nat hart)) interrupt_id;
          let k1 = k\<lparr>the_plic := Some p\<rparr>;
          st \<leftarrow> get_state k1 t;
          let k2 = modify_state k1 t (\<lambda>st. st\<lparr>claimed_interrupts := bt_insert interrupt_id (of_nat hart) (claimed_interrupts st)\<rparr>);
          (r, k3) \<leftarrow> chan_send k2 (ch_sender (kernel_channel st)) (kernel_message (InterruptOccurred interrupt_id));
          _ \<leftarrow> unwrap r;
          Some k3
        })
   }"

section \<open>Address spaces for new tasks\<close>

definition vmspace_object_new :: "Kernel \<Rightarrow> nat \<Rightarrow> (VmspaceObject \<times> Kernel) panics" where
  "vmspace_object_new k hart = do {
     active \<leftarrow> active_root k hart;
     (mgr, s) \<leftarrow> manager_new (machine k) active;
     Some (\<lparr> vo_memory_manager = mgr, vo_inprocess_mappings = [], vo_cspace = cspace_new \<rparr>, k\<lparr>machine := s\<rparr>)
   }"

definition create_vmspace :: "Kernel \<Rightarrow> nat \<Rightarrow> tid \<Rightarrow> GeneralRegisters \<Rightarrow> syscall_result" where
  "create_vmspace k hart t frame = do {
     st \<leftarrow> get_state k t;
     let id = vmspace_next_id st;
     (object, k1) \<leftarrow> vmspace_object_new k hart;
     Some (Inr (), frame\<lparr>r_a1 := id\<rparr>, modify_state k1 t
       (\<lambda>st. st\<lparr>vmspace_next_id := id + 1, vmspace_objects := bt_insert id object (vmspace_objects st)\<rparr>))
   }"

text \<open>The kind of a region by its permissions: read, write, execute.\<close>

fun region_kind :: "bool \<Rightarrow> bool \<Rightarrow> bool \<Rightarrow> AddressRegionKind option" where
  "region_kind True True True = Some Kind_UserAllocated"
| "region_kind True True False = Some Kind_Data"
| "region_kind True False False = Some Kind_ReadOnly"
| "region_kind _ False True = Some Kind_Text"
| "region_kind False _ _ = None"

definition alloc_vmspace_object ::
  "(nat \<Rightarrow> nat \<Rightarrow> usize) \<Rightarrow> Kernel \<Rightarrow> tid \<Rightarrow> GeneralRegisters \<Rightarrow> syscall_result" where
  "alloc_vmspace_object time k t frame = do {
     st \<leftarrow> get_state k t;
     let id = r_a1 frame;
     let address = vaddr_new (r_a2 frame);
     let sz = r_a3 frame;
     (case bt_get (vmspace_objects st) id of
        None \<Rightarrow> Some (Inl (InvalidArgument 0), frame, k)
      | Some object \<Rightarrow>
          if \<not> is_aligned address Kilopage \<or> is_kernel_region address \<or> vaddr_checked_add address sz = None
          then Some (Inl (InvalidArgument 1), frame, k)
          else if sz = 0 then Some (Inl (InvalidArgument 2), frame, k)
          else do {
            let flags = perms_flags (r_a4 frame);
            (case region_kind (flags_bitand flags FLAG_READ) (flags_bitand flags FLAG_WRITE) (flags_bitand flags FLAG_EXECUTE) of
               None \<Rightarrow> Some (Inl (InvalidArgument 3), frame, k)
             | Some kd \<Rightarrow> do {
                 up \<leftarrow> round_up_to_next sz (kib 4);
                 let at = (if address = 0 then None else Some address);
                 ((theirs, shared), s1, mgr1) \<leftarrow> alloc_shared_region (time 0) (machine k) (vo_memory_manager object) at
                   \<lparr> d_size = Kilopage, d_count = up div kib 4, d_contiguous = False, d_flags = flags, d_fill = Zeroed,
                     d_kind = kd \<rparr>;
                 let rg = pr_unique shared;
                 (ours, s2, mgr2) \<leftarrow> apply_shared_region (time 1) s1 (memory_manager st) None
                   (flags_bitor (flags_bitor (flags_bitor FLAG_USER FLAG_VALID) FLAG_READ) FLAG_WRITE) rg Kind_UserAllocated;
                 let object' = object\<lparr>vo_memory_manager := mgr1,
                   vo_inprocess_mappings := vo_inprocess_mappings object @ [fst ours]\<rparr>;
                 let k1 = arc_clone (arc_new (set_manager k t s2 mgr2) rg) rg;
                 let k2 = modify_state k1 t (\<lambda>st. st\<lparr>vmspace_objects := bt_insert id object' (vmspace_objects st)\<rparr>);
                 Some (Inr (), frame\<lparr>r_a1 := fst ours, r_a2 := fst theirs\<rparr>, k2)
               })
          })
   }"

text \<open>Dropping a memory manager: its page table, then the regions of its address map.\<close>

definition drop_manager :: "Kernel \<Rightarrow> UserspaceMemoryManager \<Rightarrow> Kernel panics" where
  "drop_manager k mgr = do {
     p \<leftarrow> pt_drop (phys (machine k)) (mgr_table mgr);
     for_loop (\<lambda>rg k. case region rg of None \<Rightarrow> Some k | Some m \<Rightarrow> drop_memory_region k m) (map snd (mgr_map mgr))
       (k\<lparr>machine := (machine k)\<lparr>phys := p\<rparr>\<rparr>)
   }"

definition drop_vmspace_object :: "Kernel \<Rightarrow> VmspaceObject \<Rightarrow> Kernel panics" where
  "drop_vmspace_object k object = do {
     k1 \<leftarrow> drop_manager k (vo_memory_manager object);
     drop_caps k1 (map snd (vo_cspace object))
   }"

definition unmap_inprocess :: "tid \<Rightarrow> vaddr \<Rightarrow> Kernel \<Rightarrow> Kernel panics" where
  "unmap_inprocess t at k = do {
     st \<leftarrow> get_state k t;
     (freed, s, mgr) \<leftarrow> dealloc_region (machine k) (memory_manager st) at;
     drop_memory_region (set_manager k t s mgr) freed
   }"

definition all_rights :: rights where
  "all_rights = rights_bitor (rights_bitor RIGHT_GRANT RIGHT_READ) RIGHT_WRITE"

text \<open>The task a new address space becomes, linked with its parent \<open>t\<close> by a channel.\<close>

definition spawned_task ::
  "tid \<Rightarrow> u8 list \<Rightarrow> VmspaceObject \<Rightarrow> vaddr \<Rightarrow> Context \<Rightarrow> UserspaceChannel \<Rightarrow> UserspaceChannel \<Rightarrow>
   UserspaceChannel \<Rightarrow> UserspaceChannel \<Rightarrow> tid \<Rightarrow> Kernel \<Rightarrow> (Task \<times> Kernel) panics" where
  "spawned_task t name object stack ctx kch user_read channel1 channel2 child k = do {
     k1 \<leftarrow> for_loop (unmap_inprocess t) (vo_inprocess_mappings object) k;
     st \<leftarrow> get_state k1 t;
     let c = next_cptr (cspace st);
     let channel1 = channel1\<lparr>ch_sender := (ch_sender channel1)\<lparr>other_tid := Some child, other_cptr := PARENT_CHANNEL\<rparr>\<rparr>;
     let channel2 = channel2\<lparr>ch_sender := (ch_sender channel2)\<lparr>other_tid := Some t, other_cptr := c\<rparr>\<rparr>;
     cs \<leftarrow> unwrap (mint_with_id cspace_new KERNEL_CHANNEL \<lparr> cap_resource = ChannelCap user_read, cap_rights = RIGHT_READ \<rparr>);
     cs \<leftarrow> unwrap (mint_with_id cs PARENT_CHANNEL \<lparr> cap_resource = ChannelCap channel2, cap_rights = all_rights \<rparr>);
     let k2 = set_cspace k1 t (snd (mint_with (cspace st) (\<lambda>_. \<lparr> cap_resource = ChannelCap channel1, cap_rights = all_rights \<rparr>)));
     Some (\<lparr> task_tid = usize_max, task_name = name, task_kernel_stack = stack, task_context = ctx,
       mutable_state = (new_mutable_state (vo_memory_manager object) cs kch)\<lparr>subscribes_to_events := True\<rparr> \<rparr>, k2)
   }"

definition spawn_vmspace :: "Kernel \<Rightarrow> nat \<Rightarrow> tid \<Rightarrow> GeneralRegisters \<Rightarrow> syscall_result" where
  "spawn_vmspace k hart t frame = do {
     st \<leftarrow> get_state k t;
     (case bt_get (vmspace_objects st) (r_a1 frame) of
        None \<Rightarrow> Some (Inl (InvalidArgument 0), frame, k)
      | Some object \<Rightarrow> do {
          let k1 = modify_state k t (\<lambda>st. st\<lparr>vmspace_objects := bt_remove (r_a1 frame) (vmspace_objects st)\<rparr>);
          name \<leftarrow> user_str k1 st (vaddr_new (r_a2 frame)) (r_a3 frame);
          (case name of
             None \<Rightarrow> do { k2 \<leftarrow> drop_vmspace_object k1 object; Some (Inl (InvalidArgument 1), frame, k2) }
           | Some name \<Rightarrow> do {
               (stack, ctx, k2) \<leftarrow> with_kernel_stack k1 \<lparr> sepc = r_t0 frame, registers = default_registers
                 \<lparr>r_sp := r_t4 frame, r_tp := r_t5 frame, r_a0 := r_t1 frame, r_a1 := r_t2 frame, r_a2 := r_t3 frame\<rparr> \<rparr>;
               let ((kernel_channel, user_read), k3) = userspace_channel_new k2;
               let ((channel1, channel2), k4) = userspace_channel_new k3;
               k5 \<leftarrow> enqueue_with k4 hart (spawned_task t name object stack ctx kernel_channel user_read channel1 channel2);
               Some (Inr (), frame\<lparr>r_a1 := next_cptr (cspace st)\<rparr>, k5)
             })
        })
   }"

section \<open>Capabilities\<close>

definition unroute_interrupt :: "nat \<Rightarrow> usize \<Rightarrow> Kernel \<Rightarrow> Kernel panics" where
  "unroute_interrupt hart interrupt k = do {
     plic \<leftarrow> the_plic k;
     let ctx = current_plic_context (of_nat hart);
     p1 \<leftarrow> disable_interrupt plic ctx interrupt;
     p2 \<leftarrow> set_context_threshold p1 ctx 7;
     p3 \<leftarrow> set_interrupt_priority p2 interrupt 0;
     (removed, k') \<leftarrow> unregister_isr (k\<lparr>the_plic := Some p3\<rparr>) interrupt;
     ensure removed;
     Some k'
   }"

text \<open>The pointer is read from \<open>a0\<close>, where the number of the system call is.\<close>

definition delete_capability :: "Kernel \<Rightarrow> nat \<Rightarrow> tid \<Rightarrow> GeneralRegisters \<Rightarrow> syscall_result" where
  "delete_capability k hart t frame = do {
     st \<leftarrow> get_state k t;
     let (removed, cs) = cap_remove (cspace st) (r_a0 frame);
     (case removed of
        None \<Rightarrow> Some (Inl (InvalidArgument 0), frame, k)
      | Some cap \<Rightarrow> do {
          let k1 = set_cspace k t cs;
          (case cap_resource cap of
             ChannelCap _ \<Rightarrow> Some (Inr (), frame, k1)
           | SharedMemory rg virt kd \<Rightarrow> do {
               ensure (kd = Kind_UserSharedMemory);
               (freed, s, mgr) \<leftarrow> dealloc_region (machine k1) (memory_manager st) (fst virt);
               k2 \<leftarrow> drop_memory_region (set_manager k1 t s mgr) freed;
               k3 \<leftarrow> arc_drop k2 rg;
               Some (Inr (), frame, k3)
             }
           | MmioCap _ virt interrupts \<Rightarrow> do {
               (freed, s, mgr) \<leftarrow> dealloc_region (machine k1) (memory_manager st) (fst virt);
               k2 \<leftarrow> drop_memory_region (set_manager k1 t s mgr) freed;
               _ \<leftarrow> the_plic k2;
               k3 \<leftarrow> for_loop (unroute_interrupt hart) interrupts k2;
               Some (Inr (), frame, k3)
             })
        })
   }"

section \<open>Dispatch\<close>

text \<open>The readings of the clock a system call may make: by the scheduler, and by the searches for free regions.\<close>

record readings =
  rd_out :: u64
  rd_in :: u64
  rd_search :: "nat \<Rightarrow> nat \<Rightarrow> usize"

definition syscall_return :: "GeneralRegisters \<Rightarrow> SyscallError + unit \<Rightarrow> GeneralRegisters panics" where
  "syscall_return regs res =
     (case res of Inr _ \<Rightarrow> Some (regs\<lparr>r_a0 := 0\<rparr>) | Inl e \<Rightarrow> do { v \<leftarrow> uncook e; Some (regs\<lparr>r_a0 := v\<rparr>) })"

definition returns :: "syscall_result \<Rightarrow> (((SyscallError + unit) \<times> GeneralRegisters) outcome \<times> Kernel) panics" where
  "returns r = do { (res, regs, k) \<leftarrow> r; Some (Returned (res, regs), k) }"

definition dispatch ::
  "fdt_node list \<Rightarrow> readings \<Rightarrow> Kernel \<Rightarrow> nat \<Rightarrow> tid \<Rightarrow> Syscall \<Rightarrow> GeneralRegisters \<Rightarrow>
   (((SyscallError + unit) \<times> GeneralRegisters) outcome \<times> Kernel) panics" where
  "dispatch fdt rd k hart t syscall regs =
     (case syscall of
        Exit \<Rightarrow> do {
          k1 \<leftarrow> schedule (rd_out rd) (rd_in rd) (set_run_state k t Dead) hart;
          ensure (current_task k1 hart \<noteq> Some t);
          Some (Exited, k1)
        }
      | GetTid \<Rightarrow> Some (Returned (Inr (), regs\<lparr>r_a1 := t\<rparr>), k)
      | DebugPrint \<Rightarrow> do {
          (res, k1) \<leftarrow> print k t (vaddr_new (r_a1 regs)) (r_a2 regs);
          Some (Returned (res, regs), k1)
        }
      | AllocateDeviceAddressableMemory \<Rightarrow> returns (allocate_device_addressable_memory (rd_search rd 0) k t regs)
      | AllocateVirtualMemory \<Rightarrow> returns (allocate_virtual_memory (rd_search rd 0) k t regs)
      | ClaimDevice \<Rightarrow> returns (claim_device fdt (rd_search rd 0) k hart t regs)
      | CompleteInterrupt \<Rightarrow> returns (complete_interrupt k t regs)
      | CreateVmspace \<Rightarrow> returns (create_vmspace k hart t regs)
      | AllocVmspaceObject \<Rightarrow> returns (alloc_vmspace_object (rd_search rd) k t regs)
      | SpawnVmspace \<Rightarrow> returns (spawn_vmspace k hart t regs)
      | QueryMemoryCapability \<Rightarrow> returns (query_mem_cap k t regs)
      | QueryMmioCapability \<Rightarrow> returns (query_mmio_cap k t regs)
      | ReadChannel \<Rightarrow> read_message (rd_out rd) (rd_in rd) (rd_search rd) k hart t regs
      | WriteChannel \<Rightarrow> do {
          (res, k1) \<leftarrow> send_message k t regs;
          Some (Returned (res, regs), k1)
        }
      | MintCapability \<Rightarrow> panic
      | RevokeCapability \<Rightarrow> panic
      | EnableNotifications \<Rightarrow>
          Some (Returned (Inr (), regs), modify_state k t (\<lambda>st. st\<lparr>subscribes_to_events := True\<rparr>))
      | DeleteCapability \<Rightarrow> returns (delete_capability k hart t regs)
      | AllocateSharedMemory \<Rightarrow> returns (allocate_shared_memory (rd_search rd 0) k t regs)
      | DeallocateVirtualMemory \<Rightarrow> returns (deallocate_virtual_memory k t regs))"

definition handle ::
  "fdt_node list \<Rightarrow> readings \<Rightarrow> Kernel \<Rightarrow> nat \<Rightarrow> TrapFrame \<Rightarrow> (TrapFrame outcome \<times> Kernel) panics" where
  "handle fdt rd k hart frame = do {
     t \<leftarrow> current_task k hart;
     let regs = registers frame;
     (case from_usize (r_a0 regs) of
        None \<Rightarrow> do {
          v \<leftarrow> uncook UnknownSyscall;
          Some (Returned (frame\<lparr>registers := regs\<lparr>r_a0 := v\<rparr>\<rparr>), k)
        }
      | Some syscall \<Rightarrow> do {
          (res, k1) \<leftarrow> dispatch fdt rd k hart t syscall regs;
          (case res of
             Returned (r, regs') \<Rightarrow> do {
               regs'' \<leftarrow> syscall_return regs' r;
               Some (Returned (frame\<lparr>registers := regs''\<rparr>), k1)
             }
           | Suspended c \<Rightarrow> Some (Suspended c, k1)
           | Exited \<Rightarrow> Some (Exited, k1))
        })
   }"

end
