(* ===== verification/Syscall_Isolation.thy ===== *)
theory Syscall_Isolation
  imports Syscalls
begin

text \<open>
  What system calls leave alone: no call of a task reaches into the address space of another, and a call that
  fails has no effect.
\<close>

section \<open>Isolation\<close>

text \<open>
  What a system call of one task leaves alone in the state of another: its address space, the address
  spaces it prepares, its kernel channel and the interrupts it has claimed. (A message may be delivered to
  the other task, which makes it ready, and a channel passed to the caller gives it a new capability.)
\<close>

definition kept :: "MutableState \<Rightarrow> MutableState \<Rightarrow> bool" where
  "kept st st' \<longleftrightarrow> memory_manager st' = memory_manager st \<and> vmspace_objects st' = vmspace_objects st \<and>
     vmspace_next_id st' = vmspace_next_id st \<and> kernel_channel st' = kernel_channel st \<and>
     claimed_interrupts st' = claimed_interrupts st \<and> subscribes_to_events st' = subscribes_to_events st"

definition keeps_others :: "tid \<Rightarrow> Kernel \<Rightarrow> Kernel \<Rightarrow> bool" where
  "keeps_others t k k' \<longleftrightarrow> bt_ok (task_list k') \<and>
     (\<forall>u st. u \<noteq> t \<longrightarrow> get_state k u = Some st \<longrightarrow> (\<exists>st'. get_state k' u = Some st' \<and> kept st st'))"

lemma kept_refl [simp]: "kept st st"
  by (simp add: kept_def)

lemma kept_trans: "kept a b \<Longrightarrow> kept b c \<Longrightarrow> kept a c"
  by (simp add: kept_def)

lemma keeps_refl: "bt_ok (task_list k) \<Longrightarrow> keeps_others t k k"
  by (simp add: keeps_others_def)

lemma keeps_trans: "keeps_others t a b \<Longrightarrow> keeps_others t b c \<Longrightarrow> keeps_others t a c"
  unfolding keeps_others_def by (meson kept_trans)

lemma keeps_ok: "keeps_others t a b \<Longrightarrow> bt_ok (task_list b)"
  by (simp add: keeps_others_def)

text \<open>One step after another: each of the kernel's updates keeps what was kept so far.\<close>

named_theorems keeps
named_theorems keeps_run

lemma keeps_same_tasks:
  assumes "keeps_others t a b" "task_list c = task_list b"
  shows "keeps_others t a c"
  using assms by (simp add: keeps_others_def get_state_def get_task_def)

lemma keeps_modify:
  assumes "keeps_others t a b" "\<And>st. u \<noteq> t \<Longrightarrow> kept st (f st)"
  shows "keeps_others t a (modify_state b u f)"
proof (rule keeps_trans [OF assms(1)])
  show "keeps_others t b (modify_state b u f)"
    using get_modify_state [OF keeps_ok [OF assms(1)], of u f] assms(2) by (auto simp: keeps_others_def)
qed

lemma keeps_own [keeps]: "keeps_others t a b \<Longrightarrow> keeps_others t a (modify_state b t f)"
  by (rule keeps_modify) auto

lemma keeps_set_cspace [keeps]: "keeps_others t a b \<Longrightarrow> keeps_others t a (set_cspace b u cs)"
  unfolding set_cspace_def by (rule keeps_modify) (auto simp: kept_def)

lemma keeps_run_state [keeps]: "keeps_others t a b \<Longrightarrow> keeps_others t a (set_run_state b u r)"
  unfolding set_run_state_def by (rule keeps_modify) (auto simp: kept_def)

lemma keeps_fields [keeps]:
  assumes "keeps_others t a b"
  shows "keeps_others t a (b\<lparr>machine := s\<rparr>)" "keeps_others t a (b\<lparr>arcs := c\<rparr>)" "keeps_others t a (b\<lparr>the_plic := p\<rparr>)"
    "keeps_others t a (b\<lparr>claimed_devices := d\<rparr>)" "keeps_others t a (b\<lparr>console := v\<rparr>)"
    "keeps_others t a (b\<lparr>isr_registry := i\<rparr>)" "keeps_others t a (b\<lparr>trap_frames := w\<rparr>)"
    "keeps_others t a (b\<lparr>next_chan := n\<rparr>)" "keeps_others t a (set_chan b ch x)" "keeps_others t a (set_pma b q)"
    "keeps_others t a (arc_new b r)" "keeps_others t a (arc_clone b r)" "keeps_others t a (set_timer b h now)"
    "keeps_others t a (set_hart b h inner)" "keeps_others t a (b\<lparr>next_id := m\<rparr>)"
  by (rule keeps_same_tasks [OF assms], simp add: set_pma_def arc_new_def arc_clone_def set_timer_def set_hart_def)+

lemma keeps_set_manager [keeps]: "keeps_others t a b \<Longrightarrow> keeps_others t a (set_manager b t s mgr)"
  unfolding set_manager_def by (intro keeps)

lemma keeps_for_loop:
  assumes "for_loop f xs b = Some c" "keeps_others t a b"
    "\<And>x k k'. f x k = Some k' \<Longrightarrow> keeps_others t a k \<Longrightarrow> keeps_others t a k'"
  shows "keeps_others t a c"
  using assms(1,2)
proof (induction xs arbitrary: b)
  case (Cons x xs)
  then show ?case using assms(3) by (auto simp: bind_eq_Some_conv)
qed simp

lemma keeps_arc_drop [keeps_run]: "arc_drop b r = Some c \<Longrightarrow> keeps_others t a b \<Longrightarrow> keeps_others t a c"
  by (auto simp: arc_drop_def bind_eq_Some_conv intro!: keeps)

lemma keeps_drop_memory_region [keeps_run]:
  "drop_memory_region b r = Some c \<Longrightarrow> keeps_others t a b \<Longrightarrow> keeps_others t a c"
  by (cases "(b, r)" rule: drop_memory_region.cases) (auto intro!: keeps intro: keeps_arc_drop split: option.splits)

lemma keeps_drop_resource [keeps_run]: "drop_resource b r = Some c \<Longrightarrow> keeps_others t a b \<Longrightarrow> keeps_others t a c"
  by (cases r) (auto intro: keeps_arc_drop)

lemma keeps_drop_caps [keeps_run]: "drop_caps b cs = Some c \<Longrightarrow> keeps_others t a b \<Longrightarrow> keeps_others t a c"
  unfolding drop_caps_def by (erule keeps_for_loop) (auto intro: keeps_drop_resource)

lemma keeps_drop_manager [keeps_run]: "drop_manager b mgr = Some c \<Longrightarrow> keeps_others t a b \<Longrightarrow> keeps_others t a c"
  unfolding drop_manager_def bind_eq_Some_conv
  by (elim exE conjE, erule keeps_for_loop) (auto intro!: keeps intro: keeps_drop_memory_region split: option.splits)

lemma keeps_register_isr [keeps_run]: "register_isr b i u = Some c \<Longrightarrow> keeps_others t a b \<Longrightarrow> keeps_others t a c"
  by (auto simp: register_isr_def bind_eq_Some_conv intro!: keeps)

lemma keeps_route [keeps_run]: "route_interrupt h u i b = Some c \<Longrightarrow> keeps_others t a b \<Longrightarrow> keeps_others t a c"
  by (auto simp: route_interrupt_def bind_eq_Some_conv Let_def intro!: keeps intro: keeps_register_isr)

lemma keeps_unroute [keeps_run]: "unroute_interrupt h i b = Some c \<Longrightarrow> keeps_others t a b \<Longrightarrow> keeps_others t a c"
  by (auto simp: unroute_interrupt_def unregister_isr_def bind_eq_Some_conv Let_def intro!: keeps split: if_splits)

lemma keeps_wake_one [keeps]: "keeps_others t a b \<Longrightarrow> keeps_others t a (wake_one b c)"
  by (auto simp: wake_one_def intro!: keeps split: list.splits)

lemma keeps_push [keeps]: "keeps_others t a b \<Longrightarrow> keeps_others t a (push_message b c m)"
  unfolding push_message_def by (intro keeps)

lemma keeps_send [keeps_run]:
  assumes "chan_send b s msg = Some (r, c)" "keeps_others t a b"
  shows "keeps_others t a c"
proof -
  have "keeps_others t a b \<longrightarrow> keeps_others t a (snd (r, c))"
    by (rule chan_send.raw_induct [where P = "\<lambda>b s msg y. keeps_others t a b \<longrightarrow> keeps_others t a (snd y)", OF _ assms(1)])
      (auto simp: bind_eq_Some_conv intro!: keeps dest!: send_result split: if_splits option.splits)
  then show ?thesis using assms(2) by simp
qed

lemma keeps_schedule [keeps_run]:
  assumes "schedule x y b h = Some c" "keeps_others t a b"
  shows "keeps_others t a c"
  using schedule_frame [OF assms(1) keeps_ok [OF assms(2)]] assms(2) by (simp add: keeps_others_def)

lemma keeps_channel_new [keeps]: "keeps_others t a b \<Longrightarrow> keeps_others t a (snd (userspace_channel_new b))"
  by (auto simp: userspace_channel_new_def Let_def intro!: keeps)

text \<open>Reasoning about results: what holds of the result of a computation if it returns.\<close>

definition post :: "'a panics \<Rightarrow> ('a \<Rightarrow> bool) \<Rightarrow> bool" where
  "post m Q \<longleftrightarrow> (\<forall>x. m = Some x \<longrightarrow> Q x)"

lemma postI: "(\<And>x. m = Some x \<Longrightarrow> Q x) \<Longrightarrow> post m Q"
  by (simp add: post_def)

lemma postD: "post m Q \<Longrightarrow> m = Some x \<Longrightarrow> Q x"
  by (simp add: post_def)

lemma post_simps [simp]:
  "post (Some x) Q \<longleftrightarrow> Q x" "post None Q" "post (Option.bind m f) Q \<longleftrightarrow> post m (\<lambda>x. post (f x) Q)"
  by (auto simp: post_def bind_eq_Some_conv)

lemmas run_splits = option.split sum.split prod.split list.split CapabilityResource.split if_split

definition keeping :: "tid \<Rightarrow> Kernel \<Rightarrow> syscall_result \<Rightarrow> bool" where
  "keeping t k r \<longleftrightarrow> post r (\<lambda>(res, regs, k'). keeps_others t k k')"

lemma keeps_routes:
  "for_loop (route_interrupt h u) is b = Some c \<Longrightarrow> keeps_others t a b \<Longrightarrow> keeps_others t a c"
  by (erule keeps_for_loop) (auto intro: keeps_route)

lemma keeps_unroutes:
  "for_loop (unroute_interrupt h) is b = Some c \<Longrightarrow> keeps_others t a b \<Longrightarrow> keeps_others t a c"
  by (erule keeps_for_loop) (auto intro: keeps_unroute)

lemma keeps_memory_calls:
  assumes "bt_ok (task_list k)"
  shows "keeping t k (allocate_shared_memory time k t frame)" "keeping t k (allocate_virtual_memory time k t frame)"
    "keeping t k (deallocate_virtual_memory k t frame)" "keeping t k (allocate_device_addressable_memory time k t frame)"
    "keeping t k (query_mem_cap k t frame)" "keeping t k (query_mmio_cap k t frame)"
proof -
  note refl = keeps_refl [OF assms]
  show "keeping t k (allocate_shared_memory time k t frame)" "keeping t k (allocate_virtual_memory time k t frame)"
    "keeping t k (allocate_device_addressable_memory time k t frame)"
    by (auto simp: keeping_def allocate_shared_memory_def allocate_virtual_memory_def
        allocate_device_addressable_memory_def Let_def intro!: postI keeps refl split: run_splits)
  show "keeping t k (query_mem_cap k t frame)" "keeping t k (query_mmio_cap k t frame)"
    by (auto simp: keeping_def query_mem_cap_def query_mmio_cap_def Let_def intro!: postI keeps refl split: run_splits)
  show "keeping t k (deallocate_virtual_memory k t frame)"
    by (auto simp: keeping_def deallocate_virtual_memory_def Let_def intro!: postI refl split: run_splits)
      (erule keeps_drop_memory_region, intro keeps refl)
qed

lemma keeps_print:
  assumes "bt_ok (task_list k)"
  shows "post (print k t start len) (\<lambda>(res, k'). keeps_others t k k')"
  using keeps_refl [OF assms, of t] by (auto simp: print_def intro!: postI keeps split: run_splits)

lemma keeps_device_calls:
  assumes "bt_ok (task_list k)"
  shows "keeping t k (claim_device fdt time k hart t frame)" "keeping t k (complete_interrupt k t frame)"
proof -
  note refl = keeps_refl [OF assms]
  show "keeping t k (claim_device fdt time k hart t frame)"
    by (auto simp: keeping_def claim_device_def Let_def intro!: postI refl split: run_splits)
      (erule keeps_routes, intro keeps refl)
  show "keeping t k (complete_interrupt k t frame)"
    by (auto simp: keeping_def complete_interrupt_def Let_def intro!: postI keeps refl split: run_splits)
qed

lemma keeps_vmspace_calls:
  assumes "bt_ok (task_list k)"
  shows "keeping t k (create_vmspace k hart t frame)" "keeping t k (alloc_vmspace_object search k t frame)"
proof -
  note refl = keeps_refl [OF assms]
  show "keeping t k (create_vmspace k hart t frame)"
    by (auto simp: keeping_def create_vmspace_def vmspace_object_new_def Let_def intro!: postI keeps refl split: run_splits)
  show "keeping t k (alloc_vmspace_object search k t frame)"
    by (auto simp: keeping_def alloc_vmspace_object_def Let_def intro!: postI keeps refl split: run_splits)
qed

lemma keeps_unmap_inprocess: "post (unmap_inprocess t at b) (\<lambda>c. keeps_others t a b \<longrightarrow> keeps_others t a c)"
  by (auto simp: unmap_inprocess_def intro!: postI) (erule keeps_drop_memory_region, intro keeps)

lemma keeps_spawned_task:
  assumes "keeps_others t a b"
  shows "post (spawned_task t name object stack ctx kch user_read c1 c2 child b) (\<lambda>(task, c). keeps_others t a c)"
  using assms postD [OF keeps_unmap_inprocess [of t _ _ a]]
  by (auto simp: spawned_task_def Let_def intro!: postI keeps elim!: keeps_for_loop)

lemma keeps_new_task:
  assumes "keeps_others t a b" "get_task a u = None"
  shows "keeps_others t a (set_task b u task)"
  using get_set_task [OF keeps_ok [OF assms(1)]] set_task_ok [OF keeps_ok [OF assms(1)]] assms
  by (auto simp: keeps_others_def get_state_def)

lemma next_id_same [simp]:
  "next_id (modify_state k t f) = next_id k" "next_id (set_pma k b) = next_id k"
  "next_id (snd (userspace_channel_new k)) = next_id k"
  by (auto simp: modify_state_def set_task_def set_pma_def userspace_channel_new_def Let_def set_chan_def split: option.splits)

lemma keeps_enqueue:
  assumes "keeps_others t a b" "get_task a (next_id b) = None"
    "\<And>u b. keeps_others t a b \<Longrightarrow> post (f u b) (\<lambda>(task, c). keeps_others t a c)"
  shows "post (enqueue_with b hart f) (keeps_others t a)"
proof -
  have "keeps_others t a (b\<lparr>next_id := next_id b + 1\<rparr>)" using assms(1) by (intro keeps)
  note f = postD [OF assms(3) [OF this]]
  show ?thesis
    by (auto simp: enqueue_with_def task_insert_with_def non_zero_def Let_def intro!: postI keeps split: if_split)
      (auto dest!: f intro!: keeps_new_task assms(2))
qed

lemma keeps_channel_new_eq: "userspace_channel_new b = (cs, c) \<Longrightarrow> keeps_others t a b \<Longrightarrow> keeps_others t a c"
  using keeps_channel_new by force

lemma next_id_channel_new: "userspace_channel_new b = (cs, c) \<Longrightarrow> next_id c = next_id b"
  using next_id_same(3) [of b] by simp

lemma keeps_kernel_stack:
  "with_kernel_stack b fr = Some (stack, ctx, c) \<Longrightarrow> keeps_others t a b \<Longrightarrow> keeps_others t a c \<and> next_id c = next_id b"
  by (auto simp: with_kernel_stack_def Let_def bind_eq_Some_conv intro!: keeps)

lemma keeps_spawn_tail:
  assumes "with_kernel_stack b fr = Some (stack, ctx, k2)" "userspace_channel_new k2 = (p, k3)"
    "userspace_channel_new k3 = (q, k4)"
    "enqueue_with k4 hart (spawned_task t nm object stack ctx kch user_read c1 c2) = Some k5"
    "keeps_others t a b" "get_task a (next_id b) = None"
  shows "keeps_others t a k5"
proof -
  have k2: "keeps_others t a k2" "next_id k2 = next_id b" using keeps_kernel_stack assms(1,5) by blast+
  have k3: "keeps_others t a k3" "next_id k3 = next_id b"
    using keeps_channel_new_eq [OF assms(2) k2(1)] next_id_channel_new [OF assms(2)] k2(2) by simp_all
  have k4: "keeps_others t a k4" "next_id k4 = next_id b"
    using keeps_channel_new_eq [OF assms(3) k3(1)] next_id_channel_new [OF assms(3)] k3(2) by simp_all
  have "get_task a (next_id k4) = None" using k4(2) assms(6) by simp
  from keeps_enqueue [OF k4(1) this keeps_spawned_task] assms(4) show ?thesis by (rule postD)
qed

lemma keeps_spawn:
  assumes "bt_ok (task_list k)" "get_task k (next_id k) = None"
  shows "keeping t k (spawn_vmspace k hart t frame)"
proof -
  note own = keeps_own [OF keeps_refl [OF assms(1)]]
  have n: "get_task k (next_id (modify_state k t f)) = None" for f using assms(2) by simp
  show ?thesis
    using keeps_refl [OF assms(1), of t]
    by (auto simp: keeping_def spawn_vmspace_def drop_vmspace_object_def Let_def intro!: postI split: option.split prod.split)
      ((erule keeps_drop_caps, erule keeps_drop_manager, rule own), erule (3) keeps_spawn_tail, rule own, rule n)
qed

lemma keeps_delete:
  assumes "bt_ok (task_list k)"
  shows "keeping t k (delete_capability k hart t frame)"
  using keeps_refl [OF assms, of t]
  by (auto simp: keeping_def delete_capability_def Let_def intro!: postI keeps split: run_splits)
    (auto intro!: keeps elim!: keeps_arc_drop keeps_unroutes keeps_drop_memory_region)

lemma keeps_clone_caps [keeps]:
  "keeps_others t a b \<Longrightarrow> keeps_others t a (clone_caps b caps)"
proof (induction caps arbitrary: b)
  case (Cons cap caps)
  have "keeps_others t a (clone_resource b (cap_resource cap))"
    using Cons.prems by (cases "cap_resource cap") (auto intro: keeps)
  then show ?case using Cons.IH by (simp add: clone_caps_def)
qed (simp add: clone_caps_def)

lemma keeps_send_message:
  assumes "bt_ok (task_list k)"
  shows "post (send_message k t frame) (\<lambda>(res, k'). keeps_others t k k')"
  using keeps_refl [OF assms, of t]
  by (auto simp: send_message_def intro!: postI split: run_splits)
    (auto intro: keeps_send keeps_clone_caps)

lemma keeps_install:
  assumes "keeps_others t a b"
  shows "post (install_cap time b hart t cap) (\<lambda>(r, c). keeps_others t a c)"
proof (cases "cap_resource cap")
  case (ChannelCap ch)
  then show ?thesis using keeps_channel_new_eq [OF _ assms] assms
    by (auto simp: install_channel_def Let_def intro!: postI keeps split: option.split prod.split if_split)
next
  case (SharedMemory rg v kd)
  then show ?thesis using assms by (auto simp: install_shared_memory_def Let_def bind_eq_Some_conv intro!: postI keeps)
next
  case (MmioCap p v ints)
  then show ?thesis using assms
    by (auto simp: install_mmio_def Let_def bind_eq_Some_conv intro!: postI keeps) (erule keeps_routes, intro keeps)
qed

lemma keeps_installs:
  "keeps_others t a b \<Longrightarrow> post (install_caps time b hart t addr i caps) (keeps_others t a)"
proof (induction caps arbitrary: b addr i)
  case (Cons cap caps)
  have i: "keeps_others t a c" if "install_cap (time i) b hart t cap = Some (r, c)" for r c
    using postD [OF keeps_install [OF Cons.prems] that] by simp
  show ?case
  proof (rule postI)
    fix d assume "install_caps time b hart t addr i (cap # caps) = Some d"
    then obtain r c k2 where r: "install_cap (time i) b hart t cap = Some (r, c)"
      and k2: "(case r of None \<Rightarrow> Some c | Some (p, desc) \<Rightarrow> do {
           st \<leftarrow> get_state c t;
           s \<leftarrow> write_user (machine c) (memory_manager st) addr
             (capability_bytes \<lparr> cd_capability = \<lparr> uc_cptr = p, uc_rights = cap_rights cap \<rparr>, cd_description = desc \<rparr>);
           Some (c\<lparr>machine := s\<rparr>) }) = Some k2"
      and d: "install_caps time k2 hart t (addr + 48) (Suc i) caps = Some d"
      by (auto simp del: install_cap.simps simp: bind_eq_Some_conv)
    have "keeps_others t a k2" using k2 i [OF r] by (cases r) (auto simp: bind_eq_Some_conv intro: keeps_fields(1))
    from Cons.IH [OF this] d show "keeps_others t a d" by (rule postD)
  qed
qed simp

lemma keeps_read_finish:
  assumes "keeps_others t a b"
  shows "post (read_finish time b hart t c regs msg) (\<lambda>(res, regs', d). keeps_others t a d)"
proof -
  have i: "keeps_others t a d" if "install_caps time b hart t addr 0 caps = Some d" for addr caps d
    by (rule postD [OF keeps_installs [OF assms] that])
  have d: "keeps_others t a d" if "drop_caps b caps = Some d" for caps d
    by (rule keeps_drop_caps [OF that assms])
  show ?thesis
    using assms by (auto simp: read_finish_def Let_def intro!: postI keeps dest: i d split: run_splits)
qed

lemma keeps_resume_read:
  assumes "keeps_others t a b"
  shows "post (resume_read x y time b hart t c regs) (\<lambda>(res, d). keeps_others t a d)"
proof (cases "queue b c")
  case Nil
  then show ?thesis using assms
    by (auto simp: resume_read_def chan_recv_def wait_def Let_def intro!: postI)
      (erule keeps_schedule, intro keeps)
next
  case (Cons m ms)
  have "keeps_others t a (set_chan b c ((chans b c)\<lparr>chan_queue := ms\<rparr>))" using assms by (intro keeps)
  from postD [OF keeps_read_finish [OF this]] Cons show ?thesis
    by (auto simp: resume_read_def chan_recv_def intro!: postI)
qed

lemma keeps_read_message:
  assumes "bt_ok (task_list k)"
  shows "post (read_message x y time k hart t regs) (\<lambda>(res, k'). keeps_others t k k')"
proof -
  note refl = keeps_refl [OF assms, of t]
  have f: "keeps_others t k d"
    if "read_finish time (set_chan k c ((chans k c)\<lparr>chan_queue := ms\<rparr>)) hart t c regs m = Some (res, regs', d)" for c ms m res regs' d
    using postD [OF keeps_read_finish [OF keeps_fields(9) [OF refl]] that] by simp
  show ?thesis
    using refl postD [OF keeps_resume_read [OF refl]]
    by (auto simp: read_message_def try_recv_def intro!: postI dest: f split: option.split if_split list.split)
qed

text \<open>
  C3. Isolation of system calls: whatever system call a task makes, with whatever arguments, if the call
  returns, blocks or ends the task, then every other task still has its own address space, prepared
  address spaces, kernel channel, claimed interrupts and subscription, unchanged. (The identifier the next new
  task gets is not one of an existing task.)
\<close>

theorem syscall_isolation:
  assumes "handle fdt rd k hart frame = Some (res, k')" "current_task k hart = Some t"
    "bt_ok (task_list k)" "get_task k (next_id k) = None" "u \<noteq> t" "get_state k u = Some st"
  shows "\<exists>st'. get_state k' u = Some st' \<and> memory_manager st' = memory_manager st \<and>
    vmspace_objects st' = vmspace_objects st \<and> kernel_channel st' = kernel_channel st \<and>
    claimed_interrupts st' = claimed_interrupts st \<and> subscribes_to_events st' = subscribes_to_events st"
proof -
  note refl = keeps_refl [OF assms(3), of t]
  have ret: "post (returns r) (\<lambda>(o1, k'). keeps_others t k k')" if "keeping t k r" for r
    using that by (auto simp: returns_def keeping_def post_def bind_eq_Some_conv)
  have exit: "keeps_others t k d" if "schedule x y (set_run_state k t Dead) hart = Some d" for x y d
    by (rule keeps_schedule [OF that]) (intro keeps refl)
  have "post (dispatch fdt rd k hart t s regs) (\<lambda>(o1, k'). keeps_others t k k')" for s regs
    using ret [OF keeps_memory_calls(1) [OF assms(3)]] ret [OF keeps_memory_calls(2) [OF assms(3)]]
      ret [OF keeps_memory_calls(3) [OF assms(3)]] ret [OF keeps_memory_calls(4) [OF assms(3)]]
      ret [OF keeps_memory_calls(5) [OF assms(3)]] ret [OF keeps_memory_calls(6) [OF assms(3)]]
      ret [OF keeps_device_calls(1) [OF assms(3)]] ret [OF keeps_device_calls(2) [OF assms(3)]]
      ret [OF keeps_vmspace_calls(1) [OF assms(3)]] ret [OF keeps_vmspace_calls(2) [OF assms(3)]]
      ret [OF keeps_spawn [OF assms(3,4)]] ret [OF keeps_delete [OF assms(3)]]
      keeps_read_message [OF assms(3)] postD [OF keeps_send_message [OF assms(3)]] postD [OF keeps_print [OF assms(3)]] refl
    by (cases s) (auto simp: dispatch_def intro!: postI keeps dest: exit)
  note d = postD [OF this]
  have "post (handle fdt rd k hart frame) (\<lambda>(o1, k'). keeps_others t k k')"
    using assms(2) refl
    by (auto simp: handle_def Let_def bind_eq_Some_conv intro!: postI dest!: d split: option.split outcome.splits)
  then have "keeps_others t k k'" using assms(1) by (auto simp: post_def)
  then show ?thesis using assms(5,6) by (auto simp: keeps_others_def kept_def)
qed

theorem syscall_isolation_witness:
  "\<exists>k'. handle [] \<lparr> rd_out = 0, rd_in = 0, rd_search = (\<lambda>_ _. 0) \<rparr> demo_channels 0
       \<lparr> sepc = 0, registers = default_registers\<lparr>r_a0 := syscall_number EnableNotifications\<rparr> \<rparr> =
       Some (Returned \<lparr> sepc = 0, registers = default_registers\<lparr>r_a0 := 0\<rparr> \<rparr>, k') \<and>
     (\<exists>st'. get_state k' 2 = Some st' \<and> memory_manager st' = demo_manager)"
proof -
  let ?rd = "\<lparr> rd_out = 0, rd_in = 0, rd_search = (\<lambda>_ _. 0) \<rparr>"
  let ?frame = "\<lparr> sepc = 0, registers = default_registers\<lparr>r_a0 := syscall_number EnableNotifications\<rparr> \<rparr>"
  have n: "from_usize (syscall_number EnableNotifications) = Some EnableNotifications" by (simp add: from_usize_def)
  have cur: "current_task demo_channels 0 = Some 1" by (simp add: demo_channel_simps)
  obtain k' where k': "handle [] ?rd demo_channels 0 ?frame =
      Some (Returned \<lparr> sepc = 0, registers = default_registers\<lparr>r_a0 := 0\<rparr> \<rparr>, k')"
    using n cur by (simp add: handle_def dispatch_def syscall_return_def default_registers_def)
  have "bt_ok (task_list demo_channels)" "get_task demo_channels (next_id demo_channels) = None"
    "get_state demo_channels 2 = Some (mutable_state (demo_task 2 Ready))"
    by (simp_all add: demo_channel_simps bt_ok_def)
  from syscall_isolation [OF k' cur this(1,2) _ this(3)] k' show ?thesis
    by (auto simp: demo_task_def new_mutable_state_def)
qed

section \<open>Errors\<close>

definition clean_error :: "Kernel \<Rightarrow> GeneralRegisters \<Rightarrow> syscall_result \<Rightarrow> bool" where
  "clean_error k regs r \<longleftrightarrow> post r (\<lambda>(res, regs', k'). isl res \<longrightarrow> regs' = regs \<and> k' = k)"

lemma clean_error_calls:
  "clean_error k regs (allocate_shared_memory time k t regs)"
  "clean_error k regs (allocate_virtual_memory time k t regs)"
  "clean_error k regs (deallocate_virtual_memory k t regs)"
  "clean_error k regs (allocate_device_addressable_memory time k t regs)"
  "clean_error k regs (query_mem_cap k t regs)"
  "clean_error k regs (query_mmio_cap k t regs)"
  "clean_error k regs (claim_device fdt time k hart t regs)"
  "clean_error k regs (complete_interrupt k t regs)"
  "clean_error k regs (create_vmspace k hart t regs)"
  "clean_error k regs (alloc_vmspace_object search k t regs)"
  "clean_error k regs (delete_capability k hart t regs)"
  by (auto simp: clean_error_def Let_def allocate_shared_memory_def allocate_virtual_memory_def
      deallocate_virtual_memory_def allocate_device_addressable_memory_def query_mem_cap_def query_mmio_cap_def
      claim_device_def complete_interrupt_def create_vmspace_def alloc_vmspace_object_def delete_capability_def
      intro!: postI split: run_splits)

lemma clean_send_print:
  "post (send_message k t regs) (\<lambda>(res, k'). isl res \<longrightarrow> k' = k)"
  "post (print k t start len) (\<lambda>(res, k'). isl res \<longrightarrow> k' = k)"
  by (auto simp: send_message_def print_def intro!: postI split: run_splits)

text \<open>
  C12. A system call that fails changes nothing: unless it is a read from a channel or the start of a task, a
  system call that returns an error leaves the kernel exactly as it was, and of the task's registers changes
  only \<open>a0\<close>, which the task decodes to that error.
\<close>

theorem failed_syscall_changes_nothing:
  assumes "handle fdt rd k hart frame = Some (Returned frame', k')"
    "from_usize (r_a0 (registers frame)) \<noteq> Some ReadChannel" "from_usize (r_a0 (registers frame)) \<noteq> Some SpawnVmspace"
    "r_a0 (registers frame') \<noteq> 0"
  shows "k' = k \<and> (\<exists>e v. uncook e = Some v \<and> cook v = Some e \<and> frame' = frame\<lparr>registers := (registers frame)\<lparr>r_a0 := v\<rparr>\<rparr>)"
proof -
  let ?regs = "registers frame"
  have cook: "cook v = Some e" if "uncook e = Some v" for e v
    using that uncook_cook [of e] by auto
  obtain t where t: "current_task k hart = Some t" using assms(1) by (auto simp: handle_def bind_eq_Some_conv)
  show ?thesis
  proof (cases "from_usize (r_a0 ?regs)")
    case None
    then show ?thesis using assms(1) t cook [of UnknownSyscall]
      by (auto simp: handle_def Let_def bind_eq_Some_conv intro!: exI [of _ UnknownSyscall])
  next
    case (Some s)
    have ret: "post (returns r) (\<lambda>(o1, k'). case o1 of Returned (res, regs') \<Rightarrow> isl res \<longrightarrow> regs' = ?regs \<and> k' = k | _ \<Rightarrow> True)"
      if "clean_error k ?regs r" for r
      using that by (auto simp: returns_def clean_error_def post_def bind_eq_Some_conv)
    have "post (dispatch fdt rd k hart t s ?regs)
      (\<lambda>(o1, k'). case o1 of Returned (res, regs') \<Rightarrow> isl res \<longrightarrow> regs' = ?regs \<and> k' = k | _ \<Rightarrow> True)"
      using ret [OF clean_error_calls(1)] ret [OF clean_error_calls(2)] ret [OF clean_error_calls(3)]
        ret [OF clean_error_calls(4)] ret [OF clean_error_calls(5)] ret [OF clean_error_calls(6)]
        ret [OF clean_error_calls(7)] ret [OF clean_error_calls(8)] ret [OF clean_error_calls(9)]
        ret [OF clean_error_calls(10)] ret [OF clean_error_calls(11)] postD [OF clean_send_print(1)]
        postD [OF clean_send_print(2)] assms(2,3) Some
      by (cases s) (auto simp: dispatch_def intro!: postI)
    then obtain res regs' where d: "dispatch fdt rd k hart t s ?regs = Some (Returned (res, regs'), k')"
      "isl res \<longrightarrow> regs' = ?regs \<and> k' = k" "map_option (\<lambda>r. frame\<lparr>registers := r\<rparr>) (syscall_return regs' res) = Some frame'"
      using assms(1) t Some
      by (auto simp: handle_def Let_def bind_eq_Some_conv post_def split: outcome.splits)
    then obtain e where "res = Inl e" using assms(4) by (cases res) (auto simp: syscall_return_def)
    then show ?thesis using d cook by (auto simp: syscall_return_def bind_eq_Some_conv)
  qed
qed

theorem failed_syscall_changes_nothing_witness:
  "let frame = \<lparr> sepc = 0, registers = default_registers\<lparr>r_a0 := 99\<rparr> \<rparr> in
   \<exists>e v. handle [] \<lparr> rd_out = 0, rd_in = 0, rd_search = (\<lambda>_ _. 0) \<rparr> demo_channels 0 frame =
       Some (Returned (frame\<lparr>registers := (registers frame)\<lparr>r_a0 := v\<rparr>\<rparr>), demo_channels) \<and> cook v = Some e"
proof -
  let ?rd = "\<lparr> rd_out = 0, rd_in = 0, rd_search = (\<lambda>_ _. 0) \<rparr>"
  let ?frame = "\<lparr> sepc = 0, registers = default_registers\<lparr>r_a0 := 99\<rparr> \<rparr>"
  have n: "from_usize 99 = None" by (simp add: from_usize_def)
  obtain v where v: "uncook UnknownSyscall = Some v" "v \<noteq> 0" using uncook_cook by blast
  have cur: "current_task demo_channels 0 = Some 1" by (simp add: demo_channel_simps)
  let ?frame' = "?frame\<lparr>registers := (registers ?frame)\<lparr>r_a0 := v\<rparr>\<rparr>"
  have h: "handle [] ?rd demo_channels 0 ?frame = Some (Returned ?frame', demo_channels)"
    using n v(1) cur by (simp add: handle_def Let_def)
  have "r_a0 (registers ?frame) = 99" "r_a0 (registers ?frame') = v" by simp_all
  then obtain e w where e: "cook w = Some e" "?frame' = ?frame\<lparr>registers := (registers ?frame)\<lparr>r_a0 := w\<rparr>\<rparr>"
    using failed_syscall_changes_nothing [OF h] n v(2) by (simp only:) blast
  show ?thesis unfolding Let_def by (rule exI [of _ e], rule exI [of _ w]) (simp only: h e simp_thms)
qed

end
