(* ===== verification/Trap.thy ===== *)
theory Trap
  imports Syscalls
begin

text \<open>
  Traps (\<open>trap.rs\<close>): their causes and what the kernel does on each. A handler that switches to another task
  is finished later, when its own task runs again.
\<close>

datatype Trap =
    UserSoftwareInterrupt | SupervisorSoftwareInterrupt | MachineSoftwareInterrupt
  | UserTimerInterrupt | SupervisorTimerInterrupt | MachineTimerInterrupt
  | UserExternalInterrupt | SupervisorExternalInterrupt | MachineExternalInterrupt
  | InstructionAddressMisaligned | InstructionAccessFault | IllegalInstruction | Breakpoint
  | LoadAddressMisaligned | LoadAccessFault | StoreAddressMisaligned | StoreAccessFault
  | UserModeEnvironmentCall | SupervisorModeEnvironmentCall | MachineModeEnvironmentCall
  | InstructionPageFault | LoadPageFault | StorePageFault | Reserved

definition INTERRUPT_BIT :: usize where
  "INTERRUPT_BIT = shl 1 63"

text \<open>The discriminants of the enumeration.\<close>

fun trap_cause :: "Trap \<Rightarrow> usize" where
  "trap_cause UserSoftwareInterrupt = INTERRUPT_BIT OR 0"
| "trap_cause SupervisorSoftwareInterrupt = INTERRUPT_BIT OR 1"
| "trap_cause MachineSoftwareInterrupt = INTERRUPT_BIT OR 3"
| "trap_cause UserTimerInterrupt = INTERRUPT_BIT OR 4"
| "trap_cause SupervisorTimerInterrupt = INTERRUPT_BIT OR 5"
| "trap_cause MachineTimerInterrupt = INTERRUPT_BIT OR 7"
| "trap_cause UserExternalInterrupt = INTERRUPT_BIT OR 8"
| "trap_cause SupervisorExternalInterrupt = INTERRUPT_BIT OR 9"
| "trap_cause MachineExternalInterrupt = INTERRUPT_BIT OR 11"
| "trap_cause InstructionAddressMisaligned = 0"
| "trap_cause InstructionAccessFault = 1"
| "trap_cause IllegalInstruction = 2"
| "trap_cause Breakpoint = 3"
| "trap_cause LoadAddressMisaligned = 4"
| "trap_cause LoadAccessFault = 5"
| "trap_cause StoreAddressMisaligned = 6"
| "trap_cause StoreAccessFault = 7"
| "trap_cause UserModeEnvironmentCall = 8"
| "trap_cause SupervisorModeEnvironmentCall = 9"
| "trap_cause MachineModeEnvironmentCall = 11"
| "trap_cause InstructionPageFault = 12"
| "trap_cause LoadPageFault = 13"
| "trap_cause StorePageFault = 15"
| "trap_cause Reserved = usize_max"

definition from_cause :: "usize \<Rightarrow> Trap" where
  "from_cause cause =
     (if cause = 0x8000000000000000 then UserSoftwareInterrupt
      else if cause = 0x8000000000000001 then SupervisorSoftwareInterrupt
      else if cause = 0x8000000000000003 then MachineSoftwareInterrupt
      else if cause = 0x8000000000000004 then UserTimerInterrupt
      else if cause = 0x8000000000000005 then SupervisorTimerInterrupt
      else if cause = 0x8000000000000007 then MachineTimerInterrupt
      else if cause = 0x8000000000000008 then UserExternalInterrupt
      else if cause = 0x8000000000000009 then SupervisorExternalInterrupt
      else if cause = 0x800000000000000B then MachineExternalInterrupt
      else if cause = 0 then InstructionAddressMisaligned
      else if cause = 1 then InstructionAccessFault
      else if cause = 2 then IllegalInstruction
      else if cause = 3 then Breakpoint
      else if cause = 4 then LoadAddressMisaligned
      else if cause = 5 then LoadAccessFault
      else if cause = 6 then StoreAddressMisaligned
      else if cause = 7 then StoreAccessFault
      else if cause = 8 then UserModeEnvironmentCall
      else if cause = 9 then SupervisorModeEnvironmentCall
      else if cause = 11 then MachineModeEnvironmentCall
      else if cause = 12 then InstructionPageFault
      else if cause = 13 then LoadPageFault
      else if cause = 15 then StorePageFault
      else Reserved)"

section \<open>The handler\<close>

text \<open>
  How a trap ends: the task goes on with its frame, its handler waits for the task to be scheduled again
  (and then goes on with the frame), its system call waits for a message, or the task is gone.
\<close>

datatype trap_end = Continues TrapFrame | SwitchedOut TrapFrame | Waits nat TrapFrame | Gone

text \<open>Scheduling in the middle of the handler: if the hart still runs task \<open>t\<close>, the handler goes on.\<close>

definition reschedule :: "readings \<Rightarrow> u64 \<Rightarrow> Kernel \<Rightarrow> nat \<Rightarrow> tid \<Rightarrow> TrapFrame \<Rightarrow> (trap_end \<times> Kernel) panics" where
  "reschedule rd now k hart t frame = do {
     k1 \<leftarrow> schedule (rd_out rd) (rd_in rd) k hart;
     Some (if current_task k1 hart = Some t then (Continues frame, set_timer k1 hart now) else (SwitchedOut frame, k1))
   }"

text \<open>What a handler that waited for its task to run does next: it sets the timer and returns to the task.\<close>

definition trap_resume :: "u64 \<Rightarrow> Kernel \<Rightarrow> nat \<Rightarrow> TrapFrame \<Rightarrow> trap_end \<times> Kernel" where
  "trap_resume now k hart frame = (Continues frame, set_timer k hart now)"

text \<open>A page fault of a task at \<open>stval\<close> is resolved by the accessed and dirty bits, if the page allows the access.\<close>

definition fault_flags :: "Trap \<Rightarrow> flags \<times> flags" where
  "fault_flags trap =
     (if trap = StorePageFault then (FLAG_WRITE, flags_bitor FLAG_DIRTY FLAG_ACCESSED) else (FLAG_READ, FLAG_ACCESSED))"

definition resolve_fault :: "Machine \<Rightarrow> UserspaceMemoryManager \<Rightarrow> Trap \<Rightarrow> vaddr \<Rightarrow> (bool \<times> Machine) panics" where
  "resolve_fault s mgr trap stval =
     (case map_option region (region_for mgr stval) of
        None \<Rightarrow> Some (False, s)
      | Some None \<Rightarrow> Some (False, s)
      | Some (Some GuardPage) \<Rightarrow> Some (False, s)
      | Some (Some _) \<Rightarrow> do {
          flags \<leftarrow> mgr_page_flags s mgr stval;
          (case flags of
             None \<Rightarrow> Some (False, s)
           | Some fl \<Rightarrow>
               if flags_bitand fl (fst (fault_flags trap))
               then mgr_modify_page_flags s mgr stval (\<lambda>f. flags_bitor f (snd (fault_flags trap)))
               else Some (False, s))
        })"

text \<open>
  Before the task dies, the physical address of the fault is logged: the walk for it panics at an entry of the last
  level that is valid without being a leaf.
\<close>

definition page_fault :: "readings \<Rightarrow> u64 \<Rightarrow> Kernel \<Rightarrow> nat \<Rightarrow> tid \<Rightarrow> Trap \<Rightarrow> TrapFrame \<Rightarrow> usize \<Rightarrow> (trap_end \<times> Kernel) panics" where
  "page_fault rd now k hart t trap frame stval =
     (if is_kernel_region (vaddr_new (sepc frame)) then panic
      else do {
        st \<leftarrow> get_state k t;
        (valid, s) \<leftarrow> resolve_fault (machine k) (memory_manager st) trap (vaddr_new stval);
        let k1 = k\<lparr>machine := s\<rparr>;
        if valid then Some (Continues frame, set_timer k1 hart now)
        else do {
          _ \<leftarrow> mgr_resolve s (memory_manager st) (vaddr_new stval);
          reschedule rd now (set_run_state k1 t Dead) hart t frame
        }
      })"

text \<open>\<open>claimed\<close> is the value read from the claim register of the interrupt controller.\<close>

definition external_interrupt :: "u32 \<Rightarrow> Kernel \<Rightarrow> nat \<Rightarrow> Kernel panics" where
  "external_interrupt claimed k hart =
     (case the_plic k of
        None \<Rightarrow> Some k
      | Some plic \<Rightarrow> do {
          c \<leftarrow> plic_claim claimed plic (current_plic_context (of_nat hart));
          (case c of None \<Rightarrow> Some k | Some interrupt_id \<Rightarrow> invoke_isr k hart interrupt_id)
        })"

definition trap_handler ::
  "fdt_node list \<Rightarrow> readings \<Rightarrow> u64 \<Rightarrow> u32 \<Rightarrow> Kernel \<Rightarrow> nat \<Rightarrow> TrapFrame \<Rightarrow> usize \<Rightarrow> usize \<Rightarrow> (trap_end \<times> Kernel) panics" where
  "trap_handler fdt rd now claimed k hart frame scause stval = do {
     t \<leftarrow> current_task k hart;
     (case from_cause scause of
        SupervisorTimerInterrupt \<Rightarrow> reschedule rd now k hart t frame
      | UserModeEnvironmentCall \<Rightarrow> do {
          (res, k1) \<leftarrow> handle fdt rd k hart frame;
          (case res of
             Returned frame' \<Rightarrow> Some (Continues (frame'\<lparr>sepc := sepc frame' + 4\<rparr>), set_timer k1 hart now)
           | Suspended c \<Rightarrow> Some (Waits c frame, k1)
           | Exited \<Rightarrow> Some (Gone, k1))
        }
      | SupervisorExternalInterrupt \<Rightarrow> do {
          k1 \<leftarrow> external_interrupt claimed k hart;
          Some (Continues frame, set_timer k1 hart now)
        }
      | LoadPageFault \<Rightarrow> page_fault rd now k hart t LoadPageFault frame stval
      | StorePageFault \<Rightarrow> page_fault rd now k hart t StorePageFault frame stval
      | InstructionPageFault \<Rightarrow> page_fault rd now k hart t InstructionPageFault frame stval
      | _ \<Rightarrow> panic)
   }"

text \<open>A read that waited for a message goes on when its task runs again.\<close>

definition resume_wait ::
  "readings \<Rightarrow> u64 \<Rightarrow> Kernel \<Rightarrow> nat \<Rightarrow> tid \<Rightarrow> nat \<Rightarrow> TrapFrame \<Rightarrow> (trap_end \<times> Kernel) panics" where
  "resume_wait rd now k hart t c frame = do {
     (res, k1) \<leftarrow> resume_read (rd_out rd) (rd_in rd) (rd_search rd) k hart t c (registers frame);
     (case res of
        Returned (r, regs) \<Rightarrow> do {
          regs' \<leftarrow> syscall_return regs r;
          Some (Continues (frame\<lparr>registers := regs', sepc := sepc frame + 4\<rparr>), set_timer k1 hart now)
        }
      | Suspended c \<Rightarrow> Some (Waits c frame, k1)
      | Exited \<Rightarrow> Some (Gone, k1))
   }"

section \<open>Properties\<close>

lemma from_cause_trap_cause: "from_cause (trap_cause trap) = trap"
  by (cases trap) (simp_all add: from_cause_def INTERRUPT_BIT_def shl_def usize_max_def)

lemma sched_ok_modify:
  assumes "sched_ok k hart"
  shows "sched_ok (set_run_state (k\<lparr>machine := s\<rparr>) t r) hart"
proof -
  let ?k = "k\<lparr>machine := s\<rparr>"
  have bt: "bt_ok (task_list ?k)" using assms by (simp add: sched_ok_def)
  have same: "get_task ?k = get_task k" by (simp add: get_task_def fun_eq_iff)
  have "get_task (set_run_state ?k t r) u = None \<longleftrightarrow> get_task k u = None" for u
    using get_set_task [OF bt] same by (auto simp: set_run_state_def modify_state_def split: option.splits)
  moreover have "bt_ok (task_list (set_run_state ?k t r))" using set_run_state_simps(2) [OF bt] .
  moreover have "harts (set_run_state ?k t r) = harts k" "current_task (set_run_state ?k t r) = current_task k"
    "n_cpus (set_run_state ?k t r) = n_cpus k"
    by (auto simp: set_run_state_def modify_state_def set_task_def split: option.splits)
  ultimately show ?thesis using assms by (cases "current_task k hart") (simp_all add: sched_ok_def)
qed

lemma reschedule_dead:
  assumes "sched_ok k hart" "current_task k hart = Some t" "get_state k t = Some st" "run_state st = Dead"
    "t \<noteq> rr_idle_tid (sc_policy (harts k hart))"
  shows "\<exists>k'. reschedule rd now k hart t frame = Some (SwitchedOut frame, k') \<and> sched_ok k' hart \<and>
    current_task k' hart \<noteq> Some t \<and> get_state k' = get_state k \<and> machine k' = machine k"
proof -
  obtain k' u where k': "schedule (rd_out rd) (rd_in rd) k hart = Some k'" "sched_ok k' hart"
    "current_task k' = (current_task k)(hart \<mapsto> u)" "is_ready k u \<or> u = rr_idle_tid (sc_policy (harts k hart))"
    using schedule_spec [OF assms(1), of "rd_out rd" "rd_in rd"] by blast
  have "u \<noteq> t" using k'(4) assms(3-5) by (auto simp: is_ready_def)
  moreover have "get_state k' = get_state k" "machine k' = machine k"
    using schedule_frame [OF k'(1)] assms(1) by (simp_all add: sched_ok_def)
  ultimately show ?thesis using k' by (simp add: reschedule_def)
qed

text \<open>A fault may be resolved in a region with memory behind it, at a mapped page that allows the access.\<close>

definition fault_allowed :: "Machine \<Rightarrow> UserspaceMemoryManager \<Rightarrow> Trap \<Rightarrow> vaddr \<Rightarrow> bool" where
  "fault_allowed s mgr trap a \<longleftrightarrow>
     (case map_option region (region_for mgr a) of
        Some (Some m) \<Rightarrow> m \<noteq> GuardPage \<and>
          (case mgr_page_flags s mgr a of Some (Some fl) \<Rightarrow> flags_bitand fl (fst (fault_flags trap)) | _ \<Rightarrow> False)
      | _ \<Rightarrow> False)"

lemma fault_bits:
  "flags_bitand fl (fst (fault_flags trap)) \<Longrightarrow> snd (fault_flags trap) = FLAG_ACCESSED \<or> snd (fault_flags trap) = flags_bitor FLAG_DIRTY FLAG_ACCESSED"
  by (simp add: fault_flags_def)

lemma set_flags_leaf:
  fixes g :: flags
  assumes "pte_kind e = Some Leaf"
  defines "e' \<equiv> pte_set_flags e (flags_bitor (pte_flags e) g)"
  shows "pte_kind e' = Some Leaf" "branch_of e' = None" "pte_flags e' = flags_bitor (pte_flags e) g" "shr e' 10 = shr e 10"
proof -
  have b: "bit e' n \<longleftrightarrow> (if n < 8 then bit e n \<or> bit g n else bit e n)" for n
    unfolding e'_def bit_pte_set_flags by (simp add: flags_bitor_def bit_or_iff pte_flags_def bit_unsigned_iff)
  have e: "bit e 0" "bit e 1 \<or> bit e 3" using assms(1) by (auto simp: pte_kind_eq split: if_splits option.splits)
  show "pte_kind e' = Some Leaf" "branch_of e' = None" using e b [of 0] b [of 1] b [of 3] by (auto simp: pte_kind_eq branch_of_eq)
  show "pte_flags e' = flags_bitor (pte_flags e) g" unfolding e'_def by (simp add: pte_flags_set_flags)
  show "shr e' 10 = shr e 10" by (rule bit_word_eqI) (simp add: shr_def bit_drop_bit_eq b)
qed

text \<open>Addresses in the page of a leaf are read through the same leaf.\<close>

lemma entry_at_level: "entry_at T t cur vs = Some (Some (e, s)) \<Longrightarrow> level s \<le> level cur"
proof (induction vs arbitrary: t cur)
  case (Cons v vs)
  then show ?case
    by (cases "T t v" rule: pte_kind_cases; cases cur) (auto dest: Cons.IH)
qed simp

lemma entry_at_same:
  assumes "entry_at T t cur vs = Some (Some (e, s))" "length vs = Suc (level cur)" "length ws = length vs"
    and "take (length vs - level s) ws = take (length vs - level s) vs"
  shows "entry_at T t cur ws = Some (Some (e, s))"
  using assms
proof (induction vs arbitrary: t cur ws)
  case (Cons v vs)
  obtain w us where ws: "ws = w # us" using Cons.prems(3) by (cases ws) auto
  have l: "level s \<le> level cur" using entry_at_level [OF Cons.prems(1)] .
  then obtain d where d: "length (v # vs) - level s = Suc d" "d = length vs - level s" using Cons.prems(2) by auto
  then have w: "w = v" "take d us = take d vs" using Cons.prems(4) ws by auto
  show ?case
  proof (cases "T t v" rule: pte_kind_cases)
    case (Branch p)
    then obtain nxt where nxt: "page_size_next cur = Some nxt" "entry_at T p nxt vs = Some (Some (e, s))"
      using Cons.prems(1) by (cases "page_size_next cur") auto
    have "length vs = Suc (level nxt)" using nxt(1) Cons.prems(2) by (cases cur) auto
    then have "entry_at T p nxt us = Some (Some (e, s))" using Cons.IH [OF nxt(2)] Cons.prems(3) ws w(2) d(2) by simp
    then show ?thesis using ws w(1) Branch nxt by simp
  qed (use Cons.prems(1) ws w(1) in auto)
qed simp

lemma same_leaf:
  assumes "entry_of m root a = Some (Some (e, sz))" "same_page sz b a"
  shows "entry_of m root b = Some (Some (e, sz))"
  by (rule entry_at_same [OF assms(1)]) (use assms(2) rev_vpns in \<open>simp_all add: take_rev_vpns top_level_def\<close>)

lemma modify_flags_spec:
  assumes ok: "pt_ok m root" and e: "entry_of m root a = Some (Some (e, sz))"
  shows "\<exists>m'. modify_page_flags m root a (\<lambda>f. flags_bitor f g) = Some (True, m') \<and> pt_ok m' root \<and> pma m' = pma m \<and>
    (\<forall>b. resolve m' root b = resolve m root b \<and>
      page_flags m' root b = (if same_page sz b a then Some (Some (flags_bitor (pte_flags e) g)) else page_flags m root b))"
proof -
  let ?f = "\<lambda>e (_ :: PageSize). (True, pte_set_flags e (flags_bitor (pte_flags e) g))"
  let ?e = "pte_set_flags e (flags_bitor (pte_flags e) g)"
  have l: "pte_kind e = Some Leaf" using entry_at_Leaf [OF e] by simp
  note sf = set_flags_leaf [OF l, of g]
  obtain m' where m': "with_entry_mut m root top_level (rev (vpns a)) ?f = Some (Some True, m')" "tbl_ok m' 2 root"
      "reads_after m 2 root top_level (rev (vpns a)) (3 - level sz) (leaf_read ?e sz) m'" "pma m' = pma m"
    using with_entry_mut_spec [OF e, of 2 ?f True ?e] ok rev_vpns [of a] sf(2) by (auto simp: pt_ok_def top_level_def)
  have rd: "entry_of m' root b = (if same_page sz b a then Some (Some (?e, sz)) else entry_of m root b)" for b
    using m'(3) rev_vpns [of b] unfolding reads_after_def by (simp add: take_rev_vpns leaf_read_Leaf [OF sf(1)])
  have "modify_page_flags m root a (\<lambda>f. flags_bitor f g) = Some (True, m')" using m'(1) by (simp add: modify_page_flags_def)
  moreover have "resolve m' root b = resolve m root b \<and>
      page_flags m' root b = (if same_page sz b a then Some (Some (flags_bitor (pte_flags e) g)) else page_flags m root b)" for b
    using e sf(3,4) same_leaf [OF e, of b] by (simp add: resolve_entry_at page_flags_entry_at rd)
  ultimately show ?thesis using m'(2,4) by (auto simp: pt_ok_def)
qed

lemma entry_reads:
  "mgr_resolve s mgr a = None \<longleftrightarrow> entry_of (phys s) (mgr_table mgr) a = None"
  "mgr_page_flags s mgr a = None \<longleftrightarrow> entry_of (phys s) (mgr_table mgr) a = None"
  "mgr_page_flags s mgr a = Some (Some fl) \<longleftrightarrow> (\<exists>e sz. entry_of (phys s) (mgr_table mgr) a = Some (Some (e, sz)) \<and> fl = pte_flags e)"
  by (auto simp: mgr_resolve_def mgr_page_flags_def resolve_entry_at page_flags_entry_at split: option.splits)

lemma resolve_fault_refused:
  assumes "mgr_resolve s mgr a \<noteq> None" "\<not> fault_allowed s mgr trap a"
  shows "resolve_fault s mgr trap a = Some (False, s)"
proof -
  have "mgr_page_flags s mgr a \<noteq> None" using assms(1) by (simp add: entry_reads)
  then show ?thesis using assms(2)
    by (auto simp: resolve_fault_def fault_allowed_def split: option.splits MemoryRegion.splits)
qed

lemma resolve_fault_allowed:
  assumes ok: "mgr_ok s mgr" and a: "fault_allowed s mgr trap a"
  shows "\<exists>s' fl. resolve_fault s mgr trap a = Some (True, s') \<and> bytes s' = bytes s \<and> mgr_ok s' mgr \<and>
    (\<forall>b. mgr_resolve s' mgr b = mgr_resolve s mgr b) \<and> mgr_page_flags s mgr a = Some (Some fl) \<and>
    mgr_page_flags s' mgr a = Some (Some (flags_bitor fl (snd (fault_flags trap))))"
proof -
  obtain rg m fl where rg: "region_for mgr a = Some rg" "region rg = Some m" "m \<noteq> GuardPage"
    "mgr_page_flags s mgr a = Some (Some fl)" "flags_bitand fl (fst (fault_flags trap))"
    using a by (auto simp: fault_allowed_def split: option.splits)
  obtain e sz where e: "entry_of (phys s) (mgr_table mgr) a = Some (Some (e, sz))" "fl = pte_flags e"
    using rg(4) entry_reads(3) by blast
  have pt: "pt_ok (phys s) (mgr_table mgr)" using ok by (simp add: mgr_ok_def)
  obtain m' where m': "modify_page_flags (phys s) (mgr_table mgr) a (\<lambda>f. flags_bitor f (snd (fault_flags trap))) = Some (True, m')"
    "pt_ok m' (mgr_table mgr)" "\<And>b. resolve m' (mgr_table mgr) b = resolve (phys s) (mgr_table mgr) b"
    "page_flags m' (mgr_table mgr) a = Some (Some (flags_bitor fl (snd (fault_flags trap))))"
    using modify_flags_spec [OF pt e(1), of "snd (fault_flags trap)"] e(2) by auto
  have "resolve_fault s mgr trap a = Some (True, s\<lparr>phys := m'\<rparr>)"
    using rg m'(1) by (auto simp: resolve_fault_def mgr_modify_page_flags_def split: MemoryRegion.splits)
  then show ?thesis using rg(4) m'(2-4) ok by (simp add: mgr_ok_def mgr_resolve_def mgr_page_flags_def)
qed

lemma resolve_fault_panics:
  assumes "mgr_resolve s mgr a = None" "resolve_fault s mgr trap a = Some (v, s')"
  shows "\<not> v \<and> s' = s"
  using assms entry_reads(1,2) [of s mgr a] by (auto simp: resolve_fault_def split: option.splits MemoryRegion.splits)

lemma page_fault_trap:
  assumes "current_task k hart = Some t" "from_cause scause \<in> {LoadPageFault, StorePageFault, InstructionPageFault}"
  shows "trap_handler fdt rd now claimed k hart frame scause stval = page_fault rd now k hart t (from_cause scause) frame stval"
  using assms by (auto simp: trap_handler_def)

lemma page_fault_panics:
  assumes "get_state k t = Some st" "mgr_resolve (machine k) (memory_manager st) (vaddr_new stval) = None"
  shows "page_fault rd now k hart t trap frame stval = None"
proof (cases "resolve_fault (machine k) (memory_manager st) trap (vaddr_new stval)")
  case (Some vs)
  obtain v s where "vs = (v, s)" by force
  then show ?thesis using Some resolve_fault_panics [OF assms(2), of trap v s] assms by (simp add: page_fault_def)
qed (use assms(1) in \<open>simp add: page_fault_def\<close>)


abbreviation demo_frame :: TrapFrame where
  "demo_frame \<equiv> \<lparr> sepc = 0x7000, registers = default_registers \<rparr>"

abbreviation demo_readings where
  "demo_readings \<equiv> \<lparr> rd_out = 0, rd_in = 0, rd_search = (\<lambda>_ _. 0) \<rparr>"

definition fault_task :: "UserspaceMemoryManager \<Rightarrow> Task" where
  "fault_task mgr = (demo_task 2 Ready)\<lparr>mutable_state := (mutable_state (demo_task 2 Ready))\<lparr>memory_manager := mgr\<rparr>\<rparr>"

definition fault_kernel :: "Machine \<Rightarrow> UserspaceMemoryManager \<Rightarrow> Kernel" where
  "fault_kernel s mgr = (demo_kernel [(1, demo_task 1 Ready), (2, fault_task mgr)])
     \<lparr>machine := s, current_task := (\<lambda>_. Some 2)\<rparr>"

lemma fault_kernel_ok:
  "sched_ok (fault_kernel s mgr) 0" "current_task (fault_kernel s mgr) 0 = Some 2"
  "get_state (fault_kernel s mgr) 2 = Some (mutable_state (fault_task mgr))" "memory_manager (mutable_state (fault_task mgr)) = mgr"
  "2 \<noteq> rr_idle_tid (sc_policy (harts (fault_kernel s mgr) 0))" "machine (fault_kernel s mgr) = s"
  "\<not> is_kernel_region (vaddr_new (sepc demo_frame))"
proof -
  show "\<not> is_kernel_region (vaddr_new (sepc demo_frame))" by code_simp
qed (simp_all add: fault_kernel_def fault_task_def sched_ok_def demo_kernel_def get_task_def get_state_def bt_get_def bt_ok_def)

lemma demo_load_allowed:
  obtains s mgr where "mgr_ok s mgr" "fault_allowed s mgr LoadPageFault (vaddr_new 0x4000)"
    "mgr_resolve s mgr (vaddr_new 0x4000) \<noteq> None"
proof -
  obtain s mgr where a: "alloc_region (\<lambda>_. 0) demo_machine demo_manager (Some 0x4000) demo_desc = Some ((0x4000, 0x6000), s, mgr)"
    by (rule demo_alloc_region)
  have "case alloc_region (\<lambda>_. 0) demo_machine demo_manager (Some 0x4000) demo_desc of None \<Rightarrow> False
    | Some (_, s, mgr) \<Rightarrow> fault_allowed s mgr LoadPageFault (vaddr_new 0x4000) \<and> mgr_resolve s mgr (vaddr_new 0x4000) \<noteq> None"
    by code_simp
  then show ?thesis using that alloc_region_spec [OF demo_manager_ok demo_hyps a] a by auto
qed


lemma guard_entry:
  assumes "guard s mgr at = Some (s', mgr')" "pt_ok (phys s) (mgr_table mgr)" "same_page Kilopage a at"
  shows "mgr_resolve s' mgr' a = None"
proof -
  let ?fl = "flags_bitor FLAG_USER FLAG_VALID"
  obtain p where p: "pt_map (phys s) (mgr_table mgr) 0 at ?fl Kilopage RSW_NONE = Some p" "phys s' = p" "mgr_table mgr' = mgr_table mgr"
    using assms(1) by (auto simp: guard_def split: Option.bind_splits)
  obtain e where e: "entry_of p (mgr_table mgr) a = leaf_read (install_map 0 ?fl RSW_NONE e) Kilopage"
    using pt_map_spec(3) [OF p(1) assms(2)] assms(3) by auto
  have "pte_flags (install_map 0 ?fl RSW_NONE e) = 0x11"
    by (simp add: install_map_props(1) flags_bitor_def FLAG_USER_def FLAG_VALID_def RSW_NONE_def)
  then have b: "bit (install_map 0 ?fl RSW_NONE e) n = bit (0x11 :: 64 word) n" if "n < 8" for n
    using that bit_pte_flags [of "install_map 0 ?fl RSW_NONE e" n] by simp
  have "leaf_read (install_map 0 ?fl RSW_NONE e) Kilopage = None"
    using b [of 0] b [of 1] b [of 3] by (simp add: leaf_read_def pte_kind_eq bit_numeral_rec)
  then show ?thesis using e p(2,3) by (simp add: entry_reads(1))
qed



end
