(* ===== verification/Riscv_Asm.thy ===== *)
theory Riscv_Asm
  imports Kernel_State
begin

text \<open>
  The assembly of the kernel: context switches (\<open>scheduler/mod.rs\<close>) and the entry and exit of traps
  (\<open>trap.rs\<close>), as lists of instructions with the meaning of each instruction. A load or store moves eight
  bytes; the memory is that of the kernel, by byte.
\<close>

section \<open>Instructions\<close>

type_synonym reg = nat

abbreviation (input) zero :: reg where "zero \<equiv> 0"
abbreviation (input) ra :: reg where "ra \<equiv> 1"
abbreviation (input) sp :: reg where "sp \<equiv> 2"
abbreviation (input) gp :: reg where "gp \<equiv> 3"
abbreviation (input) tp :: reg where "tp \<equiv> 4"
abbreviation (input) t0 :: reg where "t0 \<equiv> 5"
abbreviation (input) t1 :: reg where "t1 \<equiv> 6"
abbreviation (input) t2 :: reg where "t2 \<equiv> 7"
abbreviation (input) s0 :: reg where "s0 \<equiv> 8"
abbreviation (input) s1 :: reg where "s1 \<equiv> 9"
abbreviation (input) a0 :: reg where "a0 \<equiv> 10"
abbreviation (input) a1 :: reg where "a1 \<equiv> 11"
abbreviation (input) a2 :: reg where "a2 \<equiv> 12"
abbreviation (input) a3 :: reg where "a3 \<equiv> 13"
abbreviation (input) a4 :: reg where "a4 \<equiv> 14"
abbreviation (input) a5 :: reg where "a5 \<equiv> 15"
abbreviation (input) a6 :: reg where "a6 \<equiv> 16"
abbreviation (input) a7 :: reg where "a7 \<equiv> 17"
abbreviation (input) s2 :: reg where "s2 \<equiv> 18"
abbreviation (input) s3 :: reg where "s3 \<equiv> 19"
abbreviation (input) s4 :: reg where "s4 \<equiv> 20"
abbreviation (input) s5 :: reg where "s5 \<equiv> 21"
abbreviation (input) s6 :: reg where "s6 \<equiv> 22"
abbreviation (input) s7 :: reg where "s7 \<equiv> 23"
abbreviation (input) s8 :: reg where "s8 \<equiv> 24"
abbreviation (input) s9 :: reg where "s9 \<equiv> 25"
abbreviation (input) s10 :: reg where "s10 \<equiv> 26"
abbreviation (input) s11 :: reg where "s11 \<equiv> 27"
abbreviation (input) t3 :: reg where "t3 \<equiv> 28"
abbreviation (input) t4 :: reg where "t4 \<equiv> 29"
abbreviation (input) t5 :: reg where "t5 \<equiv> 30"
abbreviation (input) t6 :: reg where "t6 \<equiv> 31"

datatype csr = CSatp | CSscratch | CSepc | CScause | CStval | CSstatus | CSie | CFcsr

datatype instr =
    Sd reg usize reg
  | Ld reg usize reg
  | Addi reg reg usize
  | Srli reg reg nat
  | Andi reg reg usize
  | Li reg usize
  | Mv reg reg
  | Csrr reg csr
  | Csrw csr reg
  | Csrs csr reg
  | Csrc csr reg
  | Csrrw reg csr reg
  | Fsd nat usize reg
  | Fld nat usize reg
  | Frcsr reg
  | Fscsr reg
  | Fence
  | SfenceVma
  | ClearReservation

record cpu =
  xs :: "reg \<Rightarrow> usize"
  fs :: "nat \<Rightarrow> usize"
  csrs :: "csr \<Rightarrow> usize"
  mem :: "usize \<Rightarrow> u8"

definition load64 :: "(usize \<Rightarrow> u8) \<Rightarrow> usize \<Rightarrow> usize" where
  "load64 m a = foldr (\<lambda>i v. push_bit (8 * i) (ucast (m (a + of_nat i))) OR v) [0, 1, 2, 3, 4, 5, 6, 7] 0"

definition store64 :: "(usize \<Rightarrow> u8) \<Rightarrow> usize \<Rightarrow> usize \<Rightarrow> usize \<Rightarrow> u8" where
  "store64 m a v = (\<lambda>x. if unat (x - a) < 8 then ucast (drop_bit (8 * unat (x - a)) v) else m x)"

definition set_reg :: "cpu \<Rightarrow> reg \<Rightarrow> usize \<Rightarrow> cpu" where
  "set_reg c r v = (if r = zero then c else c\<lparr>xs := (xs c)(r := v)\<rparr>)"

definition set_csr :: "cpu \<Rightarrow> csr \<Rightarrow> usize \<Rightarrow> cpu" where
  "set_csr c r v = c\<lparr>csrs := (csrs c)(r := v)\<rparr>"

text \<open>The zero register reads as zero.\<close>

definition get_reg :: "cpu \<Rightarrow> reg \<Rightarrow> usize" where
  "get_reg c r = (if r = zero then 0 else xs c r)"

text \<open>An instruction that changes the floating-point state sets the \<open>FS\<close> field of \<open>sstatus\<close> to dirty.\<close>

definition fp_dirty :: "cpu \<Rightarrow> cpu" where
  "fp_dirty c = set_csr c CSstatus (csrs c CSstatus OR push_bit 13 3)"

text \<open>
  \<open>ClearReservation\<close> is the \<open>sc.d zero, zero, 0(sp)\<close> of the trap exit: no reservation on the trap frame is
  held there, so it stores nothing.
\<close>

fun exec1 :: "instr \<Rightarrow> cpu \<Rightarrow> cpu" where
  "exec1 (Sd r off base) c = c\<lparr>mem := store64 (mem c) (get_reg c base + off) (get_reg c r)\<rparr>"
| "exec1 (Ld r off base) c = set_reg c r (load64 (mem c) (get_reg c base + off))"
| "exec1 (Addi r q imm) c = set_reg c r (get_reg c q + imm)"
| "exec1 (Srli r q n) c = set_reg c r (shr (get_reg c q) n)"
| "exec1 (Andi r q imm) c = set_reg c r (get_reg c q AND imm)"
| "exec1 (Li r imm) c = set_reg c r imm"
| "exec1 (Mv r q) c = set_reg c r (get_reg c q)"
| "exec1 (Csrr r q) c = set_reg c r (csrs c q)"
| "exec1 (Csrw q r) c = set_csr c q (get_reg c r)"
| "exec1 (Csrs q r) c = set_csr c q (csrs c q OR get_reg c r)"
| "exec1 (Csrc q r) c = set_csr c q (csrs c q AND NOT (get_reg c r))"
| "exec1 (Csrrw r q p) c = set_reg (set_csr c q (get_reg c p)) r (csrs c q)"
| "exec1 (Fsd f off base) c = c\<lparr>mem := store64 (mem c) (get_reg c base + off) (fs c f)\<rparr>"
| "exec1 (Fld f off base) c = fp_dirty (c\<lparr>fs := (fs c)(f := load64 (mem c) (get_reg c base + off))\<rparr>)"
| "exec1 (Frcsr r) c = set_reg c r (csrs c CFcsr)"
| "exec1 (Fscsr r) c = fp_dirty (set_csr c CFcsr (get_reg c r))"
| "exec1 Fence c = c"
| "exec1 SfenceVma c = c"
| "exec1 ClearReservation c = c"

fun exec :: "instr list \<Rightarrow> cpu \<Rightarrow> cpu" where
  "exec [] c = c"
| "exec (i # is) c = exec is (exec1 i c)"

lemma exec_append [simp]: "exec (is @ js) c = exec js (exec is c)"
  by (induction "is" arbitrary: c) auto

section \<open>Context switches\<close>

definition context_switch :: "instr list" where
  "context_switch = [
     Sd ra 0 a0, Sd sp 8 a0,
     Addi a0 a0 16,
     Sd s0 0 a0, Sd s1 8 a0, Sd s2 16 a0, Sd s3 24 a0, Sd s4 32 a0, Sd s5 40 a0,
     Sd s6 48 a0, Sd s7 56 a0, Sd s8 64 a0, Sd s9 72 a0, Sd s10 80 a0, Sd s11 88 a0,
     Sd zero 0 a2, Fence,
     Ld ra 0 a1, Ld sp 8 a1,
     Addi a1 a1 16,
     Ld s0 0 a1, Ld s1 8 a1, Ld s2 16 a1, Ld s3 24 a1, Ld s4 32 a1, Ld s5 40 a1,
     Ld s6 48 a1, Ld s7 56 a1, Ld s8 64 a1, Ld s9 72 a1, Ld s10 80 a1, Ld s11 88 a1,
     Csrw CSatp a4, SfenceVma,
     Sd zero 0 a3, Fence]"

definition context_load :: "instr list" where
  "context_load = [
     Ld ra 0 a0, Ld sp 8 a0,
     Addi a0 a0 16,
     Ld s0 0 a0, Ld s1 8 a0, Ld s2 16 a0, Ld s3 24 a0, Ld s4 32 a0, Ld s5 40 a0,
     Ld s6 48 a0, Ld s7 56 a0, Ld s8 64 a0, Ld s9 72 a0, Ld s10 80 a0, Ld s11 88 a0,
     Csrw CSatp a2, SfenceVma,
     Mv t0 zero,
     Sd t0 0 a1, Fence]"

section \<open>Leaving to user mode\<close>

definition return_to_usermode :: "instr list" where
  "return_to_usermode = [
     Li t6 0x100, Csrc CSstatus t6,
     Li t6 0x80000, Csrs CSstatus t6,
     Li t6 0x20, Csrs CSstatus t6,
     Li t6 0x222, Csrw CSie t6,
     Ld t6 0 sp, Csrw CSepc t6,
     Ld ra 8 sp, Ld gp 24 sp, Ld tp 32 sp, Ld t0 40 sp, Ld t1 48 sp, Ld t2 56 sp,
     Ld s0 64 sp, Ld s1 72 sp, Ld a0 80 sp, Ld a1 88 sp, Ld a2 96 sp, Ld a3 104 sp,
     Ld a4 112 sp, Ld a5 120 sp, Ld a6 128 sp, Ld a7 136 sp, Ld s2 144 sp, Ld s3 152 sp,
     Ld s4 160 sp, Ld s5 168 sp, Ld s6 176 sp, Ld s7 184 sp, Ld s8 192 sp, Ld s9 200 sp,
     Ld s10 208 sp, Ld s11 216 sp, Ld t3 224 sp, Ld t4 232 sp, Ld t5 240 sp, Ld t6 248 sp,
     Ld sp 16 sp]"

section \<open>Traps\<close>

text \<open>The parts of the trap shim: what comes before the check of the floating-point state, the two optional
  parts, and the way out.\<close>

definition trap_save :: "instr list" where
  "trap_save = [
     Csrrw t6 CSscratch t6,
     Sd sp 24 t6,
     Ld sp 0 t6,
     Addi sp sp (- 256),
     Sd ra 8 sp, Ld ra 24 t6, Sd ra 16 sp, Sd gp 24 sp, Sd tp 32 sp, Sd t0 40 sp,
     Sd t1 48 sp, Sd t2 56 sp, Sd s0 64 sp, Sd s1 72 sp, Sd a0 80 sp, Sd a1 88 sp,
     Sd a2 96 sp, Sd a3 104 sp, Sd a4 112 sp, Sd a5 120 sp, Sd a6 128 sp, Sd a7 136 sp,
     Sd s2 144 sp, Sd s3 152 sp, Sd s4 160 sp, Sd s5 168 sp, Sd s6 176 sp, Sd s7 184 sp,
     Sd s8 192 sp, Sd s9 200 sp, Sd s10 208 sp, Sd s11 216 sp, Sd t3 224 sp, Sd t4 232 sp,
     Sd t5 240 sp,
     Ld tp 8 t6, Ld gp 16 t6,
     Csrrw t6 CSscratch t6,
     Sd t6 248 sp,
     Csrr t6 CSepc, Sd t6 0 sp,
     Mv a0 sp, Csrr a1 CScause, Csrr a2 CStval,
     Csrr s0 CSstatus, Srli s0 s0 13, Andi s0 s0 3, Li s1 3]"

definition fp_save :: "instr list" where
  "fp_save = [
     Addi sp sp (- 264),
     Fsd 0 0 sp, Fsd 1 8 sp, Fsd 2 16 sp, Fsd 3 24 sp, Fsd 4 32 sp, Fsd 5 40 sp,
     Fsd 6 48 sp, Fsd 7 56 sp, Fsd 8 64 sp, Fsd 9 72 sp, Fsd 10 80 sp, Fsd 11 88 sp,
     Fsd 12 96 sp, Fsd 13 104 sp, Fsd 14 112 sp, Fsd 15 120 sp, Fsd 16 128 sp, Fsd 17 136 sp,
     Fsd 18 144 sp, Fsd 19 152 sp, Fsd 20 160 sp, Fsd 21 168 sp, Fsd 22 176 sp, Fsd 23 184 sp,
     Fsd 24 192 sp, Fsd 25 200 sp, Fsd 26 208 sp, Fsd 27 216 sp, Fsd 28 224 sp, Fsd 29 232 sp,
     Fsd 30 240 sp, Fsd 31 248 sp,
     Frcsr t1, Sd t1 256 sp,
     Li t1 0x2000, Csrc CSstatus t1]"

definition fp_restore :: "instr list" where
  "fp_restore = [
     Fld 0 0 sp, Fld 1 8 sp, Fld 2 16 sp, Fld 3 24 sp, Fld 4 32 sp, Fld 5 40 sp,
     Fld 6 48 sp, Fld 7 56 sp, Fld 8 64 sp, Fld 9 72 sp, Fld 10 80 sp, Fld 11 88 sp,
     Fld 12 96 sp, Fld 13 104 sp, Fld 14 112 sp, Fld 15 120 sp, Fld 16 128 sp, Fld 17 136 sp,
     Fld 18 144 sp, Fld 19 152 sp, Fld 20 160 sp, Fld 21 168 sp, Fld 22 176 sp, Fld 23 184 sp,
     Fld 24 192 sp, Fld 25 200 sp, Fld 26 208 sp, Fld 27 216 sp, Fld 28 224 sp, Fld 29 232 sp,
     Fld 30 240 sp, Fld 31 248 sp,
     Ld t1 256 sp, Fscsr t1,
     Addi sp sp 264]"

definition trap_restore :: "instr list" where
  "trap_restore = [
     Ld t6 0 sp, Csrw CSepc t6,
     Li t6 0x20, Csrs CSstatus t6,
     Ld ra 8 sp, Ld gp 24 sp, Ld tp 32 sp, Ld t0 40 sp, Ld t1 48 sp, Ld t2 56 sp,
     Ld s0 64 sp, Ld s1 72 sp, Ld a0 80 sp, Ld a1 88 sp, Ld a2 96 sp, Ld a3 104 sp,
     Ld a4 112 sp, Ld a5 120 sp, Ld a6 128 sp, Ld a7 136 sp, Ld s2 144 sp, Ld s3 152 sp,
     Ld s4 160 sp, Ld s5 168 sp, Ld s6 176 sp, Ld s7 184 sp, Ld s8 192 sp, Ld s9 200 sp,
     Ld s10 208 sp, Ld s11 216 sp, Ld t3 224 sp, Ld t4 232 sp, Ld t5 240 sp, Ld t6 248 sp,
     ClearReservation,
     Ld sp 16 sp]"

text \<open>The shim up to the call of \<open>trap_handler\<close>, from its return on, and as a whole; the handler is an
  argument.\<close>

definition trap_entry :: "cpu \<Rightarrow> cpu" where
  "trap_entry c =
     (let c = exec trap_save c
      in if get_reg c s0 \<noteq> get_reg c s1 then c else exec fp_save c)"

definition trap_exit :: "cpu \<Rightarrow> cpu" where
  "trap_exit c =
     (let c = (if get_reg c s0 \<noteq> get_reg c s1 then c else exec fp_restore c)
      in exec trap_restore c)"

definition stvec_trap_shim :: "(cpu \<Rightarrow> cpu) \<Rightarrow> cpu \<Rightarrow> cpu" where
  "stvec_trap_shim handler c = trap_exit (handler (trap_entry c))"

section \<open>Structures in memory\<close>

text \<open>The \<open>Context\<close> structure at an address, and the one a hart would save.\<close>

definition read_context :: "(usize \<Rightarrow> u8) \<Rightarrow> usize \<Rightarrow> Context" where
  "read_context m a = \<lparr> ctx_ra = load64 m a, ctx_sp = load64 m (a + 8),
     ctx_sx = map (load64 m) [a + 16, a + 24, a + 32, a + 40, a + 48, a + 56, a + 64, a + 72, a + 80, a + 88, a + 96, a + 104] \<rparr>"

definition reg_context :: "cpu \<Rightarrow> Context" where
  "reg_context c = \<lparr> ctx_ra = xs c ra, ctx_sp = xs c sp, ctx_sx = map (xs c) [s0, s1, s2, s3, s4, s5, s6, s7, s8, s9, s10, s11] \<rparr>"

text \<open>The trap frame at an address, and the one of a hart in user mode.\<close>

definition read_frame :: "(usize \<Rightarrow> u8) \<Rightarrow> usize \<Rightarrow> TrapFrame" where
  "read_frame m a = \<lparr> sepc = load64 m a, registers = \<lparr>
     r_ra = load64 m (a + 8), r_sp = load64 m (a + 16), r_gp = load64 m (a + 24), r_tp = load64 m (a + 32),
     r_t0 = load64 m (a + 40), r_t1 = load64 m (a + 48), r_t2 = load64 m (a + 56), r_s0 = load64 m (a + 64),
     r_s1 = load64 m (a + 72), r_a0 = load64 m (a + 80), r_a1 = load64 m (a + 88), r_a2 = load64 m (a + 96),
     r_a3 = load64 m (a + 104), r_a4 = load64 m (a + 112), r_a5 = load64 m (a + 120), r_a6 = load64 m (a + 128),
     r_a7 = load64 m (a + 136), r_s2 = load64 m (a + 144), r_s3 = load64 m (a + 152), r_s4 = load64 m (a + 160),
     r_s5 = load64 m (a + 168), r_s6 = load64 m (a + 176), r_s7 = load64 m (a + 184), r_s8 = load64 m (a + 192),
     r_s9 = load64 m (a + 200), r_s10 = load64 m (a + 208), r_s11 = load64 m (a + 216), r_t3 = load64 m (a + 224),
     r_t4 = load64 m (a + 232), r_t5 = load64 m (a + 240), r_t6 = load64 m (a + 248) \<rparr> \<rparr>"

definition user_frame :: "cpu \<Rightarrow> TrapFrame" where
  "user_frame c = \<lparr> sepc = csrs c CSepc, registers = \<lparr>
     r_ra = xs c ra, r_sp = xs c sp, r_gp = xs c gp, r_tp = xs c tp, r_t0 = xs c t0, r_t1 = xs c t1, r_t2 = xs c t2, r_s0 = xs c s0,
     r_s1 = xs c s1, r_a0 = xs c a0, r_a1 = xs c a1, r_a2 = xs c a2, r_a3 = xs c a3, r_a4 = xs c a4, r_a5 = xs c a5, r_a6 = xs c a6,
     r_a7 = xs c a7, r_s2 = xs c s2, r_s3 = xs c s3, r_s4 = xs c s4, r_s5 = xs c s5, r_s6 = xs c s6, r_s7 = xs c s7, r_s8 = xs c s8,
     r_s9 = xs c s9, r_s10 = xs c s10, r_s11 = xs c s11, r_t3 = xs c t3, r_t4 = xs c t4, r_t5 = xs c t5, r_t6 = xs c t6 \<rparr> \<rparr>"

text \<open>The saved floating-point state, and that of a hart.\<close>

definition read_fp :: "(usize \<Rightarrow> u8) \<Rightarrow> usize \<Rightarrow> usize list \<times> usize" where
  "read_fp m a = (map (\<lambda>i. load64 m (a + i)) [
     0, 8, 16, 24, 32, 40, 48, 56, 64, 72, 80, 88, 96, 104, 112, 120,
     128, 136, 144, 152, 160, 168, 176, 184, 192, 200, 208, 216, 224, 232, 240, 248], load64 m (a + 256))"

definition fp_state :: "cpu \<Rightarrow> usize list \<times> usize" where
  "fp_state c = (map (fs c) [
     0, 1, 2, 3, 4, 5, 6, 7, 8, 9, 10, 11, 12, 13, 14, 15,
     16, 17, 18, 19, 20, 21, 22, 23, 24, 25, 26, 27, 28, 29, 30, 31], csrs c CFcsr)"

definition fp_in_use :: "cpu \<Rightarrow> bool" where
  "fp_in_use c \<longleftrightarrow> shr (csrs c CSstatus) 13 AND 3 = 3"

section \<open>Memory\<close>

definition apart :: "usize \<Rightarrow> usize \<Rightarrow> bool" where
  "apart a b \<longleftrightarrow> 8 \<le> a - b \<and> 8 \<le> b - a"

lemma apart_sym: "apart a b \<longleftrightarrow> apart b a"
  by (auto simp: apart_def)

lemma unat_small: "i < 8 \<Longrightarrow> unat (of_nat i :: usize) = i"
  by (simp add: unat_of_nat_64)

lemma apart_byte:
  assumes ap: "apart a b" and i: "i < 8"
  shows "\<not> unat (a + of_nat i - b) < 8"
proof
  let ?i = "of_nat i :: usize"
  have e: "a + ?i - b = (a - b) + ?i" by simp
  assume "unat (a + ?i - b) < 8"
  then have lt: "unat ((a - b) + ?i) < 8" unfolding e .
  have ab: "8 \<le> unat (a - b)" "8 \<le> unat (b - a)" using ap by (simp_all add: apart_def word_le_nat_alt)
  note ui = unat_small [OF i]
  show False
  proof (cases "unat (a - b) + i < 2 ^ 64")
    case True
    then have "unat ((a - b) + ?i) = unat (a - b) + i" using unat_add_lem [of "a - b" ?i] ui by simp
    then show False using lt ab by simp
  next
    case False
    have "unat ((b - a) + (a - b)) = (unat (b - a) + unat (a - b)) mod 2 ^ 64"
      using unat_word_ariths(1) [of "b - a" "a - b"] by simp
    then have "(unat (b - a) + unat (a - b)) mod 2 ^ 64 = 0" by simp
    then obtain q where q: "unat (b - a) + unat (a - b) = 2 ^ 64 * q" by (auto elim: dvdE)
    have "unat (b - a) + unat (a - b) < 2 ^ 64 * 2"
      using unat_64_less [of "a - b"] unat_64_less [of "b - a"] by linarith
    then have "q < 2" unfolding q by simp
    then have "unat (b - a) + unat (a - b) \<le> 2 ^ 64" unfolding q by simp
    then show False using ab False i by linarith
  qed
qed

lemma load_store_apart: "apart a b \<Longrightarrow> load64 (store64 m b v) a = load64 m a"
  using apart_byte [of a b] apart_byte [of a b 0] apart_byte [of a b 1]
  by (simp add: load64_def store64_def del: of_nat_numeral)

lemma load_store_same [simp]: "load64 (store64 m a v) a = v"
proof -
  have b: "store64 m a v (a + of_nat i) = ucast (drop_bit (8 * i) v)" if "i < 8" for i
    using that by (simp add: store64_def unat_small)
  have "load64 (store64 m a v) a =
    foldr (\<lambda>i w. push_bit (8 * i) (ucast (ucast (drop_bit (8 * i) v) :: u8)) OR w) [0, 1, 2, 3, 4, 5, 6, 7] 0"
    unfolding load64_def by (rule foldr_cong) (auto simp: b b [of 0, simplified] b [of 1, simplified] simp del: of_nat_numeral)
  also have "\<dots> = v"
  proof (rule bit_word_eqI)
    fix n assume "n < LENGTH(64)"
    then have n: "n < 64" by simp
    consider "n < 8" | "8 \<le> n" "n < 16" | "16 \<le> n" "n < 24" | "24 \<le> n" "n < 32"
      | "32 \<le> n" "n < 40" | "40 \<le> n" "n < 48" | "48 \<le> n" "n < 56" | "56 \<le> n" by linarith
    then show "bit (foldr (\<lambda>i w. push_bit (8 * i) (ucast (ucast (drop_bit (8 * i) v) :: u8)) OR w) [0, 1, 2, 3, 4, 5, 6, 7] 0 :: usize) n = bit v n"
      by cases (use n in \<open>simp_all add: bit_simps less_diff_conv2\<close>)
  qed
  finally show ?thesis .
qed

section \<open>Structures that do not overlap\<close>

definition regions_apart :: "usize \<Rightarrow> nat \<Rightarrow> usize \<Rightarrow> nat \<Rightarrow> bool" where
  "regions_apart a n b k \<longleftrightarrow> (\<forall>i j. i < n \<longrightarrow> j < k \<longrightarrow> a + of_nat i \<noteq> b + of_nat j)"

lemma regions_apart_sym: "regions_apart a n b k \<Longrightarrow> regions_apart b k a n"
  unfolding regions_apart_def by metis

lemma regions_apartI:
  assumes "unat a + n \<le> unat b" "unat b + k \<le> 2 ^ 64"
  shows "regions_apart a n b k"
proof -
  have "unat (a + of_nat i) \<noteq> unat (b + of_nat j)" if ij: "i < n" "j < k" for i j
  proof -
    have "unat (a + of_nat i) = unat a + i" using ij assms by (subst unat_word_ariths) (simp add: unat_of_nat_64)
    moreover have "unat (b + of_nat j) = unat b + j" using ij assms by (subst unat_word_ariths) (simp add: unat_of_nat_64)
    ultimately show ?thesis using ij assms by linarith
  qed
  then show ?thesis unfolding regions_apart_def by metis
qed

lemma not_apart:
  assumes "a - b < (8 :: usize)"
  obtains i where "i < 8" "a + of_nat 0 = b + of_nat i"
proof
  show "unat (a - b) < 8" using assms by (simp add: word_less_nat_alt)
  show "a + of_nat 0 = b + of_nat (unat (a - b))" by simp
qed

lemma regions_apart_8:
  assumes "regions_apart a 8 b 8"
  shows "apart a b"
proof (rule ccontr)
  assume "\<not> apart a b"
  then consider "a - b < 8" | "b - a < 8" by (auto simp: apart_def not_le)
  then show False
  proof cases
    case 1
    then obtain i where "i < 8" "a + of_nat 0 = b + of_nat i" by (rule not_apart)
    then show False using assms [unfolded regions_apart_def, rule_format, of 0 i] by simp
  next
    case 2
    then obtain i where "i < 8" "b + of_nat 0 = a + of_nat i" by (rule not_apart)
    then show False using assms [unfolded regions_apart_def, rule_format, of i 0] by simp
  qed
qed

lemma regions_apartD:
  assumes r: "regions_apart a n b k" and "unat x + 8 \<le> n" "unat y + 8 \<le> k"
  shows "apart (a + x) (b + y)"
proof (rule regions_apart_8)
  have "a + of_nat (unat x + i) \<noteq> b + of_nat (unat y + j)" if "i < 8" "j < 8" for i j
    using r that assms(2,3) unfolding regions_apart_def by (meson add_less_le_mono less_le_trans nat_add_left_cancel_less)
  then show "regions_apart (a + x) 8 (b + y) 8" by (auto simp: regions_apart_def add.assoc)
qed

lemmas regions_apartD0 =
  regions_apartD [where x = 0, simplified] regions_apartD [where y = 0, simplified]
  regions_apartD [where x = 0 and y = 0, simplified]

lemma apart_offsets [simp]:
  "apart (a + x) (a + y) = apart x y"
  "apart (a + x) a = apart x 0"
  "apart a (a + y) = apart 0 y"
  by (simp_all add: apart_def)

section \<open>Running the instructions\<close>

lemma apart_numeral [simp]:
  "apart (numeral v) (numeral w) \<longleftrightarrow> 8 \<le> (numeral v :: usize) - numeral w \<and> 8 \<le> (numeral w :: usize) - numeral v"
  "apart 0 (numeral w) \<longleftrightarrow> 8 \<le> - (numeral w :: usize) \<and> 8 \<le> (numeral w :: usize)"
  "apart (numeral w) 0 \<longleftrightarrow> 8 \<le> (numeral w :: usize) \<and> 8 \<le> - (numeral w :: usize)"
  by (simp_all add: apart_def)

lemmas run_simps = get_reg_def set_reg_def set_csr_def load_store_apart add.assoc

lemmas apart_all = regions_apartD regions_apartD0(1,2) regions_apartD0(3)

lemma load_context_apart:
  assumes "regions_apart a 112 b 8"
  shows "read_context (store64 m b v) a = read_context m a"
  using apart_all [OF assms] by (simp add: read_context_def load_store_apart)

definition switch_save :: "instr list" where
  "switch_save = take 17 context_switch"

definition switch_load :: "instr list" where
  "switch_load = drop 17 context_switch"

lemma context_switch_parts: "exec context_switch c = exec switch_load (exec switch_save c)"
  unfolding switch_save_def switch_load_def exec_append [symmetric] by simp

lemma switch_save_context:
  assumes "regions_apart (xs c a0) 112 (xs c a2) 8"
  shows "read_context (mem (exec switch_save c)) (xs c a0) = reg_context c"
  using apart_all [OF assms]
  by (simp add: switch_save_def context_switch_def run_simps read_context_def reg_context_def)

lemma switch_save_other:
  assumes "regions_apart a 112 (xs c a0) 112" "regions_apart a 112 (xs c a2) 8"
  shows "read_context (mem (exec switch_save c)) a = read_context (mem c) a"
  using apart_all [OF assms(1)] apart_all [OF assms(2)]
  by (simp add: switch_save_def context_switch_def run_simps read_context_def)

lemma switch_save_rest:
  "xs (exec switch_save c) a1 = xs c a1" "xs (exec switch_save c) a3 = xs c a3"
  "xs (exec switch_save c) a4 = xs c a4"
  by (simp_all add: switch_save_def context_switch_def run_simps)

lemma switch_load_regs:
  "reg_context (exec switch_load c) = read_context (mem c) (xs c a1)"
  "csrs (exec switch_load c) = (csrs c)(CSatp := xs c a4)"
  "mem (exec switch_load c) = store64 (mem c) (xs c a3) 0"
  by (simp_all add: switch_load_def context_switch_def run_simps read_context_def reg_context_def)

text \<open>
  C11. Switching from one task to another: for two \<open>Context\<close> structures that overlap neither each other nor
  the eight bytes at either lock, the callee-saved registers of the hart end up in the structure of the
  outgoing task, exactly as \<open>Context\<close> lays them out, the hart holds those of the incoming task, \<open>satp\<close> is the
  given one, and both locks read as released.
\<close>

theorem context_switch_swaps:
  assumes "regions_apart (xs c a1) 112 (xs c a0) 112" "regions_apart (xs c a1) 112 (xs c a2) 8"
    and "regions_apart (xs c a0) 112 (xs c a2) 8" "regions_apart (xs c a0) 112 (xs c a3) 8"
    and "regions_apart (xs c a2) 8 (xs c a3) 8"
  shows "let c' = exec context_switch c in
    read_context (mem c') (xs c a0) = reg_context c \<and>
    reg_context c' = read_context (mem c) (xs c a1) \<and>
    csrs c' = (csrs c)(CSatp := xs c a4) \<and>
    load64 (mem c') (xs c a2) = 0 \<and> load64 (mem c') (xs c a3) = 0"
proof -
  have "load64 (mem (exec switch_save c)) (xs c a2) = 0"
    by (simp add: switch_save_def context_switch_def run_simps)
  moreover have "csrs (exec switch_save c) = csrs c"
    by (simp add: switch_save_def context_switch_def run_simps)
  ultimately show ?thesis
    using assms
    by (simp add: context_switch_parts Let_def switch_load_regs switch_save_rest switch_save_context
      load_context_apart switch_save_other load_store_apart regions_apart_8)
qed

section \<open>The trap shim\<close>

lemma trap_save_frame:
  assumes r: "regions_apart (csrs c CSscratch) 32 b 256" and "load64 (mem c) (csrs c CSscratch) = b + 256"
  shows "read_frame (mem (exec trap_save c)) b = user_frame c"
    "xs (exec trap_save c) a0 = b" "xs (exec trap_save c) sp = b"
    "xs (exec trap_save c) a1 = csrs c CScause" "xs (exec trap_save c) a2 = csrs c CStval"
    "xs (exec trap_save c) s0 = shr (csrs c CSstatus) 13 AND 3" "xs (exec trap_save c) s1 = 3"
    "csrs (exec trap_save c) = csrs c" "fs (exec trap_save c) = fs c"
  using assms(2) apart_all [OF r] apart_all [OF regions_apart_sym [OF r]]
  by (simp_all add: trap_save_def run_simps read_frame_def user_frame_def)

lemma trap_restore_frame:
  "user_frame (exec trap_restore c) = read_frame (mem c) (xs c sp)"
  "fp_state (exec trap_restore c) = fp_state c"
  by (simp_all add: trap_restore_def run_simps read_frame_def user_frame_def fp_state_def)

lemma fp_restore_state:
  "fp_state (exec fp_restore c) = read_fp (mem c) (xs c sp)"
  "mem (exec fp_restore c) = mem c" "xs (exec fp_restore c) sp = xs c sp + 264"
  by (simp_all add: fp_restore_def run_simps read_fp_def fp_state_def fp_dirty_def)

lemma fp_save_state:
  assumes "xs c sp = b + 264"
  shows "read_fp (mem (exec fp_save c)) b = fp_state c"
    "read_frame (mem (exec fp_save c)) (b + 264) = read_frame (mem c) (b + 264)"
    "xs (exec fp_save c) sp = b" "r \<noteq> sp \<Longrightarrow> r \<noteq> t1 \<Longrightarrow> xs (exec fp_save c) r = xs c r"
  using assms by (simp_all add: fp_save_def run_simps read_fp_def fp_state_def read_frame_def)

lemma regions_apart_sub:
  assumes "regions_apart a n b k" "unat i + l \<le> k"
  shows "regions_apart a n (b + i) l"
proof -
  have "a + of_nat p \<noteq> b + of_nat (unat i + q)" if "p < n" "q < l" for p q
    using assms(1) [unfolded regions_apart_def, rule_format, of p "unat i + q"] that assms(2) by simp
  then show ?thesis by (simp add: regions_apart_def add.assoc)
qed

text \<open>The state in which \<open>trap_handler\<close> is called.\<close>

lemma trap_entry_state:
  assumes r: "regions_apart (csrs c CSscratch) 32 b 520" and l: "load64 (mem c) (csrs c CSscratch) = b + 520"
  defines "c' \<equiv> trap_entry c"
  shows "read_frame (mem c') (b + 264) = user_frame c"
    "xs c' a0 = b + 264" "xs c' a1 = csrs c CScause" "xs c' a2 = csrs c CStval"
    "xs c' s0 = xs c' s1 \<longleftrightarrow> fp_in_use c"
    "xs c' sp = (if fp_in_use c then b else b + 264)"
    "fp_in_use c \<Longrightarrow> read_fp (mem c') b = fp_state c"
proof -
  have "regions_apart (csrs c CSscratch) 32 (b + 264) 256" by (rule regions_apart_sub [OF r]) simp
  moreover have "load64 (mem c) (csrs c CSscratch) = (b + 264) + 256" using l by simp
  note sv = trap_save_frame [OF calculation this]
  note fs = fp_save_state [OF sv(3)]
  have fp: "fp_state (exec trap_save c) = fp_state c" by (simp add: fp_state_def sv)
  show "read_frame (mem c') (b + 264) = user_frame c"
    "xs c' a0 = b + 264" "xs c' a1 = csrs c CScause" "xs c' a2 = csrs c CStval"
    "xs c' s0 = xs c' s1 \<longleftrightarrow> fp_in_use c"
    "xs c' sp = (if fp_in_use c then b else b + 264)"
    "fp_in_use c \<Longrightarrow> read_fp (mem c') b = fp_state c"
    by (simp_all add: c'_def trap_entry_def Let_def get_reg_def sv fs fp fp_in_use_def)
qed

text \<open>
  C8. A trap is transparent to the interrupted program except for what the handler writes into the trap
  frame: the handler is called with the address of a frame that holds the program counter and all
  thirty-one registers of the program, with \<open>scause\<close> and \<open>stval\<close>; afterwards the program counter and all
  registers are the ones the frame holds when the handler returns, and a program whose floating-point state
  was dirty gets that state back unchanged. The handler, as a called function does, keeps the callee-saved
  registers the shim relies on and, where the floating-point state was saved on the stack above its own stack
  pointer, that part of the stack; below its stack pointer it may write.
\<close>

theorem trap_shim_frame:
  assumes "regions_apart (csrs c CSscratch) 32 b 520" "load64 (mem c) (csrs c CSscratch) = b + 520"
    and "\<forall>r\<in>{sp, s0, s1}. xs (handler (trap_entry c)) r = xs (trap_entry c) r"
    and "fp_in_use c \<longrightarrow> read_fp (mem (handler (trap_entry c))) b = read_fp (mem (trap_entry c)) b"
  shows "read_frame (mem (trap_entry c)) (b + 264) = user_frame c \<and>
    map (xs (trap_entry c)) [a0, a1, a2] = [b + 264, csrs c CScause, csrs c CStval] \<and>
    user_frame (stvec_trap_shim handler c) = read_frame (mem (handler (trap_entry c))) (b + 264) \<and>
    (if fp_in_use c then fp_state (stvec_trap_shim handler c) = fp_state c
     else fp_state (stvec_trap_shim handler c) = fp_state (handler (trap_entry c)))"
  using assms(3,4)
  by (cases "fp_in_use c") (simp_all add: trap_entry_state [OF assms(1,2)] stvec_trap_shim_def trap_exit_def Let_def get_reg_def
    trap_restore_frame fp_restore_state)

lemma return_to_usermode_frame:
  "user_frame (exec return_to_usermode c) = read_frame (mem c) (xs c sp)"
  by (simp add: return_to_usermode_def run_simps read_frame_def user_frame_def)

lemma context_load_context:
  "reg_context (exec context_load c) = read_context (mem c) (xs c a0)"
  "csrs (exec context_load c) = (csrs c)(CSatp := xs c a2)"
  "mem (exec context_load c) = store64 (mem c) (xs c a1) 0"
  by (simp_all add: context_load_def run_simps read_context_def reg_context_def)

definition demo_cpu :: cpu where
  "demo_cpu = \<lparr> xs = (\<lambda>r. of_nat r)(a0 := 0x1000, a1 := 0x2000, a2 := 0x3000, a3 := 0x4000, a4 := 7),
     fs = (\<lambda>f. of_nat f), csrs = (\<lambda>_. 0)(CSscratch := 0x5000, CSstatus := 0x6000, CSepc := 0x100),
     mem = store64 (\<lambda>_. 0) 0x5000 0x9000 \<rparr>"

lemma demo_cpu_simps [simp]:
  "xs demo_cpu a0 = 0x1000" "xs demo_cpu a1 = 0x2000" "xs demo_cpu a2 = 0x3000" "xs demo_cpu a3 = 0x4000"
  "csrs demo_cpu CSscratch = 0x5000" "load64 (mem demo_cpu) 0x5000 = 0x9000"
  by (simp_all add: demo_cpu_def)

lemma context_switch_swaps_witness:
  "let c = exec context_switch demo_cpu in
    read_context (mem c) 0x1000 = reg_context demo_cpu \<and> reg_context c = read_context (mem demo_cpu) 0x2000"
proof -
  have "regions_apart 0x2000 112 0x1000 112" "regions_apart 0x2000 112 0x3000 8" "regions_apart 0x1000 112 0x3000 8"
    "regions_apart 0x1000 112 0x4000 8" "regions_apart 0x3000 8 0x4000 8"
    using regions_apart_sym [OF regions_apartI [of "0x1000" 112 "0x2000" 112]] by (simp_all add: regions_apartI)
  then show ?thesis using context_switch_swaps [of demo_cpu] by (simp add: Let_def)
qed

lemma demo_shim:
  assumes "csrs c CSscratch = 0x5000" "load64 (mem c) 0x5000 = 0x9000"
  shows "regions_apart (csrs c CSscratch) 32 (0x9000 - 520) 520"
    "load64 (mem c) (csrs c CSscratch) = (0x9000 - 520) + 520"
  using assms by (simp_all add: regions_apartI)

text \<open>
  A handler that advances the program counter and writes below its stack pointer, for a program with a dirty and for one with a
  clean floating-point state.
\<close>

definition demo_handler :: "cpu \<Rightarrow> cpu" where
  "demo_handler c = c\<lparr>mem := store64 (store64 (mem c) (xs c sp - 8) 0xFF) (xs c a0) 0x104\<rparr>"

definition demo_clean :: cpu where
  "demo_clean = demo_cpu\<lparr>csrs := (csrs demo_cpu)(CSstatus := 0)\<rparr>"

lemma trap_shim_frame_witness:
  "fp_in_use demo_cpu \<and> \<not> fp_in_use demo_clean \<and>
   user_frame (stvec_trap_shim demo_handler demo_cpu) = (user_frame demo_cpu)\<lparr>sepc := 0x104\<rparr> \<and>
   fp_state (stvec_trap_shim demo_handler demo_cpu) = fp_state demo_cpu \<and>
   user_frame (stvec_trap_shim demo_handler demo_clean) = (user_frame demo_clean)\<lparr>sepc := 0x104\<rparr>"
proof -
  have hyps: "csrs demo_cpu CSscratch = 0x5000" "load64 (mem demo_cpu) 0x5000 = 0x9000"
    "csrs demo_clean CSscratch = 0x5000" "load64 (mem demo_clean) 0x5000 = 0x9000"
    by (simp_all add: demo_clean_def)
  note d = demo_shim [OF hyps(1,2)] and cl = demo_shim [OF hyps(3,4)]
  have use: "fp_in_use demo_cpu" "\<not> fp_in_use demo_clean"
    by (simp_all add: fp_in_use_def demo_clean_def demo_cpu_def shr_def)
  note sd = trap_entry_state [OF d] and sc = trap_entry_state [OF cl]
  have keep: "\<forall>r\<in>{sp, s0, s1}. xs (demo_handler (trap_entry c)) r = xs (trap_entry c) r" for c by (simp add: demo_handler_def)
  have fp: "read_fp (mem (demo_handler (trap_entry demo_cpu))) (0x9000 - 520) = read_fp (mem (trap_entry demo_cpu)) (0x9000 - 520)"
    using sd(2,6) use by (simp add: demo_handler_def read_fp_def load_store_apart)
  have fd: "read_frame (mem (demo_handler (trap_entry demo_cpu))) (0x9000 - 520 + 264) =
    (read_frame (mem (trap_entry demo_cpu)) (0x9000 - 520 + 264))\<lparr>sepc := 0x104\<rparr>"
    using sd(2,6) use by (simp add: demo_handler_def read_frame_def load_store_apart)
  have fc: "read_frame (mem (demo_handler (trap_entry demo_clean))) (0x9000 - 520 + 264) =
    (read_frame (mem (trap_entry demo_clean)) (0x9000 - 520 + 264))\<lparr>sepc := 0x104\<rparr>"
    using sc(2,6) use by (simp add: demo_handler_def read_frame_def load_store_apart)
  show ?thesis
    using use fd fc sd(1) sc(1) trap_shim_frame [where handler = demo_handler, OF d keep impI [OF fp]]
      trap_shim_frame [where handler = demo_handler, OF cl keep] by simp
qed

end
