(* ===== verification/Sync.thy ===== *)
theory Sync
  imports Kernel_Utils
begin

text \<open>
  The locks of the kernel (\<open>sync/\<close>) under interleaving: \<open>SpinMutex\<close> with the deadlock detection of
  \<open>utils.rs\<close>, \<open>SpinRwLock\<close> and \<open>Lazy\<close>. Each hart is at a point of the code between two atomic accesses, and
  a step is one atomic access of one hart. The accesses are sequentially consistent here.
\<close>

section \<open>Interleaving\<close>

text \<open>
  \<open>run i ch s p\<close> is what hart \<open>i\<close> does next from point \<open>p\<close>, if \<open>ch\<close> applies there; \<open>ch\<close> is what the code
  of the hart decides (which operation to call) and what the hardware does (a spurious failure).
\<close>

type_synonym ('ch, 's, 'pc) runs = "usize \<Rightarrow> 'ch \<Rightarrow> 's \<Rightarrow> 'pc \<Rightarrow> ('s \<times> 'pc) option"

inductive reachable :: "('ch, 's, 'pc) runs \<Rightarrow> 's \<Rightarrow> 'pc \<Rightarrow> 's \<Rightarrow> (usize \<Rightarrow> 'pc) \<Rightarrow> bool" for run s0 p0 where
  start: "reachable run s0 p0 s0 (\<lambda>_. p0)"
| step: "\<lbrakk>reachable run s0 p0 s pcs; i \<noteq> - 1; run i ch s (pcs i) = Some (s', p')\<rbrakk> \<Longrightarrow>
    reachable run s0 p0 s' (pcs(i := p'))"

fun run_trace :: "('ch, 's, 'pc) runs \<Rightarrow> (usize \<times> 'ch) list \<Rightarrow> 's \<times> (usize \<Rightarrow> 'pc) \<Rightarrow> ('s \<times> (usize \<Rightarrow> 'pc)) option" where
  "run_trace run [] st = Some st"
| "run_trace run ((i, ch) # tr) (s, pcs) =
     (case run i ch s (pcs i) of
        None \<Rightarrow> None
      | Some (s', p') \<Rightarrow> run_trace run tr (s', pcs(i := p')))"

lemma run_trace_reachable:
  assumes "run_trace run tr (s, pcs) = Some (s', pcs')" "reachable run s0 p0 s pcs" "\<forall>(i, _)\<in>set tr. i \<noteq> - 1"
  shows "reachable run s0 p0 s' pcs'"
  using assms
proof (induction tr arbitrary: s pcs)
  case (Cons a tr)
  then obtain i ch where a: "a = (i, ch)" by (cases a)
  with Cons.prems obtain s1 p1 where 1: "run i ch s (pcs i) = Some (s1, p1)"
    and 2: "run_trace run tr (s1, pcs(i := p1)) = Some (s', pcs')" by (auto split: option.splits)
  have "reachable run s0 p0 s1 (pcs(i := p1))" using Cons.prems 1 a by (auto intro: reachable.step)
  then show ?case using Cons 2 by auto
qed simp

section \<open>The mutex\<close>

record SpinMutex =
  mx_lock :: bool
  mx_hart_id :: usize

definition mutex_new :: SpinMutex where
  "mutex_new = \<lparr> mx_lock = False, mx_hart_id = - 1 \<rparr>"

definition would_deadlock :: "usize \<Rightarrow> SpinMutex \<Rightarrow> bool" where
  "would_deadlock hart m \<longleftrightarrow> mx_hart_id m = hart"

definition gather_metadata :: "usize \<Rightarrow> SpinMutex \<Rightarrow> SpinMutex" where
  "gather_metadata hart m = m\<lparr>mx_hart_id := hart\<rparr>"

definition unlocked :: "SpinMutex \<Rightarrow> SpinMutex" where
  "unlocked m = m\<lparr>mx_hart_id := - 1\<rparr>"

text \<open>\<open>compare_exchange_weak(false, true)\<close>, which may fail spuriously.\<close>

definition mutex_cas :: "bool \<Rightarrow> SpinMutex \<Rightarrow> SpinMutex option" where
  "mutex_cas spurious m = (if mx_lock m \<or> spurious then None else Some (m\<lparr>mx_lock := True\<rparr>))"

text \<open>
  Where a hart is. The flag of a point tells whether the hart already holds the guard, from an earlier call
  that it has not dropped.
\<close>

datatype mutex_pc =
    Outside
  | Acquiring bool
  | Refused bool
  | Trying bool
  | Won
  | Inside
  | Releasing
  | Deadlocked bool
  | TimedOut bool

text \<open>What the hart does: call one of the operations, or go on, with a spurious failure or with the waiting time over.\<close>

datatype mutex_choice = CallLock | CallTryLock | CallUnlock | Go bool bool

fun acquire_lock_step :: "usize \<Rightarrow> bool \<Rightarrow> bool \<Rightarrow> SpinMutex \<Rightarrow> mutex_pc \<Rightarrow> (SpinMutex \<times> mutex_pc) option" where
  "acquire_lock_step hart spurious timeup m (Acquiring held) =
     (case mutex_cas spurious m of
        Some m' \<Rightarrow> Some (m', Won)
      | None \<Rightarrow> Some (m, Refused held))"
| "acquire_lock_step hart spurious timeup m (Refused held) =
     (if would_deadlock hart m then Some (m, Deadlocked held)
      else if timeup then Some (m, TimedOut held)
      else Some (m, Acquiring held))"
| "acquire_lock_step hart spurious timeup m Won = Some (gather_metadata hart m, Inside)"
| "acquire_lock_step hart spurious timeup m _ = None"

fun try_lock_step :: "bool \<Rightarrow> SpinMutex \<Rightarrow> mutex_pc \<Rightarrow> (SpinMutex \<times> mutex_pc) option" where
  "try_lock_step spurious m (Trying held) =
     (case mutex_cas spurious m of
        Some m' \<Rightarrow> Some (m', Won)
      | None \<Rightarrow> Some (m, if held then Inside else Outside))"
| "try_lock_step spurious m _ = None"

fun unlock_step :: "SpinMutex \<Rightarrow> mutex_pc \<Rightarrow> (SpinMutex \<times> mutex_pc) option" where
  "unlock_step m Inside = Some (unlocked m, Releasing)"
| "unlock_step m Releasing = Some (m\<lparr>mx_lock := False\<rparr>, Outside)"
| "unlock_step m _ = None"

fun mutex_run :: "(mutex_choice, SpinMutex, mutex_pc) runs" where
  "mutex_run hart CallLock m Outside = Some (m, Acquiring False)"
| "mutex_run hart CallLock m Inside = Some (m, Acquiring True)"
| "mutex_run hart CallTryLock m Outside = Some (m, Trying False)"
| "mutex_run hart CallTryLock m Inside = Some (m, Trying True)"
| "mutex_run hart CallUnlock m Inside = unlock_step m Inside"
| "mutex_run hart (Go spurious timeup) m Releasing = unlock_step m Releasing"
| "mutex_run hart (Go spurious timeup) m (Trying held) = try_lock_step spurious m (Trying held)"
| "mutex_run hart (Go spurious timeup) m (Acquiring held) = acquire_lock_step hart spurious timeup m (Acquiring held)"
| "mutex_run hart (Go spurious timeup) m (Refused held) = acquire_lock_step hart spurious timeup m (Refused held)"
| "mutex_run hart (Go spurious timeup) m Won = acquire_lock_step hart spurious timeup m Won"
| "mutex_run hart ch m p = None"

fun holds :: "mutex_pc \<Rightarrow> bool" where
  "holds Outside = False"
| "holds (Acquiring held) = held"
| "holds (Refused held) = held"
| "holds (Trying held) = held"
| "holds Won = True"
| "holds Inside = True"
| "holds Releasing = True"
| "holds (Deadlocked held) = held"
| "holds (TimedOut held) = held"

definition mutex_inv :: "SpinMutex \<Rightarrow> (usize \<Rightarrow> mutex_pc) \<Rightarrow> bool" where
  "mutex_inv m pcs \<longleftrightarrow>
     (if mx_lock m then
        \<exists>own. (\<forall>i. holds (pcs i) \<longleftrightarrow> i = own) \<and>
          mx_hart_id m = (if pcs own \<in> {Won, Releasing} then - 1 else own)
      else mx_hart_id m = - 1 \<and> (\<forall>i. \<not> holds (pcs i)))"

lemma mutex_inv_lockedI:
  assumes "mx_lock m" "\<And>i. holds (pcs i) \<longleftrightarrow> i = own"
    and "mx_hart_id m = (if pcs own \<in> {Won, Releasing} then - 1 else own)"
  shows "mutex_inv m pcs"
  using assms by (auto simp: mutex_inv_def)

lemma mutex_inv_freeI: "\<lbrakk>\<not> mx_lock m; mx_hart_id m = - 1; \<And>i. \<not> holds (pcs i)\<rbrakk> \<Longrightarrow> mutex_inv m pcs"
  by (auto simp: mutex_inv_def)

lemma mutex_inv_step:
  assumes "mutex_inv s pcs" "i \<noteq> - 1" "mutex_run i ch s (pcs i) = Some (s', p')"
  shows "mutex_inv s' (pcs(i := p'))"
proof (cases "mx_lock s")
  case True
  then obtain own where own: "\<And>j. holds (pcs j) \<longleftrightarrow> j = own"
      "mx_hart_id s = (if pcs own \<in> {Won, Releasing} then - 1 else own)"
    using assms(1) by (auto simp: mutex_inv_def)
  show ?thesis
  proof (cases "i = own")
    case o: True
    then have "holds (pcs i)" using own(1) by simp
    then have "mx_lock s' \<and> holds p' \<and> mx_hart_id s' = (if p' \<in> {Won, Releasing} then - 1 else own) \<or>
        \<not> mx_lock s' \<and> mx_hart_id s' = - 1 \<and> \<not> holds p'"
      using True own(2) assms(2,3) o
      by (cases "pcs i"; cases ch)
        (auto simp: mutex_cas_def would_deadlock_def gather_metadata_def unlocked_def split: if_splits)
    then show ?thesis
    proof
      assume "mx_lock s' \<and> holds p' \<and> mx_hart_id s' = (if p' \<in> {Won, Releasing} then - 1 else own)"
      then show ?thesis using own(1) o by (intro mutex_inv_lockedI [where own = own]) auto
    next
      assume "\<not> mx_lock s' \<and> mx_hart_id s' = - 1 \<and> \<not> holds p'"
      then show ?thesis using own(1) o by (intro mutex_inv_freeI) auto
    qed
  next
    case o: False
    then have "\<not> holds (pcs i)" using own(1) by simp
    then have "s' = s \<and> \<not> holds p'"
      using True own(2) assms(2,3) o
      by (cases "pcs i"; cases ch) (auto simp: mutex_cas_def would_deadlock_def split: if_splits)
    then show ?thesis using True own o by (intro mutex_inv_lockedI [where own = own]) simp_all
  qed
next
  case False
  then have free: "mx_hart_id s = - 1" "\<And>j. \<not> holds (pcs j)" using assms(1) by (auto simp: mutex_inv_def)
  then have "\<not> holds (pcs i)" by simp
  then have "(s' = s \<and> \<not> holds p') \<or> (s' = s\<lparr>mx_lock := True\<rparr> \<and> p' = Won)"
    using False free(1) assms(2,3)
    by (cases "pcs i"; cases ch) (auto simp: mutex_cas_def would_deadlock_def split: if_splits)
  then show ?thesis
  proof
    assume "s' = s \<and> \<not> holds p'"
    then show ?thesis using False free by (intro mutex_inv_freeI) auto
  next
    assume "s' = s\<lparr>mx_lock := True\<rparr> \<and> p' = Won"
    then show ?thesis using free by (intro mutex_inv_lockedI [where own = i]) auto
  qed
qed

lemma mutex_invariant:
  assumes "reachable mutex_run mutex_new Outside m pcs"
  shows "mutex_inv m pcs"
  using assms
proof induction
  case start
  then show ?case by (simp add: mutex_inv_def mutex_new_def)
next
  case (step s pcs i ch s' p')
  then show ?case by (blast intro: mutex_inv_step)
qed

lemma no_false_deadlock_step:
  assumes "mutex_inv s pcs" "i \<noteq> - 1" "mutex_run i ch s (pcs i) = Some (s', p')"
  shows "p' \<noteq> Deadlocked False"
proof
  assume "p' = Deadlocked False"
  with assms(3) have "pcs i = Refused False \<and> mx_hart_id s = i"
    by (cases "pcs i"; cases ch) (auto simp: mutex_cas_def would_deadlock_def unlocked_def split: if_splits)
  then have r: "\<not> holds (pcs i)" "mx_hart_id s = i" by simp_all
  show False
  proof (cases "mx_lock s")
    case True
    then obtain own where "\<And>j. holds (pcs j) \<longleftrightarrow> j = own" "mx_hart_id s = (if pcs own \<in> {Won, Releasing} then - 1 else own)"
      using assms(1) by (auto simp: mutex_inv_def)
    then show False using r assms(2) by (auto split: if_splits)
  next
    case False
    then show False using r assms(1,2) by (simp add: mutex_inv_def)
  qed
qed

lemma no_false_deadlock:
  assumes "reachable mutex_run mutex_new Outside m pcs"
  shows "pcs i \<noteq> Deadlocked False"
  using assms
proof induction
  case (step s pcs j ch s' p')
  then show ?case using no_false_deadlock_step [OF mutex_invariant [OF step.hyps(1)] step.hyps(2,3)] by simp
qed simp

lemma mutex_inv_holder:
  assumes "mutex_inv m pcs" "holds (pcs i)"
  shows "mx_hart_id m = (if pcs i \<in> {Won, Releasing} then - 1 else i)"
proof -
  have "mx_lock m" using assms by (auto simp: mutex_inv_def split: if_splits)
  then obtain own where o: "\<forall>j. holds (pcs j) \<longleftrightarrow> j = own" "mx_hart_id m = (if pcs own \<in> {Won, Releasing} then - 1 else own)"
    using assms(1) by (auto simp: mutex_inv_def)
  then have "i = own" using assms(2) by blast
  then show ?thesis using o(2) by simp
qed

text \<open>
  C7. The mutex under any interleaving of the harts, with spurious failures of the compare-and-exchange and
  any mix of \<open>lock\<close>, \<open>try_lock\<close> and dropping a guard: at most one hart holds it; the detection never reports
  a deadlock to a hart that does not hold the lock itself; and a hart that locks a second time what it holds
  is always told so at its next check instead of spinning.
\<close>

theorem mutex_exclusive:
  assumes "reachable mutex_run mutex_new Outside m pcs"
  shows "(\<forall>i j. holds (pcs i) \<and> holds (pcs j) \<longrightarrow> i = j) \<and> (\<forall>i. pcs i \<noteq> Deadlocked False) \<and>
    (\<forall>i spurious timeup. pcs i = Refused True \<longrightarrow>
      mutex_run i (Go spurious timeup) m (pcs i) = Some (m, Deadlocked True))"
proof (intro conjI allI impI)
  fix i j assume "holds (pcs i) \<and> holds (pcs j)"
  then show "i = j" using mutex_invariant [OF assms] by (auto simp: mutex_inv_def split: if_splits)
next
  fix i show "pcs i \<noteq> Deadlocked False" using no_false_deadlock [OF assms] .
next
  fix i spurious timeup assume "pcs i = Refused True"
  moreover from this have "holds (pcs i)" by simp
  then have "mx_hart_id m = i"
    using mutex_inv_holder [OF mutex_invariant [OF assms], of i] calculation by simp
  ultimately show "mutex_run i (Go spurious timeup) m (pcs i) = Some (m, Deadlocked True)"
    by (simp add: would_deadlock_def)
qed

lemma mutex_exclusive_witness:
  "\<exists>m pcs. reachable mutex_run mutex_new Outside m pcs \<and> pcs 0 = Refused True \<and> pcs 1 = Acquiring False \<and>
     mutex_run 0 (Go False False) m (pcs 0) = Some (m, Deadlocked True)"
proof -
  let ?tr = "[(0, CallLock), (0, Go False False), (0, Go False False), (1, CallLock), (0, CallLock), (0, Go False False)]
    :: (usize \<times> mutex_choice) list"
  obtain m pcs where r: "run_trace mutex_run ?tr (mutex_new, \<lambda>_. Outside) = Some (m, pcs)"
      and pcs: "pcs 0 = Refused True" "pcs 1 = Acquiring False"
    by (simp add: mutex_new_def mutex_cas_def gather_metadata_def)
  have "reachable mutex_run mutex_new Outside m pcs"
    using run_trace_reachable [OF r reachable.start] by simp
  moreover from mutex_exclusive [OF this] have "mutex_run 0 (Go False False) m (pcs 0) = Some (m, Deadlocked True)"
    using pcs by blast
  ultimately show ?thesis using pcs by blast
qed

section \<open>The reader-writer lock\<close>

record SpinRwLock =
  rw_lock :: usize
  rw_readers :: usize

definition rwlock_new :: SpinRwLock where
  "rwlock_new = \<lparr> rw_lock = 0, rw_readers = 0 \<rparr>"

text \<open>
  Where a hart is: outside, before the exchange of \<open>try_lock_shared\<close>, before its load of the lock, before it
  counts itself, with a read guard; in \<open>unlock_shared\<close> before its stores and load; before the exchange of
  \<open>try_lock_exclusive\<close>, and with a write guard. The flag of \<open>unlock_shared\<close> says that \<open>upgrade\<close> called it.
\<close>

datatype rw_pc =
    RwOutside
  | SharedCas
  | SharedLoad
  | SharedCount
  | Reading
  | LastStore bool
  | LastCheck bool
  | LastSet bool usize
  | ExclusiveCas
  | Writing

datatype rw_choice = CallRead | CallWrite | CallDrop | CallUpgrade | RwGo bool

definition rw_cas :: "bool \<Rightarrow> usize \<Rightarrow> usize \<Rightarrow> SpinRwLock \<Rightarrow> SpinRwLock option" where
  "rw_cas spurious old new l = (if rw_lock l = old \<and> \<not> spurious then Some (l\<lparr>rw_lock := new\<rparr>) else None)"

fun lock_shared_step :: "bool \<Rightarrow> SpinRwLock \<Rightarrow> rw_pc \<Rightarrow> (SpinRwLock \<times> rw_pc) option" where
  "lock_shared_step spurious l SharedCas =
     (case rw_cas spurious 0 1 l of
        Some l' \<Rightarrow> Some (l', SharedCount)
      | None \<Rightarrow> Some (l, SharedLoad))"
| "lock_shared_step spurious l SharedLoad = Some (l, if rw_lock l = 1 then SharedCount else SharedCas)"
| "lock_shared_step spurious l SharedCount = Some (l\<lparr>rw_readers := rw_readers l + 1\<rparr>, Reading)"
| "lock_shared_step spurious l _ = None"

definition after_unlock :: "bool \<Rightarrow> rw_pc" where
  "after_unlock upgrading = (if upgrading then ExclusiveCas else RwOutside)"

definition unlock_shared_begin :: "bool \<Rightarrow> SpinRwLock \<Rightarrow> SpinRwLock \<times> rw_pc" where
  "unlock_shared_begin upgrading l =
     (l\<lparr>rw_readers := rw_readers l - 1\<rparr>,
      if rw_readers l = 1 then LastStore upgrading else after_unlock upgrading)"

fun unlock_shared_step :: "SpinRwLock \<Rightarrow> rw_pc \<Rightarrow> (SpinRwLock \<times> rw_pc) option" where
  "unlock_shared_step l (LastStore u) = Some (l\<lparr>rw_lock := 4\<rparr>, LastCheck u)"
| "unlock_shared_step l (LastCheck u) = Some (l, LastSet u (if rw_readers l = 0 then 0 else 1))"
| "unlock_shared_step l (LastSet u v) = Some (l\<lparr>rw_lock := v\<rparr>, after_unlock u)"
| "unlock_shared_step l _ = None"

definition lock_exclusive_step :: "bool \<Rightarrow> SpinRwLock \<Rightarrow> SpinRwLock \<times> rw_pc" where
  "lock_exclusive_step spurious l =
     (case rw_cas spurious 0 2 l of
        Some l' \<Rightarrow> (l', Writing)
      | None \<Rightarrow> (l, ExclusiveCas))"

definition unlock_exclusive :: "SpinRwLock \<Rightarrow> SpinRwLock" where
  "unlock_exclusive l = l\<lparr>rw_lock := 0\<rparr>"

definition rw_run :: "(rw_choice, SpinRwLock, rw_pc) runs" where
  "rw_run hart ch l p =
     (case ch of
        CallRead \<Rightarrow> (if p = RwOutside then Some (l, SharedCas) else None)
      | CallWrite \<Rightarrow> (if p = RwOutside then Some (l, ExclusiveCas) else None)
      | CallDrop \<Rightarrow>
          (case p of
             Reading \<Rightarrow> Some (unlock_shared_begin False l)
           | Writing \<Rightarrow> Some (unlock_exclusive l, RwOutside)
           | _ \<Rightarrow> None)
      | CallUpgrade \<Rightarrow> (if p = Reading then Some (unlock_shared_begin True l) else None)
      | RwGo spurious \<Rightarrow>
          (case p of
             ExclusiveCas \<Rightarrow> Some (lock_exclusive_step spurious l)
           | LastStore _ \<Rightarrow> unlock_shared_step l p
           | LastCheck _ \<Rightarrow> unlock_shared_step l p
           | LastSet _ _ \<Rightarrow> unlock_shared_step l p
           | _ \<Rightarrow> lock_shared_step spurious l p))"

text \<open>
  A trace on three harts: the first takes the lock for reading but has not counted itself yet when the
  second, which came as a further reader, leaves as the last one that was counted and frees the lock.
\<close>

definition lost_reader :: "(usize \<times> rw_choice) list" where
  "lost_reader =
     [(0, CallRead), (0, RwGo False),
      (1, CallRead), (1, RwGo False), (1, RwGo False), (1, RwGo False),
      (1, CallDrop), (1, RwGo False), (1, RwGo False), (1, RwGo False),
      (0, RwGo False), (2, CallWrite), (2, RwGo False)]"

lemmas rw_defs = rw_run_def rwlock_new_def rw_cas_def unlock_shared_begin_def lock_exclusive_step_def after_unlock_def

text \<open>
  C32. The reader-writer lock does not exclude: there is an interleaving of three harts, without spurious
  failures, after which one hart has a read guard and another a write guard, and one after which two harts
  have write guards.
\<close>

theorem rwlock_reader_with_writer:
  "(\<exists>l pcs. reachable rw_run rwlock_new RwOutside l pcs \<and> pcs 0 = Reading \<and> pcs 2 = Writing) \<and>
   (\<exists>l pcs. reachable rw_run rwlock_new RwOutside l pcs \<and> pcs 1 = Writing \<and> pcs 2 = Writing)"
proof
  obtain l pcs where r: "run_trace rw_run lost_reader (rwlock_new, \<lambda>_. RwOutside) = Some (l, pcs)"
    and p: "pcs 0 = Reading" "pcs 2 = Writing"
    by (simp add: lost_reader_def rw_defs)
  show "\<exists>l pcs. reachable rw_run rwlock_new RwOutside l pcs \<and> pcs 0 = Reading \<and> pcs 2 = Writing"
    using run_trace_reachable [OF r reachable.start] p by (auto simp: lost_reader_def)
next
  let ?tr = "lost_reader @ [(0, CallDrop), (0, RwGo False), (0, RwGo False), (0, RwGo False), (1, CallWrite), (1, RwGo False)]"
  obtain l pcs where r: "run_trace rw_run ?tr (rwlock_new, \<lambda>_. RwOutside) = Some (l, pcs)"
    and p: "pcs 1 = Writing" "pcs 2 = Writing"
    by (simp add: lost_reader_def rw_defs)
  show "\<exists>l pcs. reachable rw_run rwlock_new RwOutside l pcs \<and> pcs 1 = Writing \<and> pcs 2 = Writing"
    using run_trace_reachable [OF r reachable.start] p by (auto simp: lost_reader_def)
qed

section \<open>Lazy values\<close>

text \<open>\<open>value\<close> is what \<open>f\<close> wrote; \<open>f\<close> may return something else at each call, which \<open>runs\<close> counts.\<close>

record 'a Lazy =
  init_state :: usize
  lz_value :: "'a option"
  f_calls :: nat

definition lazy_new :: "'a Lazy" where
  "lazy_new = \<lparr> init_state = 0, lz_value = None, f_calls = 0 \<rparr>"

text \<open>
  Where a hart is in \<open>init_if_needed\<close>: before the first load, before the exchange, before writing the value,
  before publishing it, in \<open>wait_for_init\<close>, or back with what \<open>get_ref\<close> read; \<open>Unreachable\<close> is the panic.
\<close>

datatype 'a lazy_pc =
    LazyOutside
  | LazyLoad
  | LazyCas
  | LazyWrite
  | LazyPublish
  | LazyWait
  | LazyRef "'a option"
  | Unreachable

datatype lazy_choice = CallDeref | LazyGo

fun init_if_needed_step :: "(nat \<Rightarrow> 'a) \<Rightarrow> 'a Lazy \<Rightarrow> 'a lazy_pc \<Rightarrow> ('a Lazy \<times> 'a lazy_pc) option" where
  "init_if_needed_step f l LazyLoad =
     Some (l, if init_state l = 0 then LazyCas
              else if init_state l = 1 then LazyWait
              else if init_state l = 2 then LazyRef (lz_value l)
              else Unreachable)"
| "init_if_needed_step f l LazyCas =
     (if init_state l = 0 then Some (l\<lparr>init_state := 1\<rparr>, LazyWrite) else Some (l, LazyWait))"
| "init_if_needed_step f l LazyWrite =
     Some (l\<lparr>lz_value := Some (f (f_calls l)), f_calls := f_calls l + 1\<rparr>, LazyPublish)"
| "init_if_needed_step f l LazyPublish = Some (l\<lparr>init_state := 2\<rparr>, LazyRef (lz_value l))"
| "init_if_needed_step f l LazyWait = Some (l, if init_state l \<noteq> 2 then LazyWait else LazyRef (lz_value l))"
| "init_if_needed_step f l _ = None"

definition lazy_run :: "(nat \<Rightarrow> 'a) \<Rightarrow> (lazy_choice, 'a Lazy, 'a lazy_pc) runs" where
  "lazy_run f hart ch l p =
     (case ch of
        CallDeref \<Rightarrow> (case p of LazyOutside \<Rightarrow> Some (l, LazyLoad) | LazyRef _ \<Rightarrow> Some (l, LazyLoad) | _ \<Rightarrow> None)
      | LazyGo \<Rightarrow> init_if_needed_step f l p)"

text \<open>\<open>get_mut\<close>, with exclusive access; the other states are unreachable then.\<close>

definition lazy_get_mut :: "(nat \<Rightarrow> 'a) \<Rightarrow> 'a Lazy \<Rightarrow> ('a option \<times> 'a Lazy) option" where
  "lazy_get_mut f l =
     (if init_state l = 0 then
        let v = f (f_calls l) in Some (Some v, l\<lparr>init_state := 2, lz_value := Some v, f_calls := f_calls l + 1\<rparr>)
      else if init_state l = 2 then Some (lz_value l, l)
      else None)"

fun initialising :: "'a lazy_pc \<Rightarrow> bool" where
  "initialising LazyWrite = True"
| "initialising LazyPublish = True"
| "initialising _ = False"

definition lazy_ok :: "(nat \<Rightarrow> 'a) \<Rightarrow> 'a Lazy \<Rightarrow> bool" where
  "lazy_ok f l \<longleftrightarrow>
     init_state l \<in> {0, 1, 2} \<and> f_calls l \<le> 1 \<and> (init_state l = 0 \<longrightarrow> f_calls l = 0) \<and>
     (init_state l = 2 \<longrightarrow> lz_value l = Some (f 0))"

fun lazy_pc_ok :: "(nat \<Rightarrow> 'a) \<Rightarrow> 'a Lazy \<Rightarrow> 'a lazy_pc \<Rightarrow> bool" where
  "lazy_pc_ok f l LazyWrite \<longleftrightarrow> init_state l = 1 \<and> f_calls l = 0"
| "lazy_pc_ok f l LazyPublish \<longleftrightarrow> init_state l = 1 \<and> lz_value l = Some (f 0)"
| "lazy_pc_ok f l (LazyRef v) \<longleftrightarrow> init_state l = 2 \<and> v = lz_value l"
| "lazy_pc_ok f l Unreachable \<longleftrightarrow> False"
| "lazy_pc_ok f l _ \<longleftrightarrow> True"

definition lazy_inv :: "(nat \<Rightarrow> 'a) \<Rightarrow> 'a Lazy \<Rightarrow> (usize \<Rightarrow> 'a lazy_pc) \<Rightarrow> bool" where
  "lazy_inv f l pcs \<longleftrightarrow>
     lazy_ok f l \<and> (\<forall>i. lazy_pc_ok f l (pcs i)) \<and>
     (\<forall>i j. initialising (pcs i) \<and> initialising (pcs j) \<longrightarrow> i = j)"

lemma lazy_pc_ok_initialising: "lazy_pc_ok f l p \<Longrightarrow> initialising p \<Longrightarrow> init_state l = 1"
  by (cases p) auto

lemma lazy_pc_ok_others: "\<lbrakk>lazy_pc_ok f l p; \<not> initialising p; init_state l \<noteq> 2\<rbrakk> \<Longrightarrow> lazy_pc_ok f l' p"
  by (cases p) auto

text \<open>The hart that moves, when nobody else is initialising and the value was not published yet.\<close>

lemma lazy_inv_move:
  assumes "lazy_inv f l pcs" "init_state l \<noteq> 2" "\<And>j. j \<noteq> i \<Longrightarrow> \<not> initialising (pcs j)"
    and "lazy_ok f l'" "lazy_pc_ok f l' p'"
  shows "lazy_inv f l' (pcs(i := p'))"
  using assms lazy_pc_ok_others [of f l] unfolding lazy_inv_def by (metis fun_upd_apply)

lemma lazy_inv_stay:
  assumes "lazy_inv f l pcs" "lazy_pc_ok f l p'" "\<not> initialising p'"
  shows "lazy_inv f l (pcs(i := p'))"
  using assms unfolding lazy_inv_def by simp

lemma lazy_run_cases:
  assumes "lazy_run f i ch s p = Some (s', p')" "lazy_ok f s"
  shows "s' = s \<and> \<not> initialising p' \<and> lazy_pc_ok f s p' \<or>
    init_state s = 0 \<and> s' = s\<lparr>init_state := 1\<rparr> \<and> p' = LazyWrite \<or>
    p = LazyWrite \<and> s' = s\<lparr>lz_value := Some (f (f_calls s)), f_calls := f_calls s + 1\<rparr> \<and> p' = LazyPublish \<or>
    p = LazyPublish \<and> s' = s\<lparr>init_state := 2\<rparr> \<and> p' = LazyRef (lz_value s)"
proof (cases ch)
  case CallDeref
  then show ?thesis using assms by (cases p) (auto simp: lazy_run_def)
next
  case LazyGo
  then show ?thesis using assms by (cases p) (auto simp: lazy_run_def lazy_ok_def split: if_splits)
qed

lemma lazy_inv_step:
  assumes inv: "lazy_inv f s pcs" and run: "lazy_run f i ch s (pcs i) = Some (s', p')"
  shows "lazy_inv f s' (pcs(i := p'))"
proof -
  have ok: "lazy_ok f s" "lazy_pc_ok f s (pcs i)" using inv by (simp_all add: lazy_inv_def)
  have uniq: "\<not> initialising (pcs j)" if "initialising (pcs i)" "j \<noteq> i" for j using inv that by (auto simp: lazy_inv_def)
  consider (stay) "s' = s" "\<not> initialising p'" "lazy_pc_ok f s p'"
    | (cas) "init_state s = 0" "s' = s\<lparr>init_state := 1\<rparr>" "p' = LazyWrite"
    | (wrote) "pcs i = LazyWrite" "s' = s\<lparr>lz_value := Some (f (f_calls s)), f_calls := f_calls s + 1\<rparr>" "p' = LazyPublish"
    | (publish) "pcs i = LazyPublish" "s' = s\<lparr>init_state := 2\<rparr>" "p' = LazyRef (lz_value s)"
    using lazy_run_cases [OF run ok(1)] by blast
  then show ?thesis
  proof cases
    case stay
    then show ?thesis using lazy_inv_stay [OF inv] by simp
  next
    case cas
    have "\<not> initialising (pcs j)" for j
      using inv cas(1) lazy_pc_ok_initialising [of f s "pcs j"] by (auto simp: lazy_inv_def)
    then show ?thesis using cas ok by (intro lazy_inv_move [OF inv]) (auto simp: lazy_ok_def)
  next
    case wrote
    then show ?thesis using ok uniq by (intro lazy_inv_move [OF inv]) (auto simp: lazy_ok_def)
  next
    case publish
    then show ?thesis using ok uniq by (intro lazy_inv_move [OF inv]) (auto simp: lazy_ok_def)
  qed
qed

lemma lazy_invariant:
  assumes "reachable (lazy_run f) lazy_new LazyOutside l pcs"
  shows "lazy_inv f l pcs"
  using assms
proof induction
  case start
  then show ?case by (simp add: lazy_inv_def lazy_ok_def lazy_new_def)
next
  case (step s pcs i ch s' p')
  then show ?case by (blast intro: lazy_inv_step)
qed

text \<open>
  C33. A lazy value under any interleaving: the initialiser runs at most once, no hart ever reaches the
  \<open>unreachable!()\<close>, and every hart that has got its reference sees the one initialised value, never
  uninitialised memory.
\<close>

theorem lazy_initialised_once:
  assumes "reachable (lazy_run f) lazy_new LazyOutside l pcs"
  shows "f_calls l \<le> 1 \<and> (\<forall>i. pcs i \<noteq> Unreachable) \<and> (\<forall>i v. pcs i = LazyRef v \<longrightarrow> v = Some (f 0))"
proof -
  have ok: "lazy_ok f l" "\<And>i. lazy_pc_ok f l (pcs i)" using lazy_invariant [OF assms] by (simp_all add: lazy_inv_def)
  have "pcs i \<noteq> Unreachable" for i using ok(2) [of i] by auto
  moreover have "v = Some (f 0)" if "pcs i = LazyRef v" for i v using ok(1) ok(2) [of i] that by (auto simp: lazy_ok_def)
  ultimately show ?thesis using ok(1) by (simp add: lazy_ok_def)
qed

lemma lazy_initialised_once_witness:
  "\<exists>l pcs. reachable (lazy_run (\<lambda>n. n + 7)) lazy_new LazyOutside l pcs \<and> pcs 1 = LazyRef (Some 7) \<and> f_calls l \<le> 1"
proof -
  let ?f = "\<lambda>n :: nat. n + 7"
  let ?tr = "[(0, CallDeref), (1, CallDeref), (0, LazyGo), (1, LazyGo), (0, LazyGo), (1, LazyGo), (0, LazyGo), (0, LazyGo),
    (1, LazyGo)] :: (usize \<times> lazy_choice) list"
  obtain l pcs where r: "run_trace (lazy_run ?f) ?tr (lazy_new, \<lambda>_. LazyOutside) = Some (l, pcs)"
      and pcs: "pcs 1 = LazyRef (Some 7)"
    by (simp add: lazy_run_def lazy_new_def)
  have "reachable (lazy_run ?f) lazy_new LazyOutside l pcs"
    using run_trace_reachable [OF r reachable.start] by simp
  then show ?thesis using lazy_initialised_once [of ?f l pcs] pcs by blast
qed

end
