(* ===== verification/Byte_Order.thy ===== *)
theory Byte_Order
  imports Prelude
begin

text \<open>
  The bytes of integers, as the methods of Rust's integers give them, and the types of the \<open>endian\<close>
  library on top of them. The machine is little-endian, so the native order is the little-endian one.
\<close>

section \<open>Bytes of words\<close>

definition to_le_bytes :: "'a::len word \<Rightarrow> u8 list" where
  "to_le_bytes w = map (\<lambda>i. ucast (drop_bit (8 * i) w)) [0..<LENGTH('a) div 8]"

definition to_be_bytes :: "'a::len word \<Rightarrow> u8 list" where
  "to_be_bytes w = rev (to_le_bytes w)"

definition from_le_bytes :: "u8 list \<Rightarrow> 'a::len word" where
  "from_le_bytes bs = foldr (\<lambda>b w. ucast b OR push_bit 8 w) bs 0"

definition from_be_bytes :: "u8 list \<Rightarrow> 'a::len word" where
  "from_be_bytes bs = from_le_bytes (rev bs)"

definition swap_bytes :: "'a::len word \<Rightarrow> 'a word" where
  "swap_bytes w = from_le_bytes (to_be_bytes w)"

lemma length_to_bytes [simp]:
  "length (to_le_bytes (w :: 'a::len word)) = LENGTH('a) div 8" "length (to_be_bytes w) = LENGTH('a) div 8"
  by (simp_all add: to_le_bytes_def to_be_bytes_def)

lemma bit_from_le_bytes:
  "bit (from_le_bytes bs :: 'a::len word) n \<longleftrightarrow> n < LENGTH('a) \<and> n < 8 * length bs \<and> bit (bs ! (n div 8)) (n mod 8)"
proof (induction bs arbitrary: n)
  case Nil
  then show ?case by (simp add: from_le_bytes_def)
next
  case (Cons b bs)
  have e: "from_le_bytes (b # bs) = (ucast b OR push_bit 8 (from_le_bytes bs) :: 'a word)"
    by (simp add: from_le_bytes_def)
  show ?case
  proof (cases "n < 8")
    case True
    then show ?thesis unfolding e by (auto simp: bit_simps)
  next
    case False
    then have "n div 8 = Suc ((n - 8) div 8)" "n mod 8 = (n - 8) mod 8" by (simp_all add: le_div_geq le_mod_geq)
    then show ?thesis unfolding e using False Cons.IH [of "n - 8"] by (auto simp: bit_simps dest: bit_imp_le_length)
  qed
qed

lemma from_to_le_bytes:
  assumes "LENGTH('a) mod 8 = 0"
  shows "from_le_bytes (to_le_bytes w) = (w :: 'a::len word)"
proof (rule bit_word_eqI)
  fix n assume n: "n < LENGTH('a)"
  have L: "8 * (LENGTH('a) div 8) = LENGTH('a)" using assms by auto
  then have "n div 8 < LENGTH('a) div 8" using n by (simp add: less_mult_imp_div_less mult.commute)
  then have "to_le_bytes w ! (n div 8) = ucast (drop_bit (8 * (n div 8)) w)" by (simp add: to_le_bytes_def)
  then have "bit (to_le_bytes w ! (n div 8)) (n mod 8) = bit w n"
    by (simp add: bit_simps)
  then show "bit (from_le_bytes (to_le_bytes w) :: 'a word) n = bit w n"
    using n L by (simp add: bit_from_le_bytes)
qed

lemma from_to_be_bytes:
  assumes "LENGTH('a) mod 8 = 0"
  shows "from_be_bytes (to_be_bytes w) = (w :: 'a::len word)"
  using from_to_le_bytes [OF assms, of w] by (simp add: from_be_bytes_def to_be_bytes_def)

lemma to_from_le_bytes:
  assumes "length bs = LENGTH('a) div 8" "LENGTH('a) mod 8 = 0"
  shows "to_le_bytes (from_le_bytes bs :: 'a::len word) = bs"
proof (rule nth_equalityI)
  show "length (to_le_bytes (from_le_bytes bs :: 'a word)) = length bs" using assms by simp
  fix i assume "i < length (to_le_bytes (from_le_bytes bs :: 'a word))"
  then have i: "i < length bs" using assms by simp
  have L: "8 * length bs = LENGTH('a)" using assms by auto
  show "to_le_bytes (from_le_bytes bs :: 'a word) ! i = bs ! i"
  proof (rule bit_word_eqI)
    fix n assume "n < LENGTH(8)"
    then have n: "n < 8" by simp
    have "8 * i + n < 8 * length bs" using i n by linarith
    then show "bit (to_le_bytes (from_le_bytes bs :: 'a word) ! i) n = bit (bs ! i) n"
      using i n L assms(1) by (simp add: to_le_bytes_def bit_simps bit_from_le_bytes)
  qed
qed

lemma to_from_be_bytes:
  assumes "length bs = LENGTH('a) div 8" "LENGTH('a) mod 8 = 0"
  shows "to_be_bytes (from_be_bytes bs :: 'a::len word) = bs"
  using to_from_le_bytes [where 'a = 'a, of "rev bs"] assms by (simp add: from_be_bytes_def to_be_bytes_def)

section \<open>The endian library\<close>

text \<open>
  The types differ in their width only, so the operations are given for any word; the value inside is the
  one whose native bytes are in the order of the type.
\<close>

datatype 'a BigEndian = BigEndian (be_raw: 'a)

datatype 'a LittleEndian = LittleEndian (le_raw: 'a)

definition be_from_ne :: "'a::len word \<Rightarrow> 'a word BigEndian" where
  "be_from_ne n = BigEndian (swap_bytes n)"

definition be_to_ne :: "'a::len word BigEndian \<Rightarrow> 'a word" where
  "be_to_ne b = from_be_bytes (to_le_bytes (be_raw b))"

definition be_to_be_bytes :: "'a::len word BigEndian \<Rightarrow> u8 list" where
  "be_to_be_bytes b = to_le_bytes (be_raw b)"

definition le_from_ne :: "'a::len word \<Rightarrow> 'a word LittleEndian" where
  "le_from_ne n = LittleEndian n"

definition le_to_ne :: "'a::len word LittleEndian \<Rightarrow> 'a word" where
  "le_to_ne b = from_le_bytes (to_le_bytes (le_raw b))"

definition le_to_le_bytes :: "'a::len word LittleEndian \<Rightarrow> u8 list" where
  "le_to_le_bytes b = to_le_bytes (le_raw b)"

lemma endian_roundtrip:
  assumes "LENGTH('a) mod 8 = 0"
  shows "be_to_ne (be_from_ne n) = (n :: 'a::len word)" "be_to_be_bytes (be_from_ne n) = to_be_bytes n"
    "le_to_ne (le_from_ne n) = n" "le_to_le_bytes (le_from_ne n) = to_le_bytes n"
proof -
  have s: "to_le_bytes (swap_bytes n) = to_be_bytes n"
    unfolding swap_bytes_def by (rule to_from_le_bytes) (simp_all add: assms)
  then show "be_to_ne (be_from_ne n) = n" "be_to_be_bytes (be_from_ne n) = to_be_bytes n"
    using from_to_be_bytes [OF assms] by (simp_all add: be_to_ne_def be_from_ne_def be_to_be_bytes_def)
  show "le_to_ne (le_from_ne n) = n" "le_to_le_bytes (le_from_ne n) = to_le_bytes n"
    using from_to_le_bytes [OF assms] by (simp_all add: le_to_ne_def le_from_ne_def le_to_le_bytes_def)
qed

end
