(* ===== verification/Netstack.thy ===== *)
theory Netstack
  imports Byte_Order
begin

text \<open>
  Checksums and packet headers: the \<open>checksum\<close> and \<open>netstack\<close> libraries. Headers are read from and written
  to the bytes of a packet in place; a header here is the record of its fields, each with the bytes it has in
  the packet.
\<close>

section \<open>CRC-32\<close>

text \<open>One step of the inner loop that computes an entry of the table.\<close>

definition crc_step :: "u32 \<Rightarrow> u32 \<Rightarrow> u32" where
  "crc_step polynomial value = (if value AND 1 = 1 then polynomial XOR drop_bit 1 value else drop_bit 1 value)"

fun crc_steps :: "nat \<Rightarrow> u32 \<Rightarrow> u32 \<Rightarrow> u32" where
  "crc_steps 0 polynomial value = value"
| "crc_steps (Suc j) polynomial value = crc_steps j polynomial (crc_step polynomial value)"

definition generate_lookup_table :: "u32 \<Rightarrow> u32 list" where
  "generate_lookup_table polynomial = map (\<lambda>i. crc_steps 8 polynomial (of_nat i)) [0..<256]"

definition LOOKUP_TABLE :: "u32 list" where
  "LOOKUP_TABLE = generate_lookup_table 0xEDB88320"

fun crc_update :: "u32 list \<Rightarrow> u32 \<Rightarrow> u8 list \<Rightarrow> u32" where
  "crc_update table checksum [] = checksum"
| "crc_update table checksum (b # bs) =
     crc_update table (drop_bit 8 checksum XOR table ! unat ((ucast checksum :: u8) XOR b)) bs"

definition crc32_calculate :: "u8 list \<Rightarrow> u32" where
  "crc32_calculate data = NOT (crc_update LOOKUP_TABLE (- 1) data)"

section \<open>Ethernet\<close>

record EthernetHeader =
  destination_mac :: "u8 list"
  source_mac :: "u8 list"
  frame_type :: "u8 list"

datatype BufferTooSmall = BufferTooSmall

definition ethernet_of_bytes :: "u8 list \<Rightarrow> EthernetHeader" where
  "ethernet_of_bytes bs = \<lparr> destination_mac = take 6 bs, source_mac = take 6 (drop 6 bs), frame_type = take 2 (drop 12 bs) \<rparr>"

definition ethernet_bytes :: "EthernetHeader \<Rightarrow> u8 list" where
  "ethernet_bytes h = destination_mac h @ source_mac h @ frame_type h"

definition ethernet_split :: "u8 list \<Rightarrow> BufferTooSmall + (EthernetHeader \<times> u8 list \<times> u8 list)" where
  "ethernet_split buf =
     (if length buf < 14 + 4 then Inl BufferTooSmall
      else
        let header = take 14 buf;
            payload_and_fcs = drop 14 buf;
            payload = take (length payload_and_fcs - 4) payload_and_fcs;
            fcs = drop (length payload_and_fcs - 4) payload_and_fcs
        in Inr (ethernet_of_bytes header, payload, fcs))"

definition CRC32_TABLE :: "u32 list" where
  "CRC32_TABLE = [
     0x00000000, 0x77073096, 0xEE0E612C, 0x990951BA, 0x076DC419, 0x706AF48F, 0xE963A535, 0x9E6495A3, 0x0EDB8832, 0x79DCB8A4,
     0xE0D5E91E, 0x97D2D988, 0x09B64C2B, 0x7EB17CBD, 0xE7B82D07, 0x90BF1D91, 0x1DB71064, 0x6AB020F2, 0xF3B97148, 0x84BE41DE,
     0x1ADAD47D, 0x6DDDE4EB, 0xF4D4B551, 0x83D385C7, 0x136C9856, 0x646BA8C0, 0xFD62F97A, 0x8A65C9EC, 0x14015C4F, 0x63066CD9,
     0xFA0F3D63, 0x8D080DF5, 0x3B6E20C8, 0x4C69105E, 0xD56041E4, 0xA2677172, 0x3C03E4D1, 0x4B04D447, 0xD20D85FD, 0xA50AB56B,
     0x35B5A8FA, 0x42B2986C, 0xDBBBC9D6, 0xACBCF940, 0x32D86CE3, 0x45DF5C75, 0xDCD60DCF, 0xABD13D59, 0x26D930AC, 0x51DE003A,
     0xC8D75180, 0xBFD06116, 0x21B4F4B5, 0x56B3C423, 0xCFBA9599, 0xB8BDA50F, 0x2802B89E, 0x5F058808, 0xC60CD9B2, 0xB10BE924,
     0x2F6F7C87, 0x58684C11, 0xC1611DAB, 0xB6662D3D, 0x76DC4190, 0x01DB7106, 0x98D220BC, 0xEFD5102A, 0x71B18589, 0x06B6B51F,
     0x9FBFE4A5, 0xE8B8D433, 0x7807C9A2, 0x0F00F934, 0x9609A88E, 0xE10E9818, 0x7F6A0DBB, 0x086D3D2D, 0x91646C97, 0xE6635C01,
     0x6B6B51F4, 0x1C6C6162, 0x856530D8, 0xF262004E, 0x6C0695ED, 0x1B01A57B, 0x8208F4C1, 0xF50FC457, 0x65B0D9C6, 0x12B7E950,
     0x8BBEB8EA, 0xFCB9887C, 0x62DD1DDF, 0x15DA2D49, 0x8CD37CF3, 0xFBD44C65, 0x4DB26158, 0x3AB551CE, 0xA3BC0074, 0xD4BB30E2,
     0x4ADFA541, 0x3DD895D7, 0xA4D1C46D, 0xD3D6F4FB, 0x4369E96A, 0x346ED9FC, 0xAD678846, 0xDA60B8D0, 0x44042D73, 0x33031DE5,
     0xAA0A4C5F, 0xDD0D7CC9, 0x5005713C, 0x270241AA, 0xBE0B1010, 0xC90C2086, 0x5768B525, 0x206F85B3, 0xB966D409, 0xCE61E49F,
     0x5EDEF90E, 0x29D9C998, 0xB0D09822, 0xC7D7A8B4, 0x59B33D17, 0x2EB40D81, 0xB7BD5C3B, 0xC0BA6CAD, 0xEDB88320, 0x9ABFB3B6,
     0x03B6E20C, 0x74B1D29A, 0xEAD54739, 0x9DD277AF, 0x04DB2615, 0x73DC1683, 0xE3630B12, 0x94643B84, 0x0D6D6A3E, 0x7A6A5AA8,
     0xE40ECF0B, 0x9309FF9D, 0x0A00AE27, 0x7D079EB1, 0xF00F9344, 0x8708A3D2, 0x1E01F268, 0x6906C2FE, 0xF762575D, 0x806567CB,
     0x196C3671, 0x6E6B06E7, 0xFED41B76, 0x89D32BE0, 0x10DA7A5A, 0x67DD4ACC, 0xF9B9DF6F, 0x8EBEEFF9, 0x17B7BE43, 0x60B08ED5,
     0xD6D6A3E8, 0xA1D1937E, 0x38D8C2C4, 0x4FDFF252, 0xD1BB67F1, 0xA6BC5767, 0x3FB506DD, 0x48B2364B, 0xD80D2BDA, 0xAF0A1B4C,
     0x36034AF6, 0x41047A60, 0xDF60EFC3, 0xA867DF55, 0x316E8EEF, 0x4669BE79, 0xCB61B38C, 0xBC66831A, 0x256FD2A0, 0x5268E236,
     0xCC0C7795, 0xBB0B4703, 0x220216B9, 0x5505262F, 0xC5BA3BBE, 0xB2BD0B28, 0x2BB45A92, 0x5CB36A04, 0xC2D7FFA7, 0xB5D0CF31,
     0x2CD99E8B, 0x5BDEAE1D, 0x9B64C2B0, 0xEC63F226, 0x756AA39C, 0x026D930A, 0x9C0906A9, 0xEB0E363F, 0x72076785, 0x05005713,
     0x95BF4A82, 0xE2B87A14, 0x7BB12BAE, 0x0CB61B38, 0x92D28E9B, 0xE5D5BE0D, 0x7CDCEFB7, 0x0BDBDF21, 0x86D3D2D4, 0xF1D4E242,
     0x68DDB3F8, 0x1FDA836E, 0x81BE16CD, 0xF6B9265B, 0x6FB077E1, 0x18B74777, 0x88085AE6, 0xFF0F6A70, 0x66063BCA, 0x11010B5C,
     0x8F659EFF, 0xF862AE69, 0x616BFFD3, 0x166CCF45, 0xA00AE278, 0xD70DD2EE, 0x4E048354, 0x3903B3C2, 0xA7672661, 0xD06016F7,
     0x4969474D, 0x3E6E77DB, 0xAED16A4A, 0xD9D65ADC, 0x40DF0B66, 0x37D83BF0, 0xA9BCAE53, 0xDEBB9EC5, 0x47B2CF7F, 0x30B5FFE9,
     0xBDBDF21C, 0xCABAC28A, 0x53B39330, 0x24B4A3A6, 0xBAD03605, 0xCDD70693, 0x54DE5729, 0x23D967BF, 0xB3667A2E, 0xC4614AB8,
     0x5D681B02, 0x2A6F2B94, 0xB40BBE37, 0xC30C8EA1, 0x5A05DF1B, 0x2D02EF8D]"

definition fcs_checksum :: "u8 list \<Rightarrow> u32" where
  "fcs_checksum fcs = from_be_bytes fcs"

fun fcs_loop :: "u32 \<Rightarrow> u8 list \<Rightarrow> u32" where
  "fcs_loop checksum [] = checksum"
| "fcs_loop checksum (b # bs) =
     (let table_index = (checksum XOR ucast b) AND 0xFF
      in fcs_loop (drop_bit 8 checksum XOR CRC32_TABLE ! unat table_index) bs)"

definition fcs_generate :: "u8 list \<Rightarrow> u8 list" where
  "fcs_generate data = to_le_bytes (NOT (fcs_loop (- 1) data))"

section \<open>IPv4\<close>

definition length16_new :: "u16 \<Rightarrow> u8 list" where
  "length16_new len = to_be_bytes len"

definition length16_get :: "u8 list \<Rightarrow> u16" where
  "length16_get bs = from_be_bytes bs"

record IpV4Header =
  version_ihl :: u8
  dscp_ecn :: u8
  ip_len :: "u8 list"
  identification :: "u8 list"
  flags_fragment_offset :: "u8 list"
  ttl :: u8
  protocol :: u8
  header_checksum :: "u8 list"
  source_ip :: "u8 list"
  destination_ip :: "u8 list"

definition ipv4_of_bytes :: "u8 list \<Rightarrow> IpV4Header" where
  "ipv4_of_bytes bs = \<lparr> version_ihl = bs ! 0, dscp_ecn = bs ! 1, ip_len = take 2 (drop 2 bs),
     identification = take 2 (drop 4 bs), flags_fragment_offset = take 2 (drop 6 bs), ttl = bs ! 8,
     protocol = bs ! 9, header_checksum = take 2 (drop 10 bs), source_ip = take 4 (drop 12 bs),
     destination_ip = take 4 (drop 16 bs) \<rparr>"

definition ipv4_bytes :: "IpV4Header \<Rightarrow> u8 list" where
  "ipv4_bytes h = [version_ihl h, dscp_ecn h] @ ip_len h @ identification h @ flags_fragment_offset h @
     [ttl h, protocol h] @ header_checksum h @ source_ip h @ destination_ip h"

definition ipv4_split :: "u8 list \<Rightarrow> BufferTooSmall + (IpV4Header \<times> u8 list)" where
  "ipv4_split buf =
     (if length buf < 20 then Inl BufferTooSmall
      else Inr (ipv4_of_bytes (take 20 buf), drop 20 buf))"

text \<open>\<open>array_chunks::<2>\<close>, and \<open>u16::overflowing_add\<close>.\<close>

fun chunks2 :: "'a list \<Rightarrow> ('a \<times> 'a) list" where
  "chunks2 (x # y # xs) = (x, y) # chunks2 xs"
| "chunks2 xs = []"

definition overflowing_add :: "u16 \<Rightarrow> u16 \<Rightarrow> u16 \<times> bool" where
  "overflowing_add a b = (a + b, 2 ^ 16 \<le> unat a + unat b)"

definition checksum_add :: "u16 \<Rightarrow> u16 \<Rightarrow> u16" where
  "checksum_add checksum n =
     (let (new_checksum, overflow) = overflowing_add checksum n
      in if overflow then fst (overflowing_add new_checksum 1) else new_checksum)"

fun checksum_loop :: "nat \<Rightarrow> u16 \<Rightarrow> (u8 \<times> u8) list \<Rightarrow> u16" where
  "checksum_loop i checksum [] = checksum"
| "checksum_loop i checksum ((a, b) # rest) =
     (if i = 10 then checksum_loop (i + 1) checksum rest
      else checksum_loop (i + 1) (checksum_add checksum (from_be_bytes [a, b])) rest)"

definition generate_checksum :: "IpV4Header \<Rightarrow> IpV4Header" where
  "generate_checksum h = h\<lparr>header_checksum := to_be_bytes (NOT (checksum_loop 0 0 (chunks2 (ipv4_bytes h))))\<rparr>"

definition header_checksum_new :: "u8 list" where "header_checksum_new = [0, 0]"

definition header_checksum_get :: "u8 list \<Rightarrow> u16" where
  "header_checksum_get bs = from_be_bytes bs"

definition DONT_FRAGMENT :: u8 where "DONT_FRAGMENT = push_bit 1 1"

definition flags_fragment_offset_new :: "u8 \<Rightarrow> u16 \<Rightarrow> u8 list" where
  "flags_fragment_offset_new flag fragment_offset = to_be_bytes (push_bit 3 fragment_offset OR ucast flag)"

definition flags_fragment_and :: "u8 list \<Rightarrow> u8 \<Rightarrow> bool" where
  "flags_fragment_and f flag \<longleftrightarrow> f ! 0 AND flag = flag"

section \<open>Addresses as text\<close>

text \<open>\<open>str::split('.')\<close>, and \<open>str::parse::<u8>\<close>, which takes decimal digits after an optional plus sign.\<close>

fun split_on :: "'a \<Rightarrow> 'a list \<Rightarrow> 'a list list" where
  "split_on c [] = [[]]"
| "split_on c (x # xs) =
     (if x = c then [] # split_on c xs
      else (case split_on c xs of p # ps \<Rightarrow> (x # p) # ps | [] \<Rightarrow> [[x]]))"

definition digit_value :: "char \<Rightarrow> nat option" where
  "digit_value c = (if 48 \<le> (of_char c :: nat) \<and> (of_char c :: nat) \<le> 57 then Some (of_char c - 48) else None)"

fun parse_digits :: "nat \<Rightarrow> string \<Rightarrow> nat option" where
  "parse_digits n [] = Some n"
| "parse_digits n (c # cs) =
     (case digit_value c of
        None \<Rightarrow> None
      | Some d \<Rightarrow> if 10 * n + d < 256 then parse_digits (10 * n + d) cs else None)"

fun parse_u8 :: "string \<Rightarrow> u8 option" where
  "parse_u8 [] = None"
| "parse_u8 (c # cs) =
     (if c = CHR ''+'' then (if cs = [] then None else map_option of_nat (parse_digits 0 cs))
      else map_option of_nat (parse_digits 0 (c # cs)))"

text \<open>The loop over the parts, from part \<open>i\<close> on.\<close>

fun address_parts :: "nat \<Rightarrow> u8 list \<Rightarrow> string list \<Rightarrow> u8 list option" where
  "address_parts i parts [] = Some parts"
| "address_parts i parts (p # ps) =
     (if i > 3 then None
      else (case parse_u8 p of None \<Rightarrow> None | Some v \<Rightarrow> address_parts (i + 1) (parts[i := v]) ps))"

definition ipv4_from_str :: "string \<Rightarrow> u8 list option" where
  "ipv4_from_str s = address_parts 0 [0, 0, 0, 0] (split_on CHR ''.'' s)"

fun show_nat :: "nat \<Rightarrow> string" where
  "show_nat n = (if n < 10 then [char_of (48 + n)] else show_nat (n div 10) @ [char_of (48 + n mod 10)])"

definition ipv4_display :: "u8 list \<Rightarrow> string" where
  "ipv4_display a = show_nat (unat (a ! 0)) @ ''.'' @ show_nat (unat (a ! 1)) @ ''.'' @
     show_nat (unat (a ! 2)) @ ''.'' @ show_nat (unat (a ! 3))"

section \<open>UDP\<close>

record UdpHeader =
  source_port :: "u8 list"
  destination_port :: "u8 list"
  udp_len :: "u8 list"
  udp_checksum :: "u8 list"

definition udp_of_bytes :: "u8 list \<Rightarrow> UdpHeader" where
  "udp_of_bytes bs = \<lparr> source_port = take 2 bs, destination_port = take 2 (drop 2 bs), udp_len = take 2 (drop 4 bs),
     udp_checksum = take 2 (drop 6 bs) \<rparr>"

definition udp_bytes :: "UdpHeader \<Rightarrow> u8 list" where
  "udp_bytes h = source_port h @ destination_port h @ udp_len h @ udp_checksum h"

definition udp_split :: "u8 list \<Rightarrow> BufferTooSmall + (UdpHeader \<times> u8 list)" where
  "udp_split buf =
     (if length buf < 8 then Inl BufferTooSmall
      else Inr (udp_of_bytes (take 8 buf), drop 8 buf))"

definition port_new :: "u16 \<Rightarrow> u8 list" where
  "port_new port = to_be_bytes port"

definition port_get :: "u8 list \<Rightarrow> u16" where
  "port_get bs = from_be_bytes bs"

section \<open>CRC-32 against its definition\<close>

text \<open>The checksum bit by bit, without a table: the reference the tables are for.\<close>

definition crc_reference :: "u8 list \<Rightarrow> u32" where
  "crc_reference data = NOT (foldl (\<lambda>c b. crc_steps 8 0xEDB88320 (c XOR ucast b)) (- 1) data)"

lemma crc_step_eq: "crc_step p v = (if bit v 0 then p else 0) XOR drop_bit 1 v"
  by (simp add: crc_step_def bit_0 and_one_eq odd_iff_mod_2_eq_one)

lemma crc_step_xor: "crc_step p (a XOR b) = crc_step p a XOR crc_step p b"
  unfolding crc_step_eq by (rule bit_eqI) (auto simp: bit_simps)

lemma crc_steps_xor: "crc_steps n p (a XOR b) = crc_steps n p a XOR crc_steps n p b"
  by (induction n arbitrary: a b) (simp_all add: crc_step_xor)

lemma crc_steps_shift: "(\<And>i. i < n \<Longrightarrow> \<not> bit v i) \<Longrightarrow> crc_steps n p v = drop_bit n v"
proof (induction n arbitrary: v)
  case (Suc n)
  have "crc_step p v = drop_bit 1 v" using Suc.prems [of 0] by (simp add: crc_step_eq)
  moreover have "crc_steps n p (drop_bit 1 v) = drop_bit n (drop_bit 1 v)"
    by (rule Suc.IH) (use Suc.prems in \<open>auto simp: bit_simps\<close>)
  ultimately show ?case by simp
qed simp

lemma crc_split:
  "crc_steps 8 p c = drop_bit 8 c XOR crc_steps 8 p (ucast (ucast c :: u8))"
proof -
  have c: "c = (c AND NOT (mask 8)) XOR ucast (ucast c :: u8)"
    by (rule bit_eqI) (auto simp: bit_simps)
  have "crc_steps 8 p c = crc_steps 8 p (c AND NOT (mask 8)) XOR crc_steps 8 p (ucast (ucast c :: u8))"
    by (subst c) (rule crc_steps_xor)
  moreover have "crc_steps 8 p (c AND NOT (mask 8)) = drop_bit 8 (c AND NOT (mask 8))"
    by (rule crc_steps_shift) (auto simp: bit_simps)
  moreover have "drop_bit 8 (c AND NOT (mask 8)) = drop_bit 8 c"
    by (rule bit_word_eqI) (auto simp: bit_simps dest: bit_imp_le_length)
  ultimately show ?thesis by simp
qed

lemma unat_u8_less: "unat (x :: u8) < 256"
  using unsigned_less [of x] by simp

lemma unat_ucast_u8: "unat (ucast (x :: u8) :: u32) = unat x"
  using unat_u8_less [of x] by (simp add: unsigned_ucast_eq take_bit_nat_eq_self)

lemma table_entry: "LOOKUP_TABLE ! unat (i :: u8) = crc_steps 8 0xEDB88320 (ucast i)"
proof -
  note unat_u8_less [of i]
  moreover have "of_nat (unat i) = (ucast i :: u32)" by simp
  ultimately show ?thesis by (simp add: LOOKUP_TABLE_def generate_lookup_table_def del: of_nat_unat)
qed

text \<open>The table by doubling: the checksum of an index is linear in its bits.\<close>

lemma table_double:
  "map (\<lambda>i. crc_steps 8 p (of_nat i)) [0..<2 ^ Suc k] =
     (let t = map (\<lambda>i. crc_steps 8 p (of_nat i)) [0..<2 ^ k] in t @ map (\<lambda>v. v XOR crc_steps 8 p (2 ^ k)) t)"
  if k: "k < 8"
proof -
  have "crc_steps 8 p (of_nat (i + 2 ^ k)) = crc_steps 8 p (of_nat i) XOR crc_steps 8 p (2 ^ k)" if i: "i < 2 ^ k" for i
  proof -
    have "(of_nat i :: u32) AND 2 ^ k = 0"
    proof (rule bit_word_eqI)
      fix n
      have "\<not> bit i k" using i by (simp add: bit_iff_odd)
      then show "bit ((of_nat i :: u32) AND 2 ^ k) n = bit (0 :: u32) n" by (auto simp: bit_simps)
    qed
    then have "(of_nat (i + 2 ^ k) :: u32) = of_nat i XOR 2 ^ k" by (simp add: disjunctive_xor_eq_or disjunctive_add_eq_or)
    then show ?thesis by (simp add: crc_steps_xor)
  qed
  moreover have "[0..<2 ^ Suc k] = [0..<2 ^ k] @ map (\<lambda>i. i + 2 ^ k) [0..<2 ^ k]"
    by (simp add: map_add_upt upt_add_eq_append [symmetric] mult_2)
  ultimately show ?thesis by (simp add: Let_def del: upt_Suc)
qed

lemma LOOKUP_TABLE_start: "map (\<lambda>i. crc_steps 8 p (of_nat i)) [0..<2 ^ 0] = [0]"
  by (simp add: crc_steps_shift)

lemma crc_powers:
  "crc_steps 8 0xEDB88320 (2 ^ 0) = 0x77073096" "crc_steps 8 0xEDB88320 (2 ^ 1) = 0xEE0E612C"
  "crc_steps 8 0xEDB88320 (2 ^ 2) = 0x076DC419" "crc_steps 8 0xEDB88320 (2 ^ 3) = 0x0EDB8832"
  "crc_steps 8 0xEDB88320 (2 ^ 4) = 0x1DB71064" "crc_steps 8 0xEDB88320 (2 ^ 5) = 0x3B6E20C8"
  "crc_steps 8 0xEDB88320 (2 ^ 6) = 0x76DC4190" "crc_steps 8 0xEDB88320 (2 ^ 7) = 0xEDB88320"
  by code_simp+

definition table_step :: "u32 \<Rightarrow> u32 list \<Rightarrow> u32 list" where
  "table_step v xs = xs @ map (\<lambda>w. w XOR v) xs"

definition table_prefix :: "nat \<Rightarrow> u32 list" where
  "table_prefix k = map (\<lambda>i. crc_steps 8 0xEDB88320 (of_nat i)) [0..<2 ^ k]"

lemma table_prefix_simps:
  "table_prefix 0 = [0]" "k < 8 \<Longrightarrow> table_prefix (Suc k) = table_step (crc_steps 8 0xEDB88320 (2 ^ k)) (table_prefix k)"
  using LOOKUP_TABLE_start table_double [of k "0xEDB88320"] by (simp_all only: table_prefix_def Let_def table_step_def)

lemma CRC32_TABLE_steps:
  "CRC32_TABLE = fold table_step [0x77073096, 0xEE0E612C, 0x076DC419, 0x0EDB8832, 0x1DB71064, 0x3B6E20C8, 0x76DC4190, 0xEDB88320] [0]"
  by code_simp

lemma CRC32_TABLE_eq: "CRC32_TABLE = LOOKUP_TABLE"
proof -
  have "table_prefix (Suc (Suc (Suc (Suc (Suc (Suc (Suc (Suc 0)))))))) = CRC32_TABLE"
    unfolding CRC32_TABLE_steps using crc_powers by (simp add: table_prefix_simps)
  then show ?thesis by (simp add: LOOKUP_TABLE_def generate_lookup_table_def table_prefix_def)
qed

lemma crc_update_reference:
  "crc_update LOOKUP_TABLE c data = foldl (\<lambda>c b. crc_steps 8 0xEDB88320 (c XOR ucast b)) c data"
proof (induction data arbitrary: c)
  case (Cons b bs)
  have u: "ucast (c XOR ucast b) = (ucast c XOR b :: u8)" and d: "drop_bit 8 (c XOR ucast b) = drop_bit 8 c"
    by (rule bit_word_eqI, auto simp: bit_simps dest: bit_imp_le_length)+
  have "crc_steps 8 0xEDB88320 (c XOR ucast b) = drop_bit 8 c XOR LOOKUP_TABLE ! unat (ucast c XOR b)"
    by (subst crc_split) (simp only: u d table_entry)
  then show ?case using Cons by simp
qed simp

lemma fcs_loop_update: "fcs_loop c data = crc_update LOOKUP_TABLE c data"
proof (induction data arbitrary: c)
  case (Cons b bs)
  have "(c XOR ucast b) AND 0xFF = ucast (ucast c XOR b :: u8)"
  proof -
    have "(0xFF :: u32) = mask 8" by (simp add: mask_eq_exp_minus_1)
    then have "(c XOR ucast b) AND 0xFF = (c XOR ucast b) AND mask 8" by simp
    also have "\<dots> = ucast (ucast c XOR b :: u8)"
      by (rule bit_word_eqI) (auto simp: bit_simps simp del: mask_eq_exp_minus_1 dest: bit_imp_le_length)
    finally show ?thesis .
  qed
  moreover have "unat (ucast (ucast c XOR b :: u8) :: u32) = unat (ucast c XOR b :: u8)"
    by (rule unat_ucast_u8)
  ultimately show ?case using Cons by (simp add: Let_def CRC32_TABLE_eq)
qed simp

text \<open>
  C34. The two table-driven CRC-32 routines compute the checksum: for all data \<open>Crc32::calculate\<close> equals the
  bit-by-bit definition, and \<open>Fcs::generate\<close>, with its table written out in the source, gives the bytes of
  the same value.
\<close>

theorem crc32_equivalence:
  "crc32_calculate data = crc_reference data \<and> fcs_generate data = to_le_bytes (crc32_calculate data)"
  by (simp add: crc32_calculate_def crc_reference_def fcs_generate_def fcs_loop_update crc_update_reference)

section \<open>The IPv4 header checksum\<close>

text \<open>The end-around sum of the internet checksum, as a function of the plain sum.\<close>

definition end_around :: "nat \<Rightarrow> nat" where
  "end_around s = (if s = 0 then 0 else (s - 1) mod 65535 + 1)"

lemma unat_u16_less: "unat (x :: u16) < 65536"
  using unsigned_less [of x] by simp

lemma unat_checksum_add: "unat (checksum_add a b) = end_around (unat a + unat b)"
proof (cases "2 ^ 16 \<le> unat a + unat b")
  case True
  have "unat (a + b) = unat a + unat b - 65536"
    using True unat_u16_less [of a] unat_u16_less [of b]
    by (simp add: unat_word_ariths le_mod_geq)
  moreover from this have "unat (a + b + 1) = unat a + unat b - 65535"
    using True unat_u16_less [of a] unat_u16_less [of b] by (simp add: unat_word_ariths(1) [of "a + b"])
  ultimately show ?thesis using True unat_u16_less [of a] unat_u16_less [of b]
    by (simp add: checksum_add_def overflowing_add_def end_around_def le_mod_geq)
next
  case False
  then have "unat (a + b) = unat a + unat b" by (simp add: unat_word_ariths)
  then show ?thesis using False by (auto simp: checksum_add_def overflowing_add_def end_around_def)
qed

lemma end_around_add: "end_around (end_around a + b) = end_around (a + b)"
proof (cases "a = 0")
  case False
  then have "end_around a + b - 1 = (a - 1) mod 65535 + b" by (simp add: end_around_def)
  then have "(end_around a + b - 1) mod 65535 = (a - 1 + b) mod 65535" by (simp add: mod_add_left_eq)
  then show ?thesis using False by (simp add: end_around_def)
qed (simp add: end_around_def)

definition header_words :: "IpV4Header \<Rightarrow> nat list" where
  "header_words h = map (\<lambda>(a, b). unat (from_be_bytes [a, b] :: u16)) (chunks2 (ipv4_bytes h))"

lemma unat_checksum_loop:
  "i + length ws \<le> 10 \<Longrightarrow>
   unat (checksum_loop i c ws) = (if ws = [] then unat c else end_around (unat c + sum_list (map (\<lambda>(a, b). unat (from_be_bytes [a, b] :: u16)) ws)))"
proof (induction i c ws rule: checksum_loop.induct)
  case (2 i c a b rest)
  then have "unat (checksum_loop i c ((a, b) # rest)) =
      (if rest = [] then unat (checksum_add c (from_be_bytes [a, b]))
       else end_around (unat (checksum_add c (from_be_bytes [a, b])) + sum_list (map (\<lambda>(a, b). unat (from_be_bytes [a, b] :: u16)) rest)))"
    by simp
  then show ?case by (auto simp: unat_checksum_add end_around_add add.assoc)
qed simp

text \<open>A header as it is laid out in a packet, and one with a checksum that the receiver accepts.\<close>

definition ipv4_wf :: "IpV4Header \<Rightarrow> bool" where
  "ipv4_wf h \<longleftrightarrow> length (ip_len h) = 2 \<and> length (identification h) = 2 \<and> length (flags_fragment_offset h) = 2 \<and>
     length (header_checksum h) = 2 \<and> length (source_ip h) = 4 \<and> length (destination_ip h) = 4"

definition checksum_ok :: "IpV4Header \<Rightarrow> bool" where
  "checksum_ok h \<longleftrightarrow> end_around (sum_list (header_words h)) = 65535"

definition other_words :: "IpV4Header \<Rightarrow> nat" where
  "other_words h = sum_list (header_words (h\<lparr>header_checksum := [0, 0]\<rparr>))"

lemma length_2E:
  assumes "length xs = 2"
  obtains x y where "xs = [x, y]"
  using assms by (auto simp: numeral_2_eq_2 length_Suc_conv)

lemma length_4E:
  assumes "length xs = 4"
  obtains x y z w where "xs = [x, y, z, w]"
  using assms by (auto simp: numeral_eq_Suc length_Suc_conv)

lemma header_words_sum:
  assumes "ipv4_wf h" "length cs = 2"
  shows "sum_list (header_words (h\<lparr>header_checksum := cs\<rparr>)) = other_words h + unat (from_be_bytes cs :: u16)"
proof -
  obtain l1 l2 i1 i2 f1 f2 c1 c2 where
    "ip_len h = [l1, l2]" "identification h = [i1, i2]" "flags_fragment_offset h = [f1, f2]" "cs = [c1, c2]"
    using assms by (auto simp: ipv4_wf_def elim!: length_2E)
  moreover obtain s1 s2 s3 s4 d1 d2 d3 d4 where "source_ip h = [s1, s2, s3, s4]" "destination_ip h = [d1, d2, d3, d4]"
    using assms by (auto simp: ipv4_wf_def elim!: length_4E)
  moreover have "from_be_bytes [0, 0] = (0 :: u16)" by (simp add: from_be_bytes_def from_le_bytes_def)
  ultimately show ?thesis by (simp add: other_words_def header_words_def ipv4_bytes_def)
qed

lemma length_header_words: "ipv4_wf h \<Longrightarrow> length (chunks2 (ipv4_bytes h)) = 10"
  by (auto simp: ipv4_wf_def ipv4_bytes_def elim!: length_2E length_4E)

lemma generate_checksum_eq:
  assumes "ipv4_wf h"
  shows "\<exists>c :: u16. generate_checksum h = h\<lparr>header_checksum := to_be_bytes (NOT c)\<rparr> \<and> unat c = end_around (sum_list (header_words h))"
proof -
  have "chunks2 (ipv4_bytes h) \<noteq> []" "length (chunks2 (ipv4_bytes h)) = 10"
    using length_header_words [OF assms] by auto
  then show ?thesis
    using unat_checksum_loop [of 0 "chunks2 (ipv4_bytes h)" 0]
    by (intro exI [of _ "checksum_loop 0 0 (chunks2 (ipv4_bytes h))"]) (simp add: generate_checksum_def header_words_def)
qed

lemma unat_not_u16: "unat (NOT (c :: u16)) = 65535 - unat c"
proof -
  have "NOT c = 65535 - c" by (simp add: not_eq_complement)
  moreover have "c \<le> 65535" using unat_u16_less [of c] by (simp add: word_le_nat_alt)
  ultimately show ?thesis by (simp add: unat_sub)
qed

lemma end_around_ones: "end_around s = 65535 \<longleftrightarrow> s \<noteq> 0 \<and> s mod 65535 = 0"
proof (cases s)
  case (Suc n)
  have "n mod 65535 = 65534 \<longleftrightarrow> Suc n mod 65535 = 0" by (simp add: mod_Suc)
  then show ?thesis using Suc by (auto simp: end_around_def)
qed (simp add: end_around_def)

lemma end_around_mod: "end_around s mod 65535 = s mod 65535"
proof (cases s)
  case (Suc n)
  then have "end_around s mod 65535 = (n mod 65535 + 1) mod 65535" by (simp add: end_around_def)
  also have "\<dots> = (n + 1) mod 65535" by (rule mod_add_left_eq)
  finally show ?thesis using Suc by simp
qed (simp add: end_around_def)

lemma end_around_le: "end_around s \<le> 65535"
proof -
  have "(s - 1) mod 65535 < 65535" by simp
  then show ?thesis by (simp add: end_around_def del: mod_less_divisor)
qed

lemma field_multiple: "w \<le> 65535 \<Longrightarrow> 65535 dvd w \<longleftrightarrow> w = 0 \<or> w = (65535 :: nat)"
  by (cases "w = 65535") (auto dest!: dvd_imp_le)

text \<open>The sum after the field \<open>w\<close> was replaced by the complement of a sum that included it.\<close>

lemma end_around_refresh:
  assumes "w \<le> 65535"
  shows "end_around (s + (65535 - end_around (s + w))) = 65535 \<longleftrightarrow> w = 0 \<or> w = 65535 \<and> s \<noteq> 0"
proof -
  let ?e = "end_around (s + w)" and ?n = "s + (65535 - end_around (s + w))"
  have "(?n + w) mod 65535 = (s + w + (65535 - ?e)) mod 65535" by (simp add: ac_simps)
  also have "\<dots> = ((s + w) mod 65535 + (65535 - ?e)) mod 65535" by (simp add: mod_add_left_eq)
  also have "\<dots> = (?e mod 65535 + (65535 - ?e)) mod 65535" by (simp add: end_around_mod)
  also have "\<dots> = (?e + (65535 - ?e)) mod 65535" by (rule mod_add_left_eq)
  finally have nw: "(?n + w) mod 65535 = 0" using end_around_le [of "s + w"] by simp
  have w: "65535 dvd w \<longleftrightarrow> w = 0 \<or> w = 65535" using assms by (rule field_multiple)
  have m: "65535 dvd ?n \<longleftrightarrow> w = 0 \<or> w = 65535"
    unfolding w [symmetric] using nw [folded dvd_eq_mod_eq_0] by (metis dvd_add_left_iff dvd_add_right_iff)
  have "?n = 0 \<longleftrightarrow> s = 0 \<and> ?e = 65535" using end_around_le [of "s + w"] by auto
  also have "\<dots> \<longleftrightarrow> s = 0 \<and> w = 65535" unfolding end_around_ones dvd_eq_mod_eq_0 [symmetric] using w by auto
  finally show ?thesis using m unfolding end_around_ones dvd_eq_mod_eq_0 [symmetric] by auto
qed

lemma be_bytes_field:
  assumes "length cs = 2"
  shows "unat (from_be_bytes cs :: u16) = 0 \<longleftrightarrow> cs = [0, 0]" "unat (from_be_bytes cs :: u16) = 65535 \<longleftrightarrow> cs = [255, 255]"
proof -
  have r: "to_be_bytes (from_be_bytes cs :: u16) = cs" by (rule to_from_be_bytes) (use assms in simp_all)
  have v: "from_be_bytes [0, 0] = (0 :: u16)" "from_be_bytes [255, 255] = (65535 :: u16)"
    by (simp_all add: from_be_bytes_def from_le_bytes_def)
  have inj: "cs = ds" if "from_be_bytes cs = (from_be_bytes ds :: u16)" "length ds = 2" for ds
    using r that to_from_be_bytes [of ds, where 'a = 16] by simp
  show "unat (from_be_bytes cs :: u16) = 0 \<longleftrightarrow> cs = [0, 0]"
    using inj [of "[0, 0]"] v(1) by (auto simp: unat_eq_0)
  show "unat (from_be_bytes cs :: u16) = 65535 \<longleftrightarrow> cs = [255, 255]"
  proof
    assume "unat (from_be_bytes cs :: u16) = 65535"
    then have "unat (from_be_bytes cs :: u16) = unat (65535 :: u16)" by simp
    then have "from_be_bytes cs = (65535 :: u16)" by (simp only: word_unat_eq_iff)
    then show "cs = [255, 255]" using inj [of "[255, 255]"] v(2) by simp
  qed (simp add: v)
qed

text \<open>
  C35. The header checksum. A receiver accepts a header whose sixteen-bit words add up to all ones, with the carries
  added back in. \<open>generate_checksum\<close> makes such a header exactly when the checksum field was zero before, or all
  ones with something else in the header: the field is not left out of the sum, since the index of a two-byte
  chunk is compared with a byte offset. In particular on a header that already has a correct checksum it
  sets the field to zero.
\<close>

theorem ipv4_checksum:
  assumes "ipv4_wf h"
  shows "(checksum_ok (generate_checksum h) \<longleftrightarrow>
      header_checksum h = [0, 0] \<or> header_checksum h = [255, 255] \<and> other_words h \<noteq> 0) \<and>
    (checksum_ok h \<longrightarrow> header_checksum (generate_checksum h) = [0, 0])"
proof -
  obtain c :: u16 where c: "generate_checksum h = h\<lparr>header_checksum := to_be_bytes (NOT c)\<rparr>"
    "unat c = end_around (sum_list (header_words h))"
    using generate_checksum_eq [OF assms] by blast
  let ?w = "unat (from_be_bytes (header_checksum h) :: u16)"
  have l: "length (header_checksum h) = 2" using assms by (simp add: ipv4_wf_def)
  have s: "sum_list (header_words h) = other_words h + ?w" using header_words_sum [OF assms l] by simp
  have "from_be_bytes (to_be_bytes (NOT c)) = (NOT c :: u16)" by (rule from_to_be_bytes) simp
  then have "checksum_ok (generate_checksum h) \<longleftrightarrow> end_around (other_words h + (65535 - end_around (other_words h + ?w))) = 65535"
    using c s header_words_sum [OF assms, of "to_be_bytes (NOT c)"] by (simp add: checksum_ok_def unat_not_u16)
  moreover have "?w \<le> 65535" using unat_u16_less [of "from_be_bytes (header_checksum h)"] by simp
  ultimately have "checksum_ok (generate_checksum h) \<longleftrightarrow>
      header_checksum h = [0, 0] \<or> header_checksum h = [255, 255] \<and> other_words h \<noteq> 0"
    using end_around_refresh [of ?w "other_words h"] be_bytes_field [OF l] by simp
  moreover have "header_checksum (generate_checksum h) = [0, 0]" if "checksum_ok h"
  proof -
    have "unat (NOT c) = 0" using that c(2) by (simp add: checksum_ok_def unat_not_u16)
    then have "NOT c = 0" by (simp add: unat_eq_0)
    then show ?thesis using c(1) by (simp add: to_be_bytes_def to_le_bytes_def numeral_2_eq_2)
  qed
  ultimately show ?thesis by blast
qed

lemma overflowing_add_code [code]: "overflowing_add a b = (a + b, a + b < a)"
proof -
  have "a + b < a \<longleftrightarrow> 2 ^ 16 \<le> unat a + unat b"
    using unat_u16_less [of a] unat_u16_less [of b] by (cases "unat a + unat b < 65536") (auto simp: word_less_nat_alt unat_word_ariths le_mod_geq)
  then show ?thesis by (simp add: overflowing_add_def)
qed

definition demo_header :: IpV4Header where
  "demo_header = \<lparr> version_ihl = 0x45, dscp_ecn = 0, ip_len = length16_new 0x73, identification = [0, 0],
     flags_fragment_offset = [0x40, 0], ttl = 0x40, protocol = 0x11, header_checksum = header_checksum_new,
     source_ip = [0xC0, 0xA8, 0x00, 0x01], destination_ip = [0xC0, 0xA8, 0x00, 0xC7] \<rparr>"

text \<open>The example of the unit test.\<close>

lemma checksum_generation_works: "header_checksum_get (header_checksum (generate_checksum demo_header)) = 0xB861"
  by code_simp

theorem ipv4_checksum_witness:
  "checksum_ok (generate_checksum demo_header) \<and>
   header_checksum (generate_checksum (generate_checksum demo_header)) = [0, 0] \<and>
   \<not> checksum_ok (generate_checksum (demo_header\<lparr>header_checksum := [0, 1]\<rparr>))"
proof -
  have "ipv4_wf demo_header" "header_checksum demo_header = [0, 0]" "ipv4_wf (generate_checksum demo_header)"
    "ipv4_wf (demo_header\<lparr>header_checksum := [0, 1]\<rparr>)"
    by (simp_all add: ipv4_wf_def demo_header_def length16_new_def header_checksum_new_def generate_checksum_def)
  then show ?thesis
    using ipv4_checksum [of demo_header] ipv4_checksum [of "generate_checksum demo_header"]
      ipv4_checksum [of "demo_header\<lparr>header_checksum := [0, 1]\<rparr>"] by auto
qed

section \<open>Headers and addresses\<close>

lemma ipv4_split_bytes: "ipv4_wf h \<Longrightarrow> ipv4_split (ipv4_bytes h @ payload) = Inr (h, payload)"
  by (auto simp: ipv4_wf_def ipv4_split_def ipv4_bytes_def ipv4_of_bytes_def elim!: length_2E length_4E)

lemma udp_split_bytes:
  "\<lbrakk>length (source_port h) = 2; length (destination_port h) = 2; length (udp_len h) = 2; length (udp_checksum h) = 2\<rbrakk> \<Longrightarrow>
   udp_split (udp_bytes h @ payload) = Inr (h, payload)"
  by (auto simp: udp_split_def udp_bytes_def udp_of_bytes_def elim!: length_2E)

lemma ethernet_split_bytes:
  "\<lbrakk>length (destination_mac h) = 6; length (source_mac h) = 6; length (frame_type h) = 2; length fcs = 4\<rbrakk> \<Longrightarrow>
   ethernet_split (ethernet_bytes h @ payload @ fcs) = Inr (h, payload, fcs)"
  by (simp add: ethernet_split_def ethernet_bytes_def ethernet_of_bytes_def Let_def)

lemma port_roundtrip: "port_get (port_new p) = p" "length16_get (length16_new n) = n"
  by (simp_all add: port_get_def port_new_def length16_get_def length16_new_def from_to_be_bytes)

text \<open>Digits, as \<open>Display\<close> writes them.\<close>

lemma digit_value_char: "d < 10 \<Longrightarrow> digit_value (char_of (48 + d)) = Some d"
  by (simp add: digit_value_def)

lemma parse_digits_append:
  "parse_digits n (xs @ ys) = (case parse_digits n xs of None \<Rightarrow> None | Some m \<Rightarrow> parse_digits m ys)"
  by (induction n xs rule: parse_digits.induct) (auto split: option.splits)

declare show_nat.simps [simp del]

lemma parse_show_nat: "n < 256 \<Longrightarrow> parse_digits 0 (show_nat n) = Some n"
proof (induction n rule: show_nat.induct)
  case (1 n)
  show ?case
  proof (cases "n < 10")
    case True
    then show ?thesis by (simp add: show_nat.simps [of n] digit_value_char)
  next
    case False
    then have "parse_digits 0 (show_nat (n div 10)) = Some (n div 10)" using 1 by simp
    moreover have "10 * (n div 10) + n mod 10 = n" by simp
    ultimately show ?thesis using False "1.prems"
      by (simp add: show_nat.simps [of n] parse_digits_append digit_value_char)
  qed
qed

lemma show_nat_chars: "set (show_nat n) \<subseteq> (\<lambda>d :: nat. char_of (48 + d)) ` {..<10}" "show_nat n \<noteq> []"
proof (induction n rule: show_nat.induct)
  case (1 n)
  { case 1 then show ?case using "1.IH"(1) by (cases "n < 10") (auto simp: show_nat.simps [of n]) }
  { case 2 then show ?case by (simp add: show_nat.simps [of n]) }
qed

lemma digit_char_distinct:
  assumes "d < (10 :: nat)"
  shows "char_of (48 + d) \<noteq> CHR ''.''" "char_of (48 + d) \<noteq> CHR ''+''"
proof -
  have d: "of_char (char_of (48 + d) :: char) = 48 + d" using assms by simp
  have "of_char CHR ''.'' = (46 :: nat)" "of_char CHR ''+'' = (43 :: nat)" by simp_all
  moreover have "48 + d \<noteq> 46" "48 + d \<noteq> 43" by simp_all
  ultimately show "char_of (48 + d) \<noteq> CHR ''.''" "char_of (48 + d) \<noteq> CHR ''+''" using d by metis+
qed

lemma parse_u8_show: "n < 256 \<Longrightarrow> parse_u8 (show_nat n) = Some (of_nat n)"
  using parse_show_nat [of n] show_nat_chars [of n] digit_char_distinct(2)
  by (cases "show_nat n") auto

lemma split_on_part:
  "c \<notin> set xs \<Longrightarrow> split_on c (xs @ c # ys) = xs # split_on c ys" "c \<notin> set xs \<Longrightarrow> split_on c xs = [xs]"
  by (induction xs) auto

lemma show_nat_no_dot: "CHR ''.'' \<notin> set (show_nat n)"
proof
  assume "CHR ''.'' \<in> set (show_nat n)"
  then obtain d :: nat where "d < 10" "char_of (48 + d) = CHR ''.''" using show_nat_chars(1) [of n] by force
  then show False using digit_char_distinct(1) by blast
qed

text \<open>
  C36. Printing an IPv4 address and parsing the text gives the address back.
\<close>

theorem ipv4_address_roundtrip:
  assumes "length a = 4"
  shows "ipv4_from_str (ipv4_display a) = Some a"
proof -
  obtain w x y z where a: "a = [w, x, y, z]" using assms by (rule length_4E)
  have "split_on CHR ''.'' (ipv4_display a) = map (\<lambda>b. show_nat (unat b)) [w, x, y, z]"
    by (simp add: a ipv4_display_def split_on_part show_nat_no_dot)
  then show ?thesis
    by (simp add: ipv4_from_str_def a parse_u8_show unat_u8_less)
qed

theorem ipv4_address_roundtrip_witness: "ipv4_from_str (ipv4_display [192, 168, 0, 199]) = Some [192, 168, 0, 199]"
  by (rule ipv4_address_roundtrip) simp

text \<open>A short address is taken as one that ends in zeros.\<close>

lemma short_address_accepted: "ipv4_from_str ''10.1'' = Some [10, 1, 0, 0]"
  by code_simp

lemma fragment_flags_misplaced: "\<not> flags_fragment_and (flags_fragment_offset_new DONT_FRAGMENT 0) DONT_FRAGMENT"
  by code_simp

lemma fcs_order: "fcs_checksum (fcs_generate data) = swap_bytes (crc32_calculate data)"
  by (simp add: fcs_checksum_def swap_bytes_def from_be_bytes_def to_be_bytes_def crc32_calculate_def
    fcs_generate_def fcs_loop_update)

end
