(* ===== verification/Virtqueue.thy ===== *)
theory Virtqueue
  imports Prelude
begin

text \<open>
  The virtqueues of the \<open>virtio\<close> library (\<open>splitqueue.rs\<close>) and its register types (\<open>lib.rs\<close>). The rings are in
  memory the device reads and writes as well; here they are lists, and what the device does to them is an
  update of the list.
\<close>

section \<open>Device registers\<close>

datatype DeviceType =
    Reserved | NetworkCard | BlockDevice | Console | EntropySource | MemoryBallooningTraditional | IoMemory
  | Rpmsg | ScsiHost | Transport9P | Mac80211Wlan | RprocSerial | VirtIoCaif | MemoryBalloon | GpuDevice
  | TimerClockDevice | InputDevice | SocketDevice | CryptoDevice | SignalDistributionModule | PstoreDevice
  | IommuDevice | MemoryDevice

definition device_type_from_u32 :: "u32 \<Rightarrow> DeviceType option" where
  "device_type_from_u32 n =
     (if n = 0 then Some Reserved else if n = 1 then Some NetworkCard else if n = 2 then Some BlockDevice
      else if n = 3 then Some Console else if n = 4 then Some EntropySource
      else if n = 5 then Some MemoryBallooningTraditional else if n = 6 then Some IoMemory
      else if n = 7 then Some Rpmsg else if n = 8 then Some ScsiHost else if n = 9 then Some Transport9P
      else if n = 10 then Some Mac80211Wlan else if n = 11 then Some RprocSerial else if n = 12 then Some VirtIoCaif
      else if n = 13 then Some MemoryBalloon else if n = 16 then Some GpuDevice else if n = 17 then Some TimerClockDevice
      else if n = 18 then Some InputDevice else if n = 19 then Some SocketDevice else if n = 20 then Some CryptoDevice
      else if n = 21 then Some SignalDistributionModule else if n = 22 then Some PstoreDevice
      else if n = 23 then Some IommuDevice else if n = 24 then Some MemoryDevice else None)"

datatype StatusFlag = Acknowledge | DeviceNeedsReset | Driver | DriverOk | Failed | FeaturesOk

fun status_flag_value :: "StatusFlag \<Rightarrow> u32" where
  "status_flag_value Acknowledge = 1"
| "status_flag_value DeviceNeedsReset = 64"
| "status_flag_value Driver = 2"
| "status_flag_value DriverOk = 4"
| "status_flag_value Failed = 128"
| "status_flag_value FeaturesOk = 8"

definition status_reset :: u32 where
  "status_reset = 0"

definition status_set_flag :: "u32 \<Rightarrow> StatusFlag \<Rightarrow> u32" where
  "status_set_flag status flag = status OR status_flag_value flag"

definition status_is_set :: "u32 \<Rightarrow> StatusFlag \<Rightarrow> bool" where
  "status_is_set status flag \<longleftrightarrow> status AND status_flag_value flag = status_flag_value flag"

definition device_type_feature_bits :: "u32 \<Rightarrow> u32" where
  "device_type_feature_bits features = features AND 0xFFFFFF"

text \<open>A queue address is written to two registers, its low half first.\<close>

definition queue_address_registers :: "usize \<Rightarrow> u32 \<times> u32" where
  "queue_address_registers addr = (ucast (addr AND 0xFFFFFFFF), ucast (shr addr 32))"

section \<open>Descriptors\<close>

record VirtqueueDescriptor =
  vd_address :: usize
  vd_length :: u32
  vd_flags :: u16
  vd_next :: u16

definition descriptor_default :: VirtqueueDescriptor where
  "descriptor_default = \<lparr> vd_address = 0, vd_length = 0, vd_flags = 0, vd_next = 0 \<rparr>"

definition DESC_NEXT :: u16 where "DESC_NEXT = 1"
definition DESC_WRITE :: u16 where "DESC_WRITE = 2"

definition desc_flags_or :: "u16 \<Rightarrow> u16 \<Rightarrow> u16" where
  "desc_flags_or a b = a OR b"

definition descriptor_write :: "VirtqueueDescriptor list \<Rightarrow> u16 \<Rightarrow> VirtqueueDescriptor \<Rightarrow> VirtqueueDescriptor list panics" where
  "descriptor_write ds index d = do { ensure (unat index < length ds); Some (ds[unat index := d]) }"

definition descriptor_read :: "VirtqueueDescriptor list \<Rightarrow> u16 \<Rightarrow> VirtqueueDescriptor panics" where
  "descriptor_read ds index = do { ensure (unat index < length ds); Some (ds ! unat index) }"

section \<open>The available ring\<close>

record VirtqueueAvailable =
  av_flags :: u16
  av_index :: u16
  av_ring :: "u16 list"

definition avail_push :: "VirtqueueAvailable \<Rightarrow> u16 \<Rightarrow> VirtqueueAvailable panics" where
  "avail_push q index = do {
     let queue_index = av_index q;
     ensure ((of_nat (length (av_ring q)) :: u16) \<noteq> 0);
     let ring_index = av_index q mod of_nat (length (av_ring q));
     ensure (unat ring_index < length (av_ring q));
     Some (q\<lparr>av_ring := (av_ring q)[unat ring_index := index], av_index := queue_index + 1\<rparr>)
   }"

section \<open>The used ring\<close>

record VirtqueueUsedElement =
  ue_start_index :: u32
  ue_length :: u32

record UsedQueue =
  us_flags :: u16
  us_index :: u16
  us_ring :: "VirtqueueUsedElement list"
  us_last_seen :: u16

definition used_pop :: "UsedQueue \<Rightarrow> (VirtqueueUsedElement option \<times> UsedQueue) panics" where
  "used_pop q =
     (if us_last_seen q = us_index q then Some (None, q)
      else do {
        ensure (us_ring q \<noteq> []);
        let used = us_ring q ! (unat (us_last_seen q) mod length (us_ring q));
        Some (Some used, q\<lparr>us_last_seen := us_last_seen q + 1\<rparr>)
      })"

section \<open>Split virtqueues\<close>

record SplitVirtqueue =
  vq_size :: usize
  vq_freelist :: "u16 list"
  vq_descriptors :: "VirtqueueDescriptor list"
  vq_available :: VirtqueueAvailable
  vq_used :: UsedQueue

datatype SplitVirtqueueError = MemoryAllocationError | NotPowerOfTwo | TooLarge

definition splitqueue_new :: "usize \<Rightarrow> SplitVirtqueueError + SplitVirtqueue" where
  "splitqueue_new queue_size =
     (if \<not> is_power_of_two queue_size then Inl NotPowerOfTwo
      else if queue_size \<le> 32768 then
        Inr \<lparr> vq_size = queue_size, vq_freelist = map of_nat [0..<unat (ucast queue_size :: u16)],
          vq_descriptors = replicate (unat queue_size) descriptor_default,
          vq_available = \<lparr> av_flags = 0, av_index = 0, av_ring = replicate (unat queue_size) 0 \<rparr>,
          vq_used = \<lparr> us_flags = 0, us_index = 0,
            us_ring = replicate (unat queue_size) \<lparr> ue_start_index = 0, ue_length = 0 \<rparr>, us_last_seen = 0 \<rparr> \<rparr>
      else Inl TooLarge)"

definition alloc_descriptor :: "SplitVirtqueue \<Rightarrow> u16 option \<times> SplitVirtqueue" where
  "alloc_descriptor q =
     (if vq_freelist q = [] then (None, q)
      else (Some (last (vq_freelist q)), q\<lparr>vq_freelist := butlast (vq_freelist q)\<rparr>))"

definition free_descriptor :: "SplitVirtqueue \<Rightarrow> u16 \<Rightarrow> SplitVirtqueue" where
  "free_descriptor q index = q\<lparr>vq_freelist := vq_freelist q @ [index]\<rparr>"

section \<open>Rings and queues\<close>

text \<open>
  The other side of a ring has an index of its own, up to which it has taken entries. What is in between is the
  queue the ring stands for: the first entry is the oldest. The sixteen-bit indices run freely and wrap around.
\<close>

definition ring_between :: "'a list \<Rightarrow> u16 \<Rightarrow> u16 \<Rightarrow> 'a list" where
  "ring_between ring taken index = map (\<lambda>j. ring ! ((unat taken + j) mod length ring)) [0..<unat (index - taken)]"

definition ring_ok :: "'a list \<Rightarrow> bool" where
  "ring_ok ring \<longleftrightarrow> (\<exists>k \<le> 15. length ring = 2 ^ k)"

text \<open>The device takes the next available descriptor, and puts an element into the used ring.\<close>

definition device_take :: "VirtqueueAvailable \<Rightarrow> u16 \<Rightarrow> (u16 \<times> u16) option" where
  "device_take q taken =
     (if taken = av_index q then None else Some (av_ring q ! (unat taken mod length (av_ring q)), taken + 1))"

definition device_put :: "UsedQueue \<Rightarrow> VirtqueueUsedElement \<Rightarrow> UsedQueue" where
  "device_put q e =
     q\<lparr>us_ring := (us_ring q)[unat (us_index q) mod length (us_ring q) := e], us_index := us_index q + 1\<rparr>"

lemma unat_add_mod_ring:
  assumes "ring_ok ring"
  shows "unat (x + y :: u16) mod length ring = (unat x + unat y) mod length ring"
proof -
  obtain k where "k \<le> 15" "length ring = 2 ^ k" using assms by (auto simp: ring_ok_def)
  moreover from this have "(2 :: nat) ^ k dvd 2 ^ 16" by (intro le_imp_power_dvd) simp
  ultimately have "length ring dvd 2 ^ 16" by simp
  moreover have "unat (x + y) = (unat x + unat y) mod 2 ^ 16" using unat_word_ariths(1) [of x y] by simp
  ultimately show ?thesis by (simp only: mod_mod_cancel)
qed

lemma ring_push:
  assumes "ring_ok ring" "unat (index - taken) < length ring"
  shows "ring_between (ring[unat index mod length ring := x]) taken (index + 1) = ring_between ring taken index @ [x]"
proof -
  let ?n = "unat (index - taken)" and ?L = "length ring"
  obtain k where k: "k \<le> 15" "?L = 2 ^ k" using assms(1) by (auto simp: ring_ok_def)
  moreover from this have "(2 :: nat) ^ k \<le> 2 ^ 15" by (intro power_increasing) simp_all
  ultimately have L: "0 < ?L" "?L \<le> 2 ^ 15" by simp_all
  have n: "unat (index + 1 - taken) = Suc ?n"
  proof -
    have "unat ((index - taken) + 1) = (?n + 1) mod 2 ^ 16" using unat_word_ariths(1) [of "index - taken" 1] by simp
    moreover have "?n + 1 < 2 ^ 16" using assms(2) L(2) by simp
    ultimately show ?thesis by (simp add: algebra_simps)
  qed
  have pos: "(unat taken + ?n) mod ?L = unat index mod ?L"
    using unat_add_mod_ring [OF assms(1), of taken "index - taken"] by simp
  have other: "(unat taken + j) mod ?L \<noteq> unat index mod ?L" if "j < ?n" for j
  proof
    assume "(unat taken + j) mod ?L = unat index mod ?L"
    then have "(unat taken + j) mod ?L = (unat taken + ?n) mod ?L" using pos by simp
    then have "?L dvd (unat taken + ?n) - (unat taken + j)"
      using that mod_eq_dvd_iff_nat [of "unat taken + j" "unat taken + ?n" ?L] by simp
    then have "?L dvd ?n - j" by simp
    then have "?L \<le> ?n - j" using that by (intro dvd_imp_le) simp_all
    then show False using assms(2) by simp
  qed
  then have "ring[unat index mod ?L := x] ! ((unat taken + j) mod ?L) = ring ! ((unat taken + j) mod ?L)" if "j < ?n" for j
    using that by (metis nth_list_update_neq)
  moreover have "ring[unat index mod ?L := x] ! ((unat taken + ?n) mod ?L) = x" unfolding pos using L(1) by simp
  ultimately show ?thesis unfolding ring_between_def n by (simp add: map_eq_conv)
qed

lemma ring_pop:
  assumes "ring_ok ring" "taken \<noteq> index"
  shows "ring_between ring taken index = ring ! (unat taken mod length ring) # ring_between ring (taken + 1) index"
proof -
  let ?n = "unat (index - (taken + 1))"
  have pos: "0 < index - taken" using assms(2) by (simp add: word_gt_0)
  have "index - (taken + 1) = index - taken - 1" by simp
  then have "?n = unat (index - taken) - 1" using unat_pred [OF pos] by (simp only:)
  moreover have "0 < unat (index - taken)" using pos by (simp add: word_less_nat_alt)
  ultimately have n: "unat (index - taken) = Suc ?n" by simp
  have "unat (taken + 1) mod length ring = (unat taken + 1) mod length ring"
    using unat_add_mod_ring [OF assms(1), of taken 1] by simp
  then have "(unat (taken + 1) + j) mod length ring = (unat taken + 1 + j) mod length ring" for j
    by (rule mod_add_cong) simp
  then have "map (\<lambda>j. ring ! ((unat taken + Suc j) mod length ring)) [0..<?n] = ring_between ring (taken + 1) index"
    by (simp add: ring_between_def)
  moreover have "[0..<Suc ?n] = 0 # map Suc [0..<?n]" by (simp add: map_Suc_upt upt_conv_Cons)
  ultimately show ?thesis unfolding ring_between_def [of ring taken] n by (simp only: list.map map_map comp_def) simp
qed

lemma ring_between_empty [simp]: "ring_between ring index index = []"
  by (simp add: ring_between_def)

lemma length_ring_between [simp]: "length (ring_between ring taken index) = unat (index - taken)"
  by (simp add: ring_between_def)

section \<open>Queues in shared rings\<close>

text \<open>
  What both rings promise: one side puts entries in while there is room, the other side takes them out in the
  same order.
\<close>

locale shared_ring =
  fixes ok :: "'s \<Rightarrow> bool" and room :: "'s \<Rightarrow> nat" and contents :: "'s \<Rightarrow> 'a list"
    and put :: "'s \<Rightarrow> 'a \<Rightarrow> 's option" and get :: "'s \<Rightarrow> ('a option \<times> 's) option"
  assumes put: "\<lbrakk>ok s; length (contents s) < room s\<rbrakk> \<Longrightarrow>
      \<exists>s'. put s x = Some s' \<and> ok s' \<and> room s' = room s \<and> contents s' = contents s @ [x]"
    and get: "ok s \<Longrightarrow>
      \<exists>s'. get s = Some (case contents s of [] \<Rightarrow> None | x # _ \<Rightarrow> Some x, s') \<and> ok s' \<and> room s' = room s \<and>
        contents s' = tl (contents s)"
begin

lemma put_all:
  assumes "ok s" "length (contents s) + length xs \<le> room s"
  shows "\<exists>s'. for_loop (\<lambda>x s. put s x) xs s = Some s' \<and> ok s' \<and> room s' = room s \<and> contents s' = contents s @ xs"
  using assms
proof (induction xs arbitrary: s)
  case (Cons x xs)
  obtain s1 where "put s x = Some s1" "ok s1" "room s1 = room s" "contents s1 = contents s @ [x]"
    using put [of s x] Cons.prems by auto
  then show ?case using Cons.IH [of s1] Cons.prems by auto
qed simp

lemma get_empty_iff:
  assumes "ok s"
  shows "(\<exists>s'. get s = Some (None, s')) \<longleftrightarrow> contents s = []"
  using get [OF assms] by (auto split: list.splits)

end

text \<open>The available ring: the driver puts, the device, which has taken entries up to \<open>taken\<close>, gets.\<close>

definition avail_put :: "VirtqueueAvailable \<times> u16 \<Rightarrow> u16 \<Rightarrow> (VirtqueueAvailable \<times> u16) option" where
  "avail_put s x = map_option (\<lambda>q. (q, snd s)) (avail_push (fst s) x)"

definition avail_get :: "VirtqueueAvailable \<times> u16 \<Rightarrow> (u16 option \<times> VirtqueueAvailable \<times> u16) option" where
  "avail_get s =
     Some (case device_take (fst s) (snd s) of None \<Rightarrow> (None, s) | Some (x, t) \<Rightarrow> (Some x, fst s, t))"

definition avail_contents :: "VirtqueueAvailable \<times> u16 \<Rightarrow> u16 list" where
  "avail_contents s = ring_between (av_ring (fst s)) (snd s) (av_index (fst s))"

definition used_contents :: "UsedQueue \<Rightarrow> VirtqueueUsedElement list" where
  "used_contents q = ring_between (us_ring q) (us_last_seen q) (us_index q)"

lemma ring_ok_length: "ring_ok ring \<Longrightarrow> 0 < length ring \<and> length ring \<le> 32768"
proof -
  assume "ring_ok ring"
  then obtain k where "k \<le> 15" "length ring = 2 ^ k" by (auto simp: ring_ok_def)
  moreover from this have "(2 :: nat) ^ k \<le> 2 ^ 15" by (intro power_increasing) simp_all
  ultimately show ?thesis by simp
qed

lemma ring_ok_update [simp]: "ring_ok (ring[i := x]) = ring_ok ring"
  by (simp add: ring_ok_def)

lemma avail_push_eq:
  assumes "ring_ok (av_ring q)"
  shows "avail_push q x =
    Some (q\<lparr>av_ring := (av_ring q)[unat (av_index q) mod length (av_ring q) := x], av_index := av_index q + 1\<rparr>)"
proof -
  let ?L = "length (av_ring q)"
  have L: "0 < ?L" "?L \<le> 32768" using ring_ok_length [OF assms] by auto
  then have u: "unat (of_nat ?L :: u16) = ?L" by (simp add: unat_of_nat)
  then have "(of_nat ?L :: u16) \<noteq> 0" using L by (metis less_numeral_extra(3) unat_0)
  moreover have "unat (av_index q mod of_nat ?L) = unat (av_index q) mod ?L" by (simp add: unat_mod u)
  ultimately show ?thesis using L by (simp add: avail_push_def Let_def)
qed

interpretation avail: shared_ring "\<lambda>s. ring_ok (av_ring (fst s))" "\<lambda>s. length (av_ring (fst s))" avail_contents avail_put avail_get
proof
  fix s :: "VirtqueueAvailable \<times> u16" and x
  assume ok: "ring_ok (av_ring (fst s))" and "length (avail_contents s) < length (av_ring (fst s))"
  then show "\<exists>s'. avail_put s x = Some s' \<and> ring_ok (av_ring (fst s')) \<and>
      length (av_ring (fst s')) = length (av_ring (fst s)) \<and> avail_contents s' = avail_contents s @ [x]"
    using ring_push [OF ok, of "av_index (fst s)" "snd s" x]
    by (simp add: avail_put_def avail_push_eq avail_contents_def)
next
  fix s :: "VirtqueueAvailable \<times> u16"
  assume ok: "ring_ok (av_ring (fst s))"
  show "\<exists>s'. avail_get s = Some (case avail_contents s of [] \<Rightarrow> None | x # _ \<Rightarrow> Some x, s') \<and>
      ring_ok (av_ring (fst s')) \<and> length (av_ring (fst s')) = length (av_ring (fst s)) \<and> avail_contents s' = tl (avail_contents s)"
  proof (cases "snd s = av_index (fst s)")
    case True
    then show ?thesis using ok by (auto simp: avail_get_def device_take_def avail_contents_def)
  next
    case False
    then show ?thesis
      using ok ring_pop [OF ok False] by (simp add: avail_get_def device_take_def avail_contents_def)
  qed
qed

interpretation used: shared_ring "\<lambda>q. ring_ok (us_ring q)" "\<lambda>q. length (us_ring q)" used_contents
  "\<lambda>q e. Some (device_put q e)" used_pop
proof
  fix q and e :: VirtqueueUsedElement
  assume ok: "ring_ok (us_ring q)" and "length (used_contents q) < length (us_ring q)"
  then show "\<exists>s'. Some (device_put q e) = Some s' \<and> ring_ok (us_ring s') \<and> length (us_ring s') = length (us_ring q) \<and>
      used_contents s' = used_contents q @ [e]"
    using ring_push [OF ok, of "us_index q" "us_last_seen q" e] by (simp add: device_put_def used_contents_def)
next
  fix q :: UsedQueue
  assume ok: "ring_ok (us_ring q)"
  show "\<exists>s'. used_pop q = Some (case used_contents q of [] \<Rightarrow> None | x # _ \<Rightarrow> Some x, s') \<and> ring_ok (us_ring s') \<and>
      length (us_ring s') = length (us_ring q) \<and> used_contents s' = tl (used_contents q)"
  proof (cases "us_last_seen q = us_index q")
    case True
    then show ?thesis using ok by (auto simp: used_pop_def used_contents_def)
  next
    case False
    then show ?thesis
      using ok ring_ok_length [OF ok] ring_pop [OF ok False] by (auto simp: used_pop_def used_contents_def Let_def)
  qed
qed

lemma used_pop_measure:
  assumes "used_pop q = Some (Some e, q')"
  shows "unat (us_index q' - us_last_seen q') < unat (us_index q - us_last_seen q)"
proof -
  have q': "us_last_seen q \<noteq> us_index q" "us_index q' = us_index q" "us_last_seen q' = us_last_seen q + 1"
    using assms by (auto simp: used_pop_def Let_def split: if_splits)
  have pos: "0 < us_index q - us_last_seen q" using q'(1) by (simp add: word_gt_0)
  have "us_index q' - us_last_seen q' = us_index q - us_last_seen q - 1" using q' by simp
  then show ?thesis using word_pred_less [OF pos] by (simp only: word_less_nat_alt)
qed

text \<open>\<open>UsedQueue::drain\<close>, as far as it is iterated: until there is nothing new.\<close>

function used_drain :: "UsedQueue \<Rightarrow> (VirtqueueUsedElement list \<times> UsedQueue) panics" where
  "used_drain q = do {
     (r, q') \<leftarrow> used_pop q;
     (case r of
        None \<Rightarrow> Some ([], q')
      | Some e \<Rightarrow> do { (es, q'') \<leftarrow> used_drain q'; Some (e # es, q'') })
   }"
  by pat_completeness auto

termination
  by (relation "measure (\<lambda>q. unat (us_index q - us_last_seen q))") (auto dest: used_pop_measure)

declare used_drain.simps [simp del]

lemma used_drain_contents:
  assumes "ring_ok (us_ring q)"
  shows "\<exists>q'. used_drain q = Some (used_contents q, q') \<and> used_contents q' = []"
  using assms
proof (induction q rule: used_drain.induct)
  case (1 q)
  obtain q1 where q1: "used_pop q = Some (case used_contents q of [] \<Rightarrow> None | x # _ \<Rightarrow> Some x, q1)" "ring_ok (us_ring q1)"
      "used_contents q1 = tl (used_contents q)"
    using used.get [OF "1.prems"] by blast
  show ?case
  proof (cases "used_contents q")
    case Nil
    then show ?thesis using q1 by (simp add: used_drain.simps [of q])
  next
    case (Cons e es)
    then obtain q2 where "used_drain q1 = Some (es, q2)" "used_contents q2 = []"
      using "1.IH" [of "(Some e, q1)" "Some e" q1 e] q1 by auto
    then show ?thesis using q1 Cons by (simp add: used_drain.simps [of q])
  qed
qed

text \<open>
  C37. The rings are queues. As long as the device is no more than the size of the ring behind, pushing
  descriptors never panics and the device finds exactly the pushed descriptors, in order, after those it has
  not taken yet; and \<open>drain\<close> ends and returns exactly the elements the device has put and the driver has not
  seen, in order. Both hold however often the sixteen-bit indices have wrapped around.
\<close>

theorem virtqueue_rings_fifo:
  assumes "ring_ok (av_ring q)" "unat (av_index q - taken) + length xs \<le> length (av_ring q)"
    and "ring_ok (us_ring u)" "unat (us_index u - us_last_seen u) + length es \<le> length (us_ring u)"
  shows "(\<exists>q'. for_loop (\<lambda>x q. avail_push q x) xs q = Some q' \<and>
      ring_between (av_ring q') taken (av_index q') = ring_between (av_ring q) taken (av_index q) @ xs) \<and>
    (\<exists>u'. used_drain (fold (\<lambda>e u. device_put u e) es u) = Some (used_contents u @ es, u') \<and> used_contents u' = [])"
proof
  have loop: "for_loop (\<lambda>x s. avail_put s x) xs (q, taken) = map_option (\<lambda>q. (q, taken)) (for_loop (\<lambda>x q. avail_push q x) xs q)" for q
  proof (induction xs arbitrary: q)
    case (Cons x xs)
    then show ?case by (cases "avail_push q x") (simp_all add: avail_put_def)
  qed simp
  show "\<exists>q'. for_loop (\<lambda>x q. avail_push q x) xs q = Some q' \<and>
      ring_between (av_ring q') taken (av_index q') = ring_between (av_ring q) taken (av_index q) @ xs"
    using avail.put_all [of "(q, taken)" xs] assms(1,2) by (auto simp: loop avail_contents_def)
  have "for_loop (\<lambda>e u. Some (device_put u e)) es u = Some (fold (\<lambda>e u. device_put u e) es u)"
    by (induction es arbitrary: u) simp_all
  then have u: "ring_ok (us_ring (fold (\<lambda>e u. device_put u e) es u))"
      "used_contents (fold (\<lambda>e u. device_put u e) es u) = used_contents u @ es"
    using used.put_all [of u es] assms(3,4) by (auto simp: used_contents_def)
  show "\<exists>u'. used_drain (fold (\<lambda>e u. device_put u e) es u) = Some (used_contents u @ es, u') \<and> used_contents u' = []"
    using used_drain_contents [OF u(1)] u(2) by simp
qed

abbreviation (input) wrapping_avail :: VirtqueueAvailable where
  "wrapping_avail \<equiv> \<lparr>av_flags = 0, av_index = 65535, av_ring = [1, 2, 3, 4]\<rparr>"

abbreviation (input) wrapping_used :: UsedQueue where
  "wrapping_used \<equiv> \<lparr>us_flags = 0, us_index = 65535, us_ring = replicate 4 \<lparr>ue_start_index = 1, ue_length = 1\<rparr>, us_last_seen = 65534\<rparr>"

theorem virtqueue_rings_fifo_witness:
  "ring_ok (av_ring wrapping_avail) \<and> ring_ok (us_ring wrapping_used) \<and>
   (\<exists>q'. for_loop (\<lambda>x q. avail_push q x) [7, 8] wrapping_avail = Some q' \<and>
     ring_between (av_ring q') 65534 (av_index q') = [3, 7, 8]) \<and>
   (\<exists>u'. used_drain (fold (\<lambda>e u. device_put u e) [\<lparr>ue_start_index = 5, ue_length = 512\<rparr>] wrapping_used) =
       Some ([\<lparr>ue_start_index = 1, ue_length = 1\<rparr>, \<lparr>ue_start_index = 5, ue_length = 512\<rparr>], u'))"
proof -
  have ok: "ring_ok (av_ring wrapping_avail)" "ring_ok (us_ring wrapping_used)"
    unfolding ring_ok_def by (rule exI [of _ 2], simp)+
  have old: "ring_between (av_ring wrapping_avail) 65534 (av_index wrapping_avail) = [3]"
      "used_contents wrapping_used = [\<lparr>ue_start_index = 1, ue_length = 1\<rparr>]"
    by (simp_all add: ring_between_def used_contents_def)
  have room: "unat (av_index wrapping_avail - 65534) + length [7, 8 :: u16] \<le> length (av_ring wrapping_avail)"
      "unat (us_index wrapping_used - us_last_seen wrapping_used) + length [\<lparr>ue_start_index = 5, ue_length = 512\<rparr>]
        \<le> length (us_ring wrapping_used)"
    by simp_all
  show ?thesis
    using virtqueue_rings_fifo [OF ok(1) room(1) ok(2) room(2), unfolded old append.simps] ok by blast
qed

end
