(* ===== verification/Block_Driver.thy ===== *)
theory Block_Driver
  imports Virtqueue Btree_Map "HOL-Library.Multiset"
begin

text \<open>
  The block device driver of the file system server (\<open>servers/filesystem/src/block_devices/virtio.rs\<close>, with the
  commands of \<open>libs/virtio/src/devices/block.rs\<close>): requests are chains of three descriptors, and slots of a command
  buffer and a data buffer in DMA memory. One-shot channels are identifiers; what is sent on them is a log. Writes to
  the registers of the device are a log too. The cache of blocks is left out: nothing is ever put into it.
\<close>

section \<open>Commands\<close>

datatype CommandKind = CmdRead | CmdWrite | CmdFlush | CmdDiscard | CmdWriteZeroes

record Command =
  cmd_kind :: CommandKind
  cmd_reserved :: u32
  cmd_sector :: u64
  cmd_status :: u8

datatype CommandStatus = StatusOk | StatusIoError | StatusUnsupported

definition command_status_from_u8 :: "u8 \<Rightarrow> CommandStatus option" where
  "command_status_from_u8 n =
     (if n = 0 then Some StatusOk else if n = 1 then Some StatusIoError
      else if n = 2 then Some StatusUnsupported else None)"

datatype CommandError = CommandIoError | CommandUnsupported | UnknownStatusCode u8

fun command_into_result :: "CommandStatus \<Rightarrow> CommandError + unit" where
  "command_into_result StatusOk = Inr ()"
| "command_into_result StatusIoError = Inl CommandIoError"
| "command_into_result StatusUnsupported = Inl CommandUnsupported"

section \<open>Buffers in DMA memory\<close>

text \<open>
  \<open>CommandBuffer\<close> and \<open>DataBuffer\<close> are the same code for elements of different size: a DMA region, here its physical
  address and its elements, and a queue of free indices.
\<close>

record 'a Buffer =
  buf_phys :: usize
  buf_items :: "'a list"
  buf_free :: "u16 list"

definition COMMAND_SIZE :: usize where "COMMAND_SIZE = 24"
definition BLOCK_SIZE :: usize where "BLOCK_SIZE = 512"

definition buffer_new :: "usize \<Rightarrow> 'a \<Rightarrow> usize \<Rightarrow> 'a Buffer" where
  "buffer_new phys zero len =
     \<lparr> buf_phys = phys, buf_items = replicate (unat len) zero, buf_free = map of_nat [0..<unat (ucast len :: u16)] \<rparr>"

definition buffer_get :: "usize \<Rightarrow> 'a Buffer \<Rightarrow> usize \<Rightarrow> usize option" where
  "buffer_get elem_size b index =
     (if unat index < length (buf_items b) then Some (buf_phys b + elem_size * index) else None)"

definition buffer_alloc :: "usize \<Rightarrow> 'a Buffer \<Rightarrow> ((usize \<times> usize) option \<times> 'a Buffer) panics" where
  "buffer_alloc elem_size b =
     (case buf_free b of
        [] \<Rightarrow> Some (None, b)
      | i # free \<Rightarrow> do {
          let index = ucast i;
          elem \<leftarrow> buffer_get elem_size b index;
          Some (Some (index, elem), b\<lparr>buf_free := free\<rparr>)
        })"

definition buffer_dealloc :: "'a Buffer \<Rightarrow> usize \<Rightarrow> 'a Buffer panics" where
  "buffer_dealloc b index = do {
     ensure (index \<le> 0xFFFF);
     let i = ucast index;
     ensure (i \<notin> set (buf_free b));
     Some (b\<lparr>buf_free := buf_free b @ [i]\<rparr>)
   }"

section \<open>The driver\<close>

datatype DeviceError = ReadError | WriteError

datatype Reply = ReadReply "DeviceError + usize" | WriteReply "DeviceError + unit" | BlockReply usize

datatype QueuedCommandKind = QueuedRead u64 | QueuedWrite u64 | QueuedFlush

record QueuedCommand =
  qc_command :: usize
  qc_data :: usize
  qc_kind :: QueuedCommandKind

datatype WaitingCommands = WaitRead u64 u64 | WaitWrite u64 usize u64 | WaitDataBlock u64

datatype MmioWrite =
    MStatus u32 | MDriverFeaturesSelect u32 | MDeviceFeaturesSelect u32 | MDriverFeatures u32
  | MQueueSelect u32 | MQueueSize u32 | MQueueDescriptor "u32 \<times> u32" | MQueueAvailable "u32 \<times> u32" | MQueueUsed "u32 \<times> u32"
  | MQueueReady u32 | MQueueNotify u32 | MInterruptAck u32

record VirtIoBlockDeviceInner =
  bd_queue :: SplitVirtqueue
  bd_commands :: "Command Buffer"
  bd_data :: "u8 list Buffer"
  bd_queued :: "(u16, QueuedCommand) btree"
  bd_waiting :: "WaitingCommands list"
  bd_channel_id :: u64
  bd_sent :: "(u64 \<times> Reply) list"
  bd_mmio :: "MmioWrite list"

text \<open>What a request returns: a future that is ready, or that waits for a one-shot channel.\<close>

datatype 'a Future = Ready 'a | Recv u64

definition oneshot :: "VirtIoBlockDeviceInner \<Rightarrow> u64 \<times> VirtIoBlockDeviceInner" where
  "oneshot d = (bd_channel_id d, d\<lparr>bd_channel_id := bd_channel_id d + 1\<rparr>)"

definition oneshot_send :: "VirtIoBlockDeviceInner \<Rightarrow> u64 \<Rightarrow> Reply \<Rightarrow> VirtIoBlockDeviceInner" where
  "oneshot_send d tx r = d\<lparr>bd_sent := bd_sent d @ [(tx, r)]\<rparr>"

definition wait_for :: "VirtIoBlockDeviceInner \<Rightarrow> (u64 \<Rightarrow> WaitingCommands) \<Rightarrow> 'a Future \<times> VirtIoBlockDeviceInner" where
  "wait_for d request =
     (let (tx, d') = oneshot d in (Recv tx, d'\<lparr>bd_waiting := bd_waiting d' @ [request tx]\<rparr>))"

definition free_chain :: "SplitVirtqueue \<Rightarrow> u16 \<Rightarrow> u16 \<Rightarrow> u16 \<Rightarrow> SplitVirtqueue" where
  "free_chain q desc1 desc2 desc3 = free_descriptor (free_descriptor (free_descriptor q desc1) desc2) desc3"

definition get_descriptor_chain :: "SplitVirtqueue \<Rightarrow> (u16 \<times> u16 \<times> u16) option \<times> SplitVirtqueue" where
  "get_descriptor_chain q =
     (case alloc_descriptor q of
        (None, q) \<Rightarrow> (None, q)
      | (Some first, q) \<Rightarrow>
          (case alloc_descriptor q of
             (None, q) \<Rightarrow> (None, free_descriptor q first)
           | (Some second, q) \<Rightarrow>
               (case alloc_descriptor q of
                  (None, q) \<Rightarrow> (None, free_descriptor (free_descriptor q first) second)
                | (Some third, q) \<Rightarrow> (Some (first, second, third), q))))"

text \<open>The end of \<open>read\<close> and \<open>write\<close>: the command, its three descriptors, the available ring, the notification.\<close>

definition submit ::
  "VirtIoBlockDeviceInner \<Rightarrow> u16 \<times> u16 \<times> u16 \<Rightarrow> usize \<times> usize \<Rightarrow> usize \<times> usize \<Rightarrow> Command \<Rightarrow> u16 \<Rightarrow>
    (u64 \<Rightarrow> QueuedCommandKind) \<Rightarrow> ('a Future \<times> VirtIoBlockDeviceInner) panics" where
  "submit d desc_chain request data command descriptor_flags kind = do {
     let (desc1, desc2, desc3) = desc_chain;
     let (command_index, request_phys) = request;
     let (data_index, data_phys) = data;
     let d = d\<lparr>bd_commands := (bd_commands d)\<lparr>buf_items := (buf_items (bd_commands d))[unat command_index := command]\<rparr>\<rparr>;
     let q = bd_queue d;
     ds \<leftarrow> descriptor_write (vq_descriptors q) desc1
       \<lparr> vd_address = request_phys, vd_length = 16, vd_flags = DESC_NEXT, vd_next = desc2 \<rparr>;
     ds \<leftarrow> descriptor_write ds desc2
       \<lparr> vd_address = data_phys, vd_length = 512, vd_flags = descriptor_flags, vd_next = desc3 \<rparr>;
     ds \<leftarrow> descriptor_write ds desc3
       (descriptor_default\<lparr> vd_address := request_phys + 16, vd_length := 1, vd_flags := DESC_WRITE \<rparr>);
     let (tx, d) = oneshot d;
     available \<leftarrow> avail_push (vq_available q) desc1;
     let queued = bt_insert desc1 \<lparr> qc_command = command_index, qc_data = data_index, qc_kind = kind tx \<rparr> (bd_queued d);
     Some (Recv tx, d\<lparr>bd_queue := q\<lparr>vq_descriptors := ds, vq_available := available\<rparr>, bd_queued := queued,
       bd_mmio := bd_mmio d @ [MQueueNotify 0]\<rparr>)
   }"

definition block_read :: "VirtIoBlockDeviceInner \<Rightarrow> u64 \<Rightarrow> ((DeviceError + usize) Future \<times> VirtIoBlockDeviceInner) panics" where
  "block_read d sector =
     (case get_descriptor_chain (bd_queue d) of
        (None, q) \<Rightarrow> Some (wait_for (d\<lparr>bd_queue := q\<rparr>) (WaitRead sector))
      | (Some (desc1, desc2, desc3), q) \<Rightarrow> do {
          (request, commands) \<leftarrow> buffer_alloc COMMAND_SIZE (bd_commands d);
          (case request of
             None \<Rightarrow> Some (wait_for (d\<lparr>bd_queue := free_chain q desc1 desc2 desc3, bd_commands := commands\<rparr>) (WaitRead sector))
           | Some request \<Rightarrow> do {
               (data, blocks) \<leftarrow> buffer_alloc BLOCK_SIZE (bd_data d);
               (case data of
                  None \<Rightarrow> do {
                    commands \<leftarrow> buffer_dealloc commands (fst request);
                    Some (wait_for (d\<lparr>bd_queue := free_chain q desc1 desc2 desc3, bd_commands := commands, bd_data := blocks\<rparr>)
                      (WaitRead sector))
                  }
                | Some data \<Rightarrow>
                    submit (d\<lparr>bd_queue := q, bd_commands := commands, bd_data := blocks\<rparr>) (desc1, desc2, desc3) request data
                      \<lparr> cmd_kind = CmdRead, cmd_reserved = 0, cmd_sector = sector, cmd_status = 0 \<rparr>
                      (desc_flags_or DESC_NEXT DESC_WRITE) QueuedRead)
             })
        })"

text \<open>A data block is owned: it stands for its index in the data buffer.\<close>

definition block_write ::
  "VirtIoBlockDeviceInner \<Rightarrow> u64 \<Rightarrow> usize \<Rightarrow> ((DeviceError + unit) Future \<times> VirtIoBlockDeviceInner) panics" where
  "block_write d sector block =
     (case get_descriptor_chain (bd_queue d) of
        (None, q) \<Rightarrow> Some (wait_for (d\<lparr>bd_queue := q\<rparr>) (WaitWrite sector block))
      | (Some (desc1, desc2, desc3), q) \<Rightarrow>
          (case buffer_get BLOCK_SIZE (bd_data d) block of
             None \<Rightarrow> Some (Ready (Inl WriteError), d\<lparr>bd_queue := q\<rparr>)
           | Some data \<Rightarrow> do {
               (request, commands) \<leftarrow> buffer_alloc COMMAND_SIZE (bd_commands d);
               (case request of
                  None \<Rightarrow> Some (wait_for (d\<lparr>bd_queue := free_chain q desc1 desc2 desc3, bd_commands := commands\<rparr>)
                    (WaitWrite sector block))
                | Some request \<Rightarrow>
                    submit (d\<lparr>bd_queue := q, bd_commands := commands\<rparr>) (desc1, desc2, desc3) request (block, data)
                      \<lparr> cmd_kind = CmdWrite, cmd_reserved = 0, cmd_sector = sector, cmd_status = 0 \<rparr>
                      DESC_NEXT QueuedWrite)
             }))"

definition alloc_data_block :: "VirtIoBlockDeviceInner \<Rightarrow> (usize Future \<times> VirtIoBlockDeviceInner) panics" where
  "alloc_data_block d = do {
     (r, blocks) \<leftarrow> buffer_alloc BLOCK_SIZE (bd_data d);
     (case r of
        Some (index, _) \<Rightarrow> Some (Ready index, d\<lparr>bd_data := blocks\<rparr>)
      | None \<Rightarrow> Some (wait_for (d\<lparr>bd_data := blocks\<rparr>) WaitDataBlock))
   }"

text \<open>The answer to a command the device has completed.\<close>

definition finish_command ::
  "VirtIoBlockDeviceInner \<Rightarrow> QueuedCommand \<Rightarrow> CommandError + unit \<Rightarrow> VirtIoBlockDeviceInner panics" where
  "finish_command d qc command_status =
     (case qc_kind qc of
        QueuedFlush \<Rightarrow> Some d
      | QueuedRead tx \<Rightarrow>
          Some (oneshot_send d tx (ReadReply (if isl command_status then Inl ReadError else Inr (qc_data qc))))
      | QueuedWrite tx \<Rightarrow> do {
          let d = oneshot_send d tx (WriteReply (if isl command_status then Inl ReadError else Inr ()));
          blocks \<leftarrow> buffer_dealloc (bd_data d) (qc_data qc);
          Some (d\<lparr>bd_data := blocks\<rparr>)
        })"

lemma finish_command_queue: "finish_command d qc s = Some d' \<Longrightarrow> bd_queue d' = bd_queue d"
  by (auto simp: finish_command_def oneshot_send_def panic_simps split: QueuedCommandKind.splits)

text \<open>One round of the loop of \<open>handle_interrupt\<close>; the result says whether the loop goes on.\<close>

definition complete_used :: "VirtIoBlockDeviceInner \<Rightarrow> VirtqueueUsedElement \<Rightarrow> (bool \<times> VirtIoBlockDeviceInner) panics" where
  "complete_used d used = do {
     let desc1 = ucast (ue_start_index used);
     first \<leftarrow> descriptor_read (vq_descriptors (bd_queue d)) desc1;
     let desc2 = vd_next first;
     second \<leftarrow> descriptor_read (vq_descriptors (bd_queue d)) desc2;
     let desc3 = vd_next second;
     let d = d\<lparr>bd_mmio := bd_mmio d @ [MInterruptAck 1]\<rparr>;
     (case bt_get (bd_queued d) desc1 of
        None \<Rightarrow> Some (False, d)
      | Some qc \<Rightarrow> do {
          let d = d\<lparr>bd_queued := bt_remove desc1 (bd_queued d)\<rparr>;
          _ \<leftarrow> buffer_get COMMAND_SIZE (bd_commands d) (qc_command qc);
          _ \<leftarrow> buffer_get BLOCK_SIZE (bd_data d) (qc_data qc);
          status \<leftarrow> command_status_from_u8 (cmd_status (buf_items (bd_commands d) ! unat (qc_command qc)));
          d \<leftarrow> finish_command d qc (command_into_result status);
          commands \<leftarrow> buffer_dealloc (bd_commands d) (qc_command qc);
          Some (True, d\<lparr>bd_queue := free_chain (bd_queue d) desc1 desc2 desc3, bd_commands := commands\<rparr>)
        })
   }"

lemma complete_used_keeps_ring:
  "complete_used d used = Some (go, d') \<Longrightarrow> vq_used (bd_queue d') = vq_used (bd_queue d)"
  by (auto simp: complete_used_def free_chain_def free_descriptor_def panic_simps Let_def
      dest!: finish_command_queue split: option.splits)

function handle_interrupt :: "VirtIoBlockDeviceInner \<Rightarrow> VirtIoBlockDeviceInner panics" where
  "handle_interrupt d = do {
     (r, used) \<leftarrow> used_pop (vq_used (bd_queue d));
     (case r of
        None \<Rightarrow> Some (d\<lparr>bd_queue := (bd_queue d)\<lparr>vq_used := used\<rparr>\<rparr>)
      | Some element \<Rightarrow> do {
          (go, d) \<leftarrow> complete_used (d\<lparr>bd_queue := (bd_queue d)\<lparr>vq_used := used\<rparr>\<rparr>) element;
          if go then handle_interrupt d else Some d
        })
   }"
  by pat_completeness auto

termination
  by (relation "measure (\<lambda>d. unat (us_index (vq_used (bd_queue d)) - us_last_seen (vq_used (bd_queue d))))")
    (auto dest!: used_pop_measure complete_used_keeps_ring)

declare handle_interrupt.simps [simp del]

text \<open>
  \<open>VirtIoBlockDevice::new\<close>. The values read from the status register are the readings \<open>status\<close>, in order; the
  physical addresses of the five DMA regions are arguments.
\<close>

datatype VirtIoDeviceError = FeaturesNotRecognized | VirtIoDeviceFailed

definition block_device_new ::
  "(nat \<Rightarrow> u32) \<Rightarrow> usize \<Rightarrow> usize \<Rightarrow> usize \<Rightarrow> usize \<Rightarrow> usize \<Rightarrow>
    (VirtIoDeviceError \<times> MmioWrite list + VirtIoBlockDeviceInner) panics" where
  "block_device_new status descriptors_phys available_phys used_phys commands_phys data_phys = do {
     queue \<leftarrow> (case splitqueue_new 64 of Inr q \<Rightarrow> Some q | Inl _ \<Rightarrow> None);
     let commands = buffer_new commands_phys \<lparr> cmd_kind = CmdRead, cmd_reserved = 0, cmd_sector = 0, cmd_status = 0 \<rparr> 512;
     let data = buffer_new data_phys (replicate 512 0) 512;
     let writes = [MStatus status_reset, MStatus (status_set_flag (status 0) Acknowledge),
       MStatus (status_set_flag (status 1) Driver), MDriverFeaturesSelect 0, MDeviceFeaturesSelect 0, MDriverFeatures 0,
       MStatus (status_set_flag (status 2) FeaturesOk)];
     if \<not> status_is_set (status 3) FeaturesOk then Some (Inl (FeaturesNotRecognized, writes))
     else do {
       let writes = writes @ [MQueueSelect 0, MQueueSize (ucast (vq_size queue)),
         MQueueDescriptor (queue_address_registers descriptors_phys),
         MQueueAvailable (queue_address_registers available_phys), MQueueUsed (queue_address_registers used_phys),
         MQueueReady 1, MStatus (status_set_flag (status 4) DriverOk)];
       if status_is_set (status 5) Failed then Some (Inl (VirtIoDeviceFailed, writes))
       else Some (Inr \<lparr> bd_queue = queue, bd_commands = commands, bd_data = data, bd_queued = [], bd_waiting = [],
         bd_channel_id = 0, bd_sent = [], bd_mmio = writes \<rparr>)
     }
   }"

section \<open>Slots of a buffer\<close>

text \<open>
  A slot of a buffer is free, or it is in one of the hands listed in \<open>taken\<close>: never both, and in one hand only. Slots
  that were lost are in neither.
\<close>

definition slots_ok :: "'a Buffer \<Rightarrow> usize list \<Rightarrow> bool" where
  "slots_ok b taken \<longleftrightarrow> length (buf_items b) = 512 \<and> distinct (map ucast (buf_free b) @ taken) \<and>
     (\<forall>i \<in> set (map ucast (buf_free b) @ taken). i < 512)"

lemma slots_perm: "mset taken = mset taken' \<Longrightarrow> slots_ok b taken = slots_ok b taken'"
  unfolding slots_ok_def
  by (metis mset_append mset_eq_imp_distinct_iff mset_eq_setD)

lemma slots_leak: "slots_ok b (xs @ i # ys) \<Longrightarrow> slots_ok b (xs @ ys)"
  by (auto simp: slots_ok_def)

lemma slots_items [simp]: "length xs = 512 \<Longrightarrow> length (buf_items b) = 512 \<Longrightarrow> slots_ok (b\<lparr>buf_items := xs\<rparr>) taken = slots_ok b taken"
  by (simp add: slots_ok_def)

lemma slots_get: "slots_ok b taken \<Longrightarrow> i \<in> set taken \<Longrightarrow> buffer_get sz b i = Some (buf_phys b + sz * i)"
  by (auto simp: slots_ok_def buffer_get_def word_less_nat_alt)

lemma buffer_alloc_cases:
  assumes "slots_ok b taken"
  shows "buffer_alloc sz b = Some (None, b) \<or>
    (\<exists>i b'. buffer_alloc sz b = Some (Some (i, buf_phys b + sz * i), b') \<and> slots_ok b' (i # taken) \<and>
      buf_items b' = buf_items b \<and> buf_phys b' = buf_phys b)"
proof (cases "buf_free b")
  case Nil
  then show ?thesis by (simp add: buffer_alloc_def)
next
  case (Cons i free)
  have "unat (ucast i :: usize) < length (buf_items b)"
    using assms Cons by (auto simp: slots_ok_def word_less_nat_alt)
  then have "buffer_alloc sz b = Some (Some (ucast i, buf_phys b + sz * ucast i), b\<lparr>buf_free := free\<rparr>)"
    using Cons by (simp add: buffer_alloc_def buffer_get_def Let_def)
  moreover have "slots_ok (b\<lparr>buf_free := free\<rparr>) (ucast i # taken)" using assms Cons by (auto simp: slots_ok_def)
  ultimately show ?thesis by auto
qed

lemma ucast_index: "i < 512 \<Longrightarrow> (ucast (ucast i :: u16) :: usize) = i"
proof -
  assume "i < 512"
  then have "unat i < 512" by (simp add: word_less_nat_alt)
  then have "unat (ucast (ucast i :: u16) :: usize) = unat i"
    by (simp add: unsigned_ucast_eq unsigned_take_bit_eq take_bit_nat_eq_self)
  then show ?thesis by (simp only: word_unat_eq_iff)
qed

lemma buffer_dealloc_ok:
  assumes "slots_ok b (xs @ i # ys)"
  shows "\<exists>b'. buffer_dealloc b i = Some b' \<and> slots_ok b' (xs @ ys) \<and> buf_items b' = buf_items b \<and> buf_phys b' = buf_phys b"
proof -
  have i: "i < 512" using assms by (auto simp: slots_ok_def)
  then have "i \<le> 0xFFFF" by (simp add: word_less_nat_alt word_le_nat_alt)
  moreover have "ucast i \<notin> set (buf_free b)"
  proof
    assume "ucast i \<in> set (buf_free b)"
    then have "ucast (ucast i :: u16) \<in> set (map ucast (buf_free b) :: usize list)" by simp
    then show False using assms i by (auto simp: slots_ok_def ucast_index)
  qed
  moreover have "slots_ok (b\<lparr>buf_free := buf_free b @ [ucast i]\<rparr>) (xs @ ys)"
    using assms i by (auto simp: slots_ok_def ucast_index)
  ultimately show ?thesis by (simp add: buffer_dealloc_def Let_def)
qed

section \<open>Descriptors of the queue\<close>

definition desc_chain :: "VirtqueueDescriptor list \<Rightarrow> u16 \<Rightarrow> u16 list" where
  "desc_chain ds h = (let second = vd_next (ds ! unat h) in [h, second, vd_next (ds ! unat second)])"

definition descriptors_ok :: "SplitVirtqueue \<Rightarrow> u16 list \<Rightarrow> bool" where
  "descriptors_ok q heads \<longleftrightarrow> length (vq_descriptors q) = 64 \<and>
     distinct (vq_freelist q @ concat (map (desc_chain (vq_descriptors q)) heads)) \<and>
     (\<forall>x \<in> set (vq_freelist q @ concat (map (desc_chain (vq_descriptors q)) heads)). unat x < 64)"

lemma mset_concat_map: "mset xs = mset ys \<Longrightarrow> mset (concat (map f xs)) = mset (concat (map f ys))"
proof -
  assume "mset xs = mset ys"
  then have "(\<Sum>x \<in># mset xs. mset (f x)) = (\<Sum>x \<in># mset ys. mset (f x))" by simp
  then show ?thesis by (simp add: mset_concat sum_mset_sum_list comp_def del: mset_map flip: mset_map)
qed

lemma descriptors_perm:
  assumes "mset heads = mset heads'" "mset (vq_freelist q) = mset (vq_freelist q')" "vq_descriptors q = vq_descriptors q'"
  shows "descriptors_ok q heads = descriptors_ok q' heads'"
proof -
  have "mset (vq_freelist q @ concat (map (desc_chain (vq_descriptors q)) heads)) =
      mset (vq_freelist q' @ concat (map (desc_chain (vq_descriptors q')) heads'))"
    using mset_concat_map [OF assms(1), of "desc_chain (vq_descriptors q)"] assms(2,3) by simp
  then show ?thesis
    using mset_eq_imp_distinct_iff mset_eq_setD assms(3) unfolding descriptors_ok_def by metis
qed

lemma get_descriptor_chain_cases:
  "(\<exists>free. get_descriptor_chain q = (None, q\<lparr>vq_freelist := free\<rparr>) \<and> mset free = mset (vq_freelist q)) \<or>
   (\<exists>a b c free. get_descriptor_chain q = (Some (a, b, c), q\<lparr>vq_freelist := free\<rparr>) \<and> vq_freelist q = free @ [c, b, a])"
proof -
  consider "vq_freelist q = []" | a where "vq_freelist q = [a]" | a b where "vq_freelist q = [b, a]"
    | a b c free where "vq_freelist q = free @ [c, b, a]"
    by (metis append.assoc append_Cons append_Nil rev_exhaust)
  then show ?thesis
  proof cases
    case 1
    then have "q\<lparr>vq_freelist := []\<rparr> = q" by (cases q) simp
    then show ?thesis using 1
      by (intro disjI1 exI [of _ "[]"]) (simp add: get_descriptor_chain_def alloc_descriptor_def)
  next
    case 2
    then show ?thesis by (auto simp: get_descriptor_chain_def alloc_descriptor_def free_descriptor_def)
  next
    case 3
    then show ?thesis by (auto simp: get_descriptor_chain_def alloc_descriptor_def free_descriptor_def)
  next
    case 4
    then show ?thesis by (auto simp: get_descriptor_chain_def alloc_descriptor_def free_descriptor_def butlast_append)
  qed
qed

section \<open>The invariant of the driver\<close>

text \<open>What the device reads for a request: the header, the block and the status byte, in this order.\<close>

definition request_ok :: "VirtIoBlockDeviceInner \<Rightarrow> u16 \<times> QueuedCommand \<Rightarrow> bool" where
  "request_ok d r =
     (let ds = vq_descriptors (bd_queue d); request = buf_phys (bd_commands d) + COMMAND_SIZE * qc_command (snd r);
          second = vd_next (ds ! unat (fst r)); third = vd_next (ds ! unat second) in
      ds ! unat (fst r) = \<lparr> vd_address = request, vd_length = 16, vd_flags = DESC_NEXT, vd_next = second \<rparr> \<and>
      ds ! unat second = \<lparr> vd_address = buf_phys (bd_data d) + BLOCK_SIZE * qc_data (snd r), vd_length = 512,
        vd_flags = (case qc_kind (snd r) of QueuedRead _ \<Rightarrow> desc_flags_or DESC_NEXT DESC_WRITE | _ \<Rightarrow> DESC_NEXT), vd_next = third \<rparr> \<and>
      ds ! unat third = \<lparr> vd_address = request + 16, vd_length = 1, vd_flags = DESC_WRITE, vd_next = 0 \<rparr>)"

definition used_heads :: "UsedQueue \<Rightarrow> u16 list" where
  "used_heads u = map (\<lambda>e. ucast (ue_start_index e)) (used_contents u)"

fun waiting_block :: "WaitingCommands \<Rightarrow> usize list" where
  "waiting_block (WaitWrite _ block _) = [block]"
| "waiting_block _ = []"

definition status_ok :: "Command \<Rightarrow> bool" where
  "status_ok c \<longleftrightarrow> command_status_from_u8 (cmd_status c) \<noteq> None"

text \<open>
  The device has taken the available ring up to \<open>taken\<close> and works on the requests \<open>flight\<close>; \<open>owned\<close> are the data
  blocks outside the driver. Every queued command is available, in flight or used, and only once.
\<close>

definition rings_ok :: "u16 \<Rightarrow> u16 list \<Rightarrow> SplitVirtqueue \<Rightarrow> u16 list \<Rightarrow> bool" where
  "rings_ok taken flight q heads \<longleftrightarrow>
     ring_ok (av_ring (vq_available q)) \<and> length (av_ring (vq_available q)) = 64 \<and>
     ring_ok (us_ring (vq_used q)) \<and> length (us_ring (vq_used q)) = 64 \<and>
     mset (avail_contents (vq_available q, taken) @ flight @ used_heads (vq_used q)) = mset heads"

definition block_inv :: "u16 \<Rightarrow> u16 list \<Rightarrow> usize list \<Rightarrow> VirtIoBlockDeviceInner \<Rightarrow> bool" where
  "block_inv taken flight owned d \<longleftrightarrow>
     bt_ok (bd_queued d) \<and> rings_ok taken flight (bd_queue d) (map fst (bd_queued d)) \<and>
     descriptors_ok (bd_queue d) (map fst (bd_queued d)) \<and>
     slots_ok (bd_commands d) (map (qc_command \<circ> snd) (bd_queued d)) \<and>
     slots_ok (bd_data d) (map (qc_data \<circ> snd) (bd_queued d) @ concat (map waiting_block (bd_waiting d)) @ owned) \<and>
     (\<forall>r \<in> set (bd_queued d). request_ok d r) \<and> (\<forall>c \<in> set (buf_items (bd_commands d)). status_ok c)"

lemma card_indices: "card {x :: u16. unat x < 64} \<le> 64"
proof -
  have "inj_on unat {x :: u16. unat x < 64}" by (simp add: inj_on_def word_unat_eq_iff)
  then have "card {x :: u16. unat x < 64} = card (unat ` {x :: u16. unat x < 64})" by (simp add: card_image)
  also have "\<dots> \<le> card {..<64 :: nat}" by (intro card_mono) auto
  finally show ?thesis by simp
qed

lemma heads_bound:
  assumes "descriptors_ok q heads"
  shows "3 * length heads \<le> 64"
proof -
  let ?xs = "concat (map (desc_chain (vq_descriptors q)) heads)"
  have "length ?xs = card (set ?xs)" using assms
    by (intro distinct_card [symmetric]) (simp add: descriptors_ok_def)
  also have "\<dots> \<le> card {x :: u16. unat x < 64}"
    using assms by (intro card_mono) (auto simp: descriptors_ok_def)
  also have "\<dots> \<le> 64" by (rule card_indices)
  finally have "length ?xs \<le> 64" .
  moreover have "length ?xs = 3 * length heads" by (induction heads) (simp_all add: desc_chain_def Let_def)
  ultimately show ?thesis by simp
qed

lemma avail_room:
  assumes "rings_ok taken flight q heads" "descriptors_ok q' heads"
  shows "length (avail_contents (vq_available q, taken)) < 64" "length (used_contents (vq_used q)) + length flight < 64"
proof -
  have "length (avail_contents (vq_available q, taken) @ flight @ used_heads (vq_used q)) = length heads"
    using assms(1) by (metis mset_eq_length rings_ok_def)
  then have "length (avail_contents (vq_available q, taken)) + length flight + length (used_contents (vq_used q)) = length heads"
    by (simp add: used_heads_def)
  then show "length (avail_contents (vq_available q, taken)) < 64" "length (used_contents (vq_used q)) + length flight < 64"
    using heads_bound [OF assms(2)] by simp_all
qed

lemma desc_chain_parts: "h \<in> set (desc_chain ds h)" "vd_next (ds ! unat h) \<in> set (desc_chain ds h)"
    "vd_next (ds ! unat (vd_next (ds ! unat h))) \<in> set (desc_chain ds h)"
  by (simp_all add: desc_chain_def Let_def)

lemma desc_chain_cong:
  assumes "\<And>x. x \<in> set (desc_chain ds h) \<Longrightarrow> ds' ! unat x = ds ! unat x"
  shows "desc_chain ds' h = desc_chain ds h"
  using assms [OF desc_chain_parts(1)] assms [OF desc_chain_parts(2)] by (simp add: desc_chain_def Let_def)

lemma request_ok_cong:
  assumes "\<And>x. x \<in> set (desc_chain (vq_descriptors (bd_queue d)) (fst r)) \<Longrightarrow>
      vq_descriptors (bd_queue d') ! unat x = vq_descriptors (bd_queue d) ! unat x"
    and "buf_phys (bd_commands d') = buf_phys (bd_commands d)" "buf_phys (bd_data d') = buf_phys (bd_data d)"
  shows "request_ok d' r = request_ok d r"
  using assms(1) [OF desc_chain_parts(1)] assms(1) [OF desc_chain_parts(2)] assms(1) [OF desc_chain_parts(3)] assms(2,3)
  by (simp add: request_ok_def Let_def)

lemma mset_bt_insert: "k \<notin> set (map fst m) \<Longrightarrow> mset (bt_insert k v m) = add_mset (k, v) (mset m)"
  by (induction k v m rule: bt_insert.induct) auto

lemma mset_bt_remove: "map_of m k = Some v \<Longrightarrow> mset m = add_mset (k, v) (mset (bt_remove k m))"
  by (induction k m rule: bt_remove.induct) (auto split: if_splits)

section \<open>Every operation keeps the invariant\<close>

lemma free_not_head:
  assumes "descriptors_ok q heads" "a \<in> set (vq_freelist q)"
  shows "a \<notin> set heads"
proof
  assume "a \<in> set heads"
  then have "a \<in> set (concat (map (desc_chain (vq_descriptors q)) heads))" using desc_chain_parts(1) by auto
  then show False using assms by (auto simp: descriptors_ok_def)
qed

text \<open>Linking three free descriptors to a new chain.\<close>

lemma descriptors_link:
  assumes ok: "descriptors_ok q heads" and free: "vq_freelist q = free @ [c, b, a]"
    and ds: "ds = (vq_descriptors q)[unat a := A, unat b := B, unat c := C]" and "vd_next A = b" "vd_next B = c"
  shows "descriptors_ok (q\<lparr>vq_freelist := free, vq_descriptors := ds, vq_available := av\<rparr>) (a # heads)"
    and "h \<in> set heads \<Longrightarrow> x \<in> set (desc_chain (vq_descriptors q) h) \<Longrightarrow> ds ! unat x = vq_descriptors q ! unat x"
    and "ds ! unat a = A" "ds ! unat b = B" "ds ! unat c = C"
    and "unat a < 64" "unat b < 64" "unat c < 64"
proof -
  have len: "length (vq_descriptors q) = 64" and bound: "unat a < 64" "unat b < 64" "unat c < 64" and ne: "a \<noteq> b" "a \<noteq> c" "b \<noteq> c"
    using ok free by (auto simp: descriptors_ok_def)
  then have ne': "unat a \<noteq> unat b" "unat a \<noteq> unat c" "unat b \<noteq> unat c" by (simp_all add: word_unat_eq_iff)
  show at: "ds ! unat a = A" "ds ! unat b = B" "ds ! unat c = C" "unat a < 64" "unat b < 64" "unat c < 64"
    using bound len ne' by (simp_all add: ds)
  have keep: "ds ! unat x = vq_descriptors q ! unat x" if "h \<in> set heads" "x \<in> set (desc_chain (vq_descriptors q) h)" for h x
  proof -
    have "x \<notin> {a, b, c}" using that ok free by (auto simp: descriptors_ok_def)
    then have "unat x \<noteq> unat a" "unat x \<noteq> unat b" "unat x \<noteq> unat c" by (simp_all add: word_unat_eq_iff)
    then show ?thesis by (simp add: ds)
  qed
  then show "h \<in> set heads \<Longrightarrow> x \<in> set (desc_chain (vq_descriptors q) h) \<Longrightarrow> ds ! unat x = vq_descriptors q ! unat x" .
  have "desc_chain ds h = desc_chain (vq_descriptors q) h" if "h \<in> set heads" for h
    using keep [OF that] by (rule desc_chain_cong)
  then have same: "map (desc_chain ds) heads = map (desc_chain (vq_descriptors q)) heads" by simp
  have new: "desc_chain ds a = [a, b, c]" using at assms(4,5) by (simp add: desc_chain_def Let_def)
  have "length ds = 64" using len by (simp add: ds)
  then show "descriptors_ok (q\<lparr>vq_freelist := free, vq_descriptors := ds, vq_available := av\<rparr>) (a # heads)"
    using ok free ne by (auto simp: descriptors_ok_def same new)
qed

lemma rings_push:
  assumes ok: "rings_ok taken flight q heads" and room: "descriptors_ok q' heads"
  obtains av where "avail_push (vq_available q) h = Some av"
    and "rings_ok taken flight (q\<lparr>vq_freelist := free, vq_descriptors := ds, vq_available := av\<rparr>) (h # heads)"
proof -
  have "\<exists>s'. avail_put (vq_available q, taken) h = Some s' \<and> ring_ok (av_ring (fst s')) \<and>
      length (av_ring (fst s')) = length (av_ring (vq_available q)) \<and>
      avail_contents s' = avail_contents (vq_available q, taken) @ [h]"
    using avail.put [of "(vq_available q, taken)" h] ok avail_room(1) [OF ok room] by (simp add: rings_ok_def)
  then obtain av where "avail_push (vq_available q) h = Some av" "ring_ok (av_ring av)"
      "length (av_ring av) = length (av_ring (vq_available q))"
      "avail_contents (av, taken) = avail_contents (vq_available q, taken) @ [h]"
    by (auto simp: avail_put_def)
  then show thesis using ok by (intro that [of av]) (auto simp: rings_ok_def)
qed

lemma submit_ok:
  fixes d :: VirtIoBlockDeviceInner
  defines "q \<equiv> bd_queue d"
  assumes bt: "bt_ok (bd_queued d)" and rings: "rings_ok taken flight q (map fst (bd_queued d))"
    and desc: "descriptors_ok (q\<lparr>vq_freelist := vq_freelist q @ [c, b, a]\<rparr>) (map fst (bd_queued d))"
    and cmds: "slots_ok (bd_commands d) (ci # map (qc_command \<circ> snd) (bd_queued d))"
    and data: "slots_ok (bd_data d) (di # map (qc_data \<circ> snd) (bd_queued d) @ concat (map waiting_block (bd_waiting d)) @ owned)"
    and reqs: "\<forall>r \<in> set (bd_queued d). request_ok d r" and stat: "\<forall>c \<in> set (buf_items (bd_commands d)). status_ok c" "status_ok cmd"
    and flags: "\<And>tx. flags = (case kind tx of QueuedRead _ \<Rightarrow> desc_flags_or DESC_NEXT DESC_WRITE | _ \<Rightarrow> DESC_NEXT)"
  shows "\<exists>f d'. submit d (a, b, c) (ci, buf_phys (bd_commands d) + COMMAND_SIZE * ci)
      (di, buf_phys (bd_data d) + BLOCK_SIZE * di) cmd flags kind = Some (Recv f, d') \<and>
    block_inv taken flight owned d' \<and> bd_sent d' = bd_sent d \<and>
    buf_phys (bd_commands d') = buf_phys (bd_commands d) \<and> buf_phys (bd_data d') = buf_phys (bd_data d)"
proof -
  let ?heads = "map fst (bd_queued d)" and ?request = "buf_phys (bd_commands d) + COMMAND_SIZE * ci"
  let ?A = "\<lparr> vd_address = ?request, vd_length = 16, vd_flags = DESC_NEXT, vd_next = b \<rparr>"
  let ?B = "\<lparr> vd_address = buf_phys (bd_data d) + BLOCK_SIZE * di, vd_length = 512, vd_flags = flags, vd_next = c \<rparr>"
  let ?C = "\<lparr> vd_address = ?request + 16, vd_length = 1, vd_flags = DESC_WRITE, vd_next = 0 \<rparr>"
  let ?ds = "(vq_descriptors q)[unat a := ?A, unat b := ?B, unat c := ?C]"
  note link = descriptors_link [OF desc, of "vq_freelist q" c b a ?ds ?A ?B ?C, simplified]
  obtain av where av: "avail_push (vq_available q) a = Some av"
      "rings_ok taken flight (q\<lparr>vq_freelist := vq_freelist q, vq_descriptors := ?ds, vq_available := av\<rparr>) (a # ?heads)"
    using rings_push [OF rings desc] by blast
  let ?qc = "\<lparr> qc_command = ci, qc_data = di, qc_kind = kind (bd_channel_id d) \<rparr>"
  let ?d = "d\<lparr>bd_queue := q\<lparr>vq_descriptors := ?ds, vq_available := av\<rparr>,
      bd_commands := (bd_commands d)\<lparr>buf_items := (buf_items (bd_commands d))[unat ci := cmd]\<rparr>,
      bd_queued := bt_insert a ?qc (bd_queued d), bd_channel_id := bd_channel_id d + 1, bd_mmio := bd_mmio d @ [MQueueNotify 0]\<rparr>"
  have len: "length (vq_descriptors q) = 64" "length (buf_items (bd_commands d)) = 512"
    using desc cmds by (auto simp: descriptors_ok_def slots_ok_def)
  have q: "q\<lparr>vq_freelist := vq_freelist q, vq_descriptors := ds, vq_available := av\<rparr> = q\<lparr>vq_descriptors := ds, vq_available := av\<rparr>" for ds
    by (cases q) simp
  have new: "a \<notin> set ?heads" using free_not_head [OF desc] by simp
  then have ins: "mset (bt_insert a ?qc (bd_queued d)) = add_mset (a, ?qc) (mset (bd_queued d))" by (rule mset_bt_insert)
  then have maps: "mset (map f (bt_insert a ?qc (bd_queued d))) = mset (f (a, ?qc) # map f (bd_queued d))" for f
    by (simp del: map_map)
  have "submit d (a, b, c) (ci, ?request) (di, buf_phys (bd_data d) + BLOCK_SIZE * di) cmd flags kind = Some (Recv (bd_channel_id d), ?d)"
    using link(6-8) av(1) len
    by (simp add: submit_def Let_def descriptor_write_def oneshot_def descriptor_default_def flip: q_def)
  moreover have "block_inv taken flight owned ?d"
  proof -
    have "rings_ok taken flight (bd_queue ?d) (map fst (bd_queued ?d))"
      using av(2) maps [of fst] by (simp add: q rings_ok_def)
    moreover have "descriptors_ok (bd_queue ?d) (map fst (bd_queued ?d))"
      using link(1) [of av] maps [of fst] descriptors_perm [of "map fst (bd_queued ?d)" "a # ?heads" "bd_queue ?d" "bd_queue ?d"]
      by (simp add: q)
    moreover have "slots_ok (bd_commands ?d) (map (qc_command \<circ> snd) (bd_queued ?d))"
      using cmds len(2) slots_perm [OF maps [of "qc_command \<circ> snd"], of "bd_commands d"] by simp
    moreover have "slots_ok (bd_data ?d) (map (qc_data \<circ> snd) (bd_queued ?d) @ concat (map waiting_block (bd_waiting ?d)) @ owned)"
      using data slots_perm [of "map (qc_data \<circ> snd) (bd_queued ?d) @ concat (map waiting_block (bd_waiting ?d)) @ owned"
        "di # map (qc_data \<circ> snd) (bd_queued d) @ concat (map waiting_block (bd_waiting d)) @ owned" "bd_data d"]
        maps [of "qc_data \<circ> snd"] by simp
    moreover have "\<forall>r \<in> set (bd_queued ?d). request_ok ?d r"
    proof
      fix r
      assume "r \<in> set (bd_queued ?d)"
      then consider "r = (a, ?qc)" | "r \<in> set (bd_queued d)" using arg_cong [OF ins, of set_mset] by auto
      then show "request_ok ?d r"
      proof cases
        case 1
        then show ?thesis using link(3-5) flags [of "bd_channel_id d"] by (simp add: request_ok_def Let_def)
      next
        case 2
        then have "request_ok ?d r = request_ok d r"
          using link(2) [of "fst r"] by (intro request_ok_cong) (auto simp: q_def)
        then show ?thesis using reqs 2 by blast
      qed
    qed
    moreover have "\<forall>c \<in> set (buf_items (bd_commands ?d)). status_ok c"
      using stat set_update_subset_insert [of "buf_items (bd_commands d)" "unat ci" cmd] by auto
    ultimately show ?thesis using bt_ok_insert [OF bt, of a ?qc] by (simp add: block_inv_def)
  qed
  ultimately show ?thesis by (intro exI [of _ "bd_channel_id d"] exI [of _ ?d]) simp
qed

lemma inv_owned_perm: "mset owned = mset owned' \<Longrightarrow> block_inv taken flight owned d = block_inv taken flight owned' d"
  using slots_perm [of "map (qc_data \<circ> snd) (bd_queued d) @ concat (map waiting_block (bd_waiting d)) @ owned"
      "map (qc_data \<circ> snd) (bd_queued d) @ concat (map waiting_block (bd_waiting d)) @ owned'" "bd_data d"]
  by (simp add: block_inv_def)

lemma inv_flight_perm: "mset flight = mset flight' \<Longrightarrow> block_inv taken flight owned d = block_inv taken flight' owned d"
  by (simp add: block_inv_def rings_ok_def)

lemma inv_freelist:
  assumes "block_inv taken flight owned d" "mset free = mset (vq_freelist (bd_queue d))"
  shows "block_inv taken flight owned (d\<lparr>bd_queue := (bd_queue d)\<lparr>vq_freelist := free\<rparr>\<rparr>)"
proof -
  have "descriptors_ok ((bd_queue d)\<lparr>vq_freelist := free\<rparr>) (map fst (bd_queued d))"
    using assms descriptors_perm [of "map fst (bd_queued d)" "map fst (bd_queued d)" "(bd_queue d)\<lparr>vq_freelist := free\<rparr>" "bd_queue d"]
    by (simp add: block_inv_def)
  then show ?thesis using assms by (simp add: block_inv_def rings_ok_def request_ok_def)
qed

lemma inv_buffers:
  assumes "block_inv taken flight owned d" "slots_ok commands (map (qc_command \<circ> snd) (bd_queued d))"
    and "buf_items commands = buf_items (bd_commands d)" "buf_phys commands = buf_phys (bd_commands d)"
  shows "block_inv taken flight owned (d\<lparr>bd_commands := commands\<rparr>)"
  using assms by (simp add: block_inv_def request_ok_def)

lemma wait_for_ok:
  assumes "block_inv taken flight (waiting_block (request (bd_channel_id d)) @ owned) d"
  shows "\<exists>tx d'. wait_for d request = (Recv tx, d') \<and> block_inv taken flight owned d' \<and> bd_sent d' = bd_sent d"
  using assms by (simp add: wait_for_def oneshot_def block_inv_def request_ok_def)

lemma free_chain_eq: "free_chain q a b c = q\<lparr>vq_freelist := vq_freelist q @ [a, b, c]\<rparr>"
  by (simp add: free_chain_def free_descriptor_def)

lemma queue_eta: "q\<lparr>vq_freelist := vq_freelist q\<rparr> = q"
  by (cases q) simp

lemma inv_returned:
  assumes "block_inv taken flight owned d" "vq_freelist (bd_queue d) = free @ [c, b, a]"
  shows "block_inv taken flight owned (d\<lparr>bd_queue := free_chain ((bd_queue d)\<lparr>vq_freelist := free\<rparr>) a b c\<rparr>)"
  using inv_freelist [OF assms(1), of "free @ [a, b, c]"] assms(2) by (simp add: free_chain_eq)

lemma submit_from:
  assumes inv: "block_inv taken flight owned d" and free: "vq_freelist (bd_queue d) = free @ [c, b, a]"
    and cmds: "slots_ok commands (ci # map (qc_command \<circ> snd) (bd_queued d))"
      "buf_items commands = buf_items (bd_commands d)" "buf_phys commands = buf_phys (bd_commands d)"
    and data: "slots_ok blocks (di # map (qc_data \<circ> snd) (bd_queued d) @ concat (map waiting_block (bd_waiting d)) @ owned')"
      "buf_phys blocks = buf_phys (bd_data d)"
    and "status_ok cmd" "\<And>tx. flags = (case kind tx of QueuedRead _ \<Rightarrow> desc_flags_or DESC_NEXT DESC_WRITE | _ \<Rightarrow> DESC_NEXT)"
  shows "\<exists>f d'. submit (d\<lparr>bd_queue := (bd_queue d)\<lparr>vq_freelist := free\<rparr>, bd_commands := commands, bd_data := blocks\<rparr>) (a, b, c)
      (ci, buf_phys (bd_commands d) + COMMAND_SIZE * ci) (di, buf_phys (bd_data d) + BLOCK_SIZE * di) cmd flags kind = Some (Recv f, d') \<and>
    block_inv taken flight owned' d' \<and> bd_sent d' = bd_sent d"
proof -
  let ?d = "d\<lparr>bd_queue := (bd_queue d)\<lparr>vq_freelist := free\<rparr>, bd_commands := commands, bd_data := blocks\<rparr>"
  have "descriptors_ok (bd_queue d) (map fst (bd_queued d))" using inv by (simp add: block_inv_def)
  then have "descriptors_ok ((bd_queue ?d)\<lparr>vq_freelist := vq_freelist (bd_queue ?d) @ [c, b, a]\<rparr>) (map fst (bd_queued ?d))"
    using free by (simp add: queue_eta flip: free)
  moreover have "\<forall>r \<in> set (bd_queued ?d). request_ok ?d r" "rings_ok taken flight (bd_queue ?d) (map fst (bd_queued ?d))"
    using inv cmds(3) data(2) by (simp_all add: block_inv_def rings_ok_def request_ok_def)
  ultimately have "\<exists>f d'. submit ?d (a, b, c) (ci, buf_phys (bd_commands ?d) + COMMAND_SIZE * ci)
      (di, buf_phys (bd_data ?d) + BLOCK_SIZE * di) cmd flags kind = Some (Recv f, d') \<and>
    block_inv taken flight owned' d' \<and> bd_sent d' = bd_sent ?d \<and>
    buf_phys (bd_commands d') = buf_phys (bd_commands ?d) \<and> buf_phys (bd_data d') = buf_phys (bd_data ?d)"
    using inv cmds data assms(8,9) by (intro submit_ok) (simp_all add: block_inv_def)
  then show ?thesis using cmds(3) data(2) by auto
qed

lemma status_ok_new: "status_ok \<lparr> cmd_kind = k, cmd_reserved = r, cmd_sector = s, cmd_status = 0 \<rparr>"
  by (simp add: status_ok_def command_status_from_u8_def)

lemma block_read_ok:
  assumes inv: "block_inv taken flight owned d"
  shows "\<exists>f d'. block_read d sector = Some (f, d') \<and> block_inv taken flight owned d' \<and> bd_sent d' = bd_sent d"
  using get_descriptor_chain_cases [of "bd_queue d"]
proof (elim disjE exE conjE)
  fix free
  assume "get_descriptor_chain (bd_queue d) = (None, (bd_queue d)\<lparr>vq_freelist := free\<rparr>)" "mset free = mset (vq_freelist (bd_queue d))"
  then show ?thesis
    using inv_freelist [OF inv] wait_for_ok [of taken flight "WaitRead sector" "d\<lparr>bd_queue := (bd_queue d)\<lparr>vq_freelist := free\<rparr>\<rparr>" owned]
    by (auto simp: block_read_def)
next
  fix a b c free
  assume desc_chain: "get_descriptor_chain (bd_queue d) = (Some (a, b, c), (bd_queue d)\<lparr>vq_freelist := free\<rparr>)"
    and free: "vq_freelist (bd_queue d) = free @ [c, b, a]"
  note returned = inv_returned [OF inv free]
  have cs: "slots_ok (bd_commands d) (map (qc_command \<circ> snd) (bd_queued d))"
    and bs: "slots_ok (bd_data d) (map (qc_data \<circ> snd) (bd_queued d) @ concat (map waiting_block (bd_waiting d)) @ owned)"
    using inv by (simp_all add: block_inv_def)
  from buffer_alloc_cases [OF cs, of COMMAND_SIZE] show ?thesis
  proof (elim disjE exE conjE)
    assume "buffer_alloc COMMAND_SIZE (bd_commands d) = Some (None, bd_commands d)"
    then show ?thesis using desc_chain returned
      wait_for_ok [of taken flight "WaitRead sector" "d\<lparr>bd_queue := free_chain ((bd_queue d)\<lparr>vq_freelist := free\<rparr>) a b c\<rparr>" owned]
      by (auto simp: block_read_def)
  next
    fix ci commands
    assume ci: "buffer_alloc COMMAND_SIZE (bd_commands d) = Some (Some (ci, buf_phys (bd_commands d) + COMMAND_SIZE * ci), commands)"
      "slots_ok commands (ci # map (qc_command \<circ> snd) (bd_queued d))" "buf_items commands = buf_items (bd_commands d)"
      "buf_phys commands = buf_phys (bd_commands d)"
    from buffer_alloc_cases [OF bs, of BLOCK_SIZE] show ?thesis
    proof (elim disjE exE conjE)
      assume none: "buffer_alloc BLOCK_SIZE (bd_data d) = Some (None, bd_data d)"
      obtain commands' where c': "buffer_dealloc commands ci = Some commands'"
          "slots_ok commands' (map (qc_command \<circ> snd) (bd_queued d))" "buf_items commands' = buf_items (bd_commands d)"
          "buf_phys commands' = buf_phys (bd_commands d)"
        using buffer_dealloc_ok [of commands "[]" ci] ci by auto
      let ?d = "d\<lparr>bd_queue := free_chain ((bd_queue d)\<lparr>vq_freelist := free\<rparr>) a b c, bd_commands := commands'\<rparr>"
      have "block_inv taken flight owned ?d" using inv_buffers [OF returned] c'(2-4) by simp
      then show ?thesis using desc_chain ci none c'(1) wait_for_ok [of taken flight "WaitRead sector" ?d owned]
        by (auto simp: block_read_def)
    next
      fix di blocks
      assume di: "buffer_alloc BLOCK_SIZE (bd_data d) = Some (Some (di, buf_phys (bd_data d) + BLOCK_SIZE * di), blocks)"
        "slots_ok blocks (di # map (qc_data \<circ> snd) (bd_queued d) @ concat (map waiting_block (bd_waiting d)) @ owned)"
        "buf_phys blocks = buf_phys (bd_data d)"
      then show ?thesis
        using desc_chain ci(1) submit_from [OF inv free ci(2-4) di(2,3) status_ok_new, of "desc_flags_or DESC_NEXT DESC_WRITE" QueuedRead CmdRead 0 sector]
        by (auto simp: block_read_def)
    qed
  qed
qed

lemma block_write_ok:
  assumes inv: "block_inv taken flight (block # owned) d"
  shows "\<exists>f d'. block_write d sector block = Some (f, d') \<and> block_inv taken flight owned d' \<and> bd_sent d' = bd_sent d"
  using get_descriptor_chain_cases [of "bd_queue d"]
proof (elim disjE exE conjE)
  fix free
  assume "get_descriptor_chain (bd_queue d) = (None, (bd_queue d)\<lparr>vq_freelist := free\<rparr>)" "mset free = mset (vq_freelist (bd_queue d))"
  then show ?thesis
    using inv_freelist [OF inv] wait_for_ok [of taken flight "WaitWrite sector block" "d\<lparr>bd_queue := (bd_queue d)\<lparr>vq_freelist := free\<rparr>\<rparr>" owned]
    by (auto simp: block_write_def)
next
  fix a b c free
  assume desc_chain: "get_descriptor_chain (bd_queue d) = (Some (a, b, c), (bd_queue d)\<lparr>vq_freelist := free\<rparr>)"
    and free: "vq_freelist (bd_queue d) = free @ [c, b, a]"
  have cs: "slots_ok (bd_commands d) (map (qc_command \<circ> snd) (bd_queued d))"
    and bs: "slots_ok (bd_data d) (map (qc_data \<circ> snd) (bd_queued d) @ concat (map waiting_block (bd_waiting d)) @ block # owned)"
    using inv by (simp_all add: block_inv_def)
  have get: "buffer_get BLOCK_SIZE (bd_data d) block = Some (buf_phys (bd_data d) + BLOCK_SIZE * block)"
    using slots_get [OF bs] by simp
  from buffer_alloc_cases [OF cs, of COMMAND_SIZE] show ?thesis
  proof (elim disjE exE conjE)
    assume "buffer_alloc COMMAND_SIZE (bd_commands d) = Some (None, bd_commands d)"
    then show ?thesis using desc_chain get inv_returned [OF inv free]
      wait_for_ok [of taken flight "WaitWrite sector block" "d\<lparr>bd_queue := free_chain ((bd_queue d)\<lparr>vq_freelist := free\<rparr>) a b c\<rparr>" owned]
      by (auto simp: block_write_def)
  next
    fix ci commands
    assume ci: "buffer_alloc COMMAND_SIZE (bd_commands d) = Some (Some (ci, buf_phys (bd_commands d) + COMMAND_SIZE * ci), commands)"
      "slots_ok commands (ci # map (qc_command \<circ> snd) (bd_queued d))" "buf_items commands = buf_items (bd_commands d)"
      "buf_phys commands = buf_phys (bd_commands d)"
    have "slots_ok (bd_data d) (block # map (qc_data \<circ> snd) (bd_queued d) @ concat (map waiting_block (bd_waiting d)) @ owned)"
      using bs by (rule slots_perm [THEN iffD1, rotated]) simp
    then show ?thesis
      using desc_chain ci(1) get submit_from [OF inv free ci(2-4) _ refl status_ok_new, of block owned DESC_NEXT QueuedWrite CmdWrite 0 sector]
      by (auto simp: block_write_def)
  qed
qed

lemma alloc_data_block_ok:
  assumes inv: "block_inv taken flight owned d"
  shows "\<exists>f d'. alloc_data_block d = Some (f, d') \<and> bd_sent d' = bd_sent d \<and>
    block_inv taken flight (case f of Ready i \<Rightarrow> i # owned | Recv _ \<Rightarrow> owned) d'"
proof -
  have bs: "slots_ok (bd_data d) (map (qc_data \<circ> snd) (bd_queued d) @ concat (map waiting_block (bd_waiting d)) @ owned)"
    using inv by (simp add: block_inv_def)
  from buffer_alloc_cases [OF this, of BLOCK_SIZE] show ?thesis
  proof (elim disjE exE conjE)
    assume "buffer_alloc BLOCK_SIZE (bd_data d) = Some (None, bd_data d)"
    moreover obtain tx d' where "wait_for d WaitDataBlock = (Recv tx :: usize Future, d')" "block_inv taken flight owned d'"
        "bd_sent d' = bd_sent d"
      using inv wait_for_ok [of taken flight WaitDataBlock d owned] by auto
    ultimately show ?thesis by (intro exI [of _ "Recv tx"] exI [of _ d']) (simp add: alloc_data_block_def)
  next
    fix i blocks
    assume i: "buffer_alloc BLOCK_SIZE (bd_data d) = Some (Some (i, buf_phys (bd_data d) + BLOCK_SIZE * i), blocks)"
      "slots_ok blocks (i # map (qc_data \<circ> snd) (bd_queued d) @ concat (map waiting_block (bd_waiting d)) @ owned)"
      "buf_phys blocks = buf_phys (bd_data d)"
    have "slots_ok blocks (map (qc_data \<circ> snd) (bd_queued d) @ concat (map waiting_block (bd_waiting d)) @ i # owned)"
      using i(2) by (rule slots_perm [THEN iffD1, rotated]) simp
    then have "block_inv taken flight (i # owned) (d\<lparr>bd_data := blocks\<rparr>)"
      using inv i(3) by (simp add: block_inv_def request_ok_def)
    then show ?thesis using i(1) by (simp add: alloc_data_block_def)
  qed
qed

lemma reclaim_ok:
  assumes inv: "block_inv taken flight (xs @ i # ys) d"
  shows "\<exists>b. buffer_dealloc (bd_data d) i = Some b \<and> block_inv taken flight (xs @ ys) (d\<lparr>bd_data := b\<rparr>)"
proof -
  have "slots_ok (bd_data d) ((map (qc_data \<circ> snd) (bd_queued d) @ concat (map waiting_block (bd_waiting d)) @ xs) @ i # ys)"
    using inv by (simp add: block_inv_def)
  from buffer_dealloc_ok [OF this] show ?thesis using inv by (auto simp: block_inv_def request_ok_def)
qed

section \<open>Completions\<close>

fun sent_block :: "u64 \<times> Reply \<Rightarrow> usize list" where
  "sent_block (_, ReadReply (Inr block)) = [block]"
| "sent_block (_, BlockReply block) = [block]"
| "sent_block _ = []"

definition sent_since :: "VirtIoBlockDeviceInner \<Rightarrow> VirtIoBlockDeviceInner \<Rightarrow> usize list" where
  "sent_since d d' = concat (map sent_block (drop (length (bd_sent d)) (bd_sent d')))"

text \<open>Taking a queued command out: its slots are in hand, its descriptors are free again.\<close>

lemma remove_queued:
  assumes inv: "block_inv taken (h # flight) owned d" and qc: "bt_get (bd_queued d) h = Some qc"
  defines "ds \<equiv> vq_descriptors (bd_queue d)" and "m \<equiv> bt_remove h (bd_queued d)"
  shows "bt_ok m" "rings_ok taken flight (bd_queue d) (map fst m)"
    and "descriptors_ok (free_chain (bd_queue d) h (vd_next (ds ! unat h)) (vd_next (ds ! unat (vd_next (ds ! unat h))))) (map fst m)"
    and "slots_ok (bd_commands d) (qc_command qc # map (qc_command \<circ> snd) m)"
    and "slots_ok (bd_data d) (qc_data qc # map (qc_data \<circ> snd) m @ concat (map waiting_block (bd_waiting d)) @ owned)"
    and "\<forall>r \<in> set m. request_ok d r" and "unat h < 64" "unat (vd_next (ds ! unat h)) < 64" "length ds = 64"
proof -
  let ?m = "bd_queued d" and ?desc_chain = "desc_chain ds h"
  have rem: "mset ?m = add_mset (h, qc) (mset m)"
    using mset_bt_remove [of ?m h qc] qc by (simp add: bt_get_def m_def)
  then have maps: "mset (map f ?m) = mset (f (h, qc) # map f m)" for f by (simp del: map_map)
  show "bt_ok m" "\<forall>r \<in> set m. request_ok d r"
    using inv bt_ok_remove [of ?m h] arg_cong [OF rem, of set_mset] by (auto simp: block_inv_def m_def)
  show "rings_ok taken flight (bd_queue d) (map fst m)"
    using inv maps [of fst] by (simp add: block_inv_def rings_ok_def)
  show "slots_ok (bd_commands d) (qc_command qc # map (qc_command \<circ> snd) m)"
    using inv slots_perm [OF maps [of "qc_command \<circ> snd"], of "bd_commands d"] by (simp add: block_inv_def)
  show "slots_ok (bd_data d) (qc_data qc # map (qc_data \<circ> snd) m @ concat (map waiting_block (bd_waiting d)) @ owned)"
    using inv maps [of "qc_data \<circ> snd"]
      slots_perm [of "map (qc_data \<circ> snd) ?m @ concat (map waiting_block (bd_waiting d)) @ owned"
        "qc_data qc # map (qc_data \<circ> snd) m @ concat (map waiting_block (bd_waiting d)) @ owned" "bd_data d"]
    by (simp add: block_inv_def)
  have ok: "descriptors_ok (bd_queue d) (h # map fst m)"
    using inv descriptors_perm [OF maps [of fst] refl refl, of "bd_queue d"] by (simp add: block_inv_def)
  then show "unat h < 64" "unat (vd_next (ds ! unat h)) < 64" "length ds = 64"
    using desc_chain_parts [where h = h and ds = ds] by (auto simp: descriptors_ok_def ds_def)
  show "descriptors_ok (free_chain (bd_queue d) h (vd_next (ds ! unat h)) (vd_next (ds ! unat (vd_next (ds ! unat h))))) (map fst m)"
    using ok unfolding descriptors_ok_def free_chain_eq by (auto simp: ds_def desc_chain_def Let_def)
qed

lemma data_eta: "d\<lparr>bd_sent := rs, bd_data := bd_data d\<rparr> = d\<lparr>bd_sent := rs\<rparr>" "d\<lparr>bd_sent := bd_sent d\<rparr> = d"
  by (cases d, simp)+

lemma finish_command_ok:
  assumes data: "slots_ok (bd_data d) (qc_data qc # blocks)"
  obtains d' where "finish_command d qc st = Some d'"
    and "\<exists>rs b. d' = d\<lparr>bd_sent := bd_sent d @ rs, bd_data := b\<rparr> \<and> slots_ok b (blocks @ concat (map sent_block rs)) \<and>
      buf_phys b = buf_phys (bd_data d) \<and> buf_items b = buf_items (bd_data d)"
proof (cases "qc_kind qc")
  case (QueuedRead tx)
  show thesis
  proof (cases "isl st")
    case True
    then show thesis using QueuedRead slots_leak [of "bd_data d" "[]"] data
      by (intro that [OF _ exI [of _ "[(tx, ReadReply (Inl ReadError))]", OF exI [of _ "bd_data d"]]])
        (auto simp: finish_command_def oneshot_send_def data_eta)
  next
    case False
    have "slots_ok (bd_data d) (blocks @ [qc_data qc])" using data by (rule slots_perm [THEN iffD1, rotated]) simp
    then show thesis using QueuedRead False
      by (intro that [OF _ exI [of _ "[(tx, ReadReply (Inr (qc_data qc)))]", OF exI [of _ "bd_data d"]]])
        (auto simp: finish_command_def oneshot_send_def data_eta)
  qed
next
  case (QueuedWrite tx)
  obtain b where "buffer_dealloc (bd_data d) (qc_data qc) = Some b" "slots_ok b blocks" "buf_items b = buf_items (bd_data d)"
      "buf_phys b = buf_phys (bd_data d)"
    using buffer_dealloc_ok [of "bd_data d" "[]"] data by auto
  then show thesis using QueuedWrite
    by (intro that [OF _ exI [of _ "[(tx, WriteReply (if isl st then Inl ReadError else Inr ()))]"]])
      (auto simp: finish_command_def oneshot_send_def Let_def)
next
  case QueuedFlush
  then show thesis using slots_leak [of "bd_data d" "[]"] data
    by (intro that [OF _ exI [of _ "[]", OF exI [of _ "bd_data d"]]]) (auto simp: finish_command_def data_eta)
qed

lemma head_queued:
  assumes "block_inv taken (h # flight) owned d"
  obtains qc where "bt_get (bd_queued d) h = Some qc"
proof -
  have "mset (avail_contents (vq_available (bd_queue d), taken) @ (h # flight) @ used_heads (vq_used (bd_queue d))) =
      mset (map fst (bd_queued d))"
    using assms unfolding block_inv_def rings_ok_def by blast
  from mset_eq_setD [OF this] have "h \<in> fst ` set (bd_queued d)" by auto
  then have "map_of (bd_queued d) h \<noteq> None" by (simp add: map_of_eq_None_iff)
  then show thesis using that by (auto simp: bt_get_def)
qed

lemma complete_used_ok:
  assumes inv: "block_inv taken (ucast (ue_start_index used) # flight) owned d"
  shows "\<exists>d'. complete_used d used = Some (True, d') \<and> block_inv taken flight (owned @ sent_since d d') d' \<and>
    (\<exists>rs. bd_sent d' = bd_sent d @ rs)"
proof -
  let ?h = "ucast (ue_start_index used) :: u16" and ?ds = "vq_descriptors (bd_queue d)"
  let ?second = "vd_next (?ds ! unat ?h)"
  let ?third = "vd_next (?ds ! unat ?second)"
  obtain qc where qc: "bt_get (bd_queued d) ?h = Some qc" using head_queued [OF inv] .
  let ?m = "bt_remove ?h (bd_queued d)"
  note rq = remove_queued [OF inv qc]
  have ci: "buffer_get COMMAND_SIZE (bd_commands d) (qc_command qc) = Some (buf_phys (bd_commands d) + COMMAND_SIZE * qc_command qc)"
    and di: "buffer_get BLOCK_SIZE (bd_data d) (qc_data qc) = Some (buf_phys (bd_data d) + BLOCK_SIZE * qc_data qc)"
    using slots_get [OF rq(4)] slots_get [OF rq(5)] by simp_all
  then have "buf_items (bd_commands d) ! unat (qc_command qc) \<in> set (buf_items (bd_commands d))"
    by (simp add: buffer_get_def split: if_splits)
  then have "status_ok (buf_items (bd_commands d) ! unat (qc_command qc))" using inv by (auto simp: block_inv_def)
  then obtain st where st: "command_status_from_u8 (cmd_status (buf_items (bd_commands d) ! unat (qc_command qc))) = Some st"
    by (auto simp: status_ok_def)
  let ?d1 = "d\<lparr>bd_mmio := bd_mmio d @ [MInterruptAck 1], bd_queued := ?m\<rparr>"
  let ?blocks = "map (qc_data \<circ> snd) ?m @ concat (map waiting_block (bd_waiting d)) @ owned"
  have "slots_ok (bd_data ?d1) (qc_data qc # ?blocks)" using rq(5) by simp
  then obtain d2 where fin: "finish_command ?d1 qc (command_into_result st) = Some d2"
    and "\<exists>rs b. d2 = ?d1\<lparr>bd_sent := bd_sent ?d1 @ rs, bd_data := b\<rparr> \<and> slots_ok b (?blocks @ concat (map sent_block rs)) \<and>
      buf_phys b = buf_phys (bd_data ?d1) \<and> buf_items b = buf_items (bd_data ?d1)"
    by (rule finish_command_ok)
  then obtain rs b where d2: "d2 = ?d1\<lparr>bd_sent := bd_sent d @ rs, bd_data := b\<rparr>"
    and b: "slots_ok b (?blocks @ concat (map sent_block rs))" "buf_phys b = buf_phys (bd_data d)" by auto
  obtain commands where c: "buffer_dealloc (bd_commands d) (qc_command qc) = Some commands"
      "slots_ok commands (map (qc_command \<circ> snd) ?m)" "buf_items commands = buf_items (bd_commands d)"
      "buf_phys commands = buf_phys (bd_commands d)"
    using buffer_dealloc_ok [of "bd_commands d" "[]" "qc_command qc"] rq(4) by auto
  let ?d3 = "d2\<lparr>bd_queue := free_chain (bd_queue d) ?h ?second ?third, bd_commands := commands\<rparr>"
  have "complete_used d used = Some (True, ?d3)"
    using qc ci di st fin c(1) rq(7-9) by (simp add: complete_used_def descriptor_read_def Let_def d2)
  moreover have "block_inv taken flight (owned @ concat (map sent_block rs)) ?d3"
    using rq(1-3,6) b c(2-4) inv by (simp add: block_inv_def d2 request_ok_def free_chain_eq rings_ok_def)
  moreover have "sent_since d ?d3 = concat (map sent_block rs)" by (simp add: sent_since_def d2)
  ultimately show ?thesis by (intro exI [of _ ?d3]) (simp add: d2)
qed

lemma pop_to_flight:
  assumes inv: "block_inv taken flight owned d"
  shows "\<exists>u. used_pop (vq_used (bd_queue d)) = Some (case used_contents (vq_used (bd_queue d)) of [] \<Rightarrow> None | e # _ \<Rightarrow> Some e, u) \<and>
    block_inv taken ((case used_contents (vq_used (bd_queue d)) of [] \<Rightarrow> [] | e # _ \<Rightarrow> [ucast (ue_start_index e)]) @ flight) owned
      (d\<lparr>bd_queue := (bd_queue d)\<lparr>vq_used := u\<rparr>\<rparr>)"
proof -
  have ok: "ring_ok (us_ring (vq_used (bd_queue d)))" using inv by (simp add: block_inv_def rings_ok_def)
  from used.get [OF this] obtain u where u: "used_pop (vq_used (bd_queue d)) =
        Some (case used_contents (vq_used (bd_queue d)) of [] \<Rightarrow> None | e # _ \<Rightarrow> Some e, u)"
      "ring_ok (us_ring u)" "length (us_ring u) = length (us_ring (vq_used (bd_queue d)))"
      "used_contents u = tl (used_contents (vq_used (bd_queue d)))"
    by blast
  then show ?thesis using inv
    by (cases "used_contents (vq_used (bd_queue d))")
      (auto simp: block_inv_def rings_ok_def descriptors_ok_def request_ok_def used_heads_def)
qed

lemma handle_interrupt_ok:
  assumes "block_inv taken flight owned d"
  shows "\<exists>d'. handle_interrupt d = Some d' \<and> block_inv taken flight (owned @ sent_since d d') d' \<and>
    (\<exists>rs. bd_sent d' = bd_sent d @ rs)"
  using assms
proof (induction d arbitrary: owned rule: handle_interrupt.induct)
  case (1 d)
  let ?c = "used_contents (vq_used (bd_queue d))"
  obtain u where u: "used_pop (vq_used (bd_queue d)) = Some (case ?c of [] \<Rightarrow> None | e # _ \<Rightarrow> Some e, u)"
    and inv: "block_inv taken ((case ?c of [] \<Rightarrow> [] | e # _ \<Rightarrow> [ucast (ue_start_index e)]) @ flight) owned
      (d\<lparr>bd_queue := (bd_queue d)\<lparr>vq_used := u\<rparr>\<rparr>)"
    using pop_to_flight [OF "1.prems"] by blast
  let ?d = "d\<lparr>bd_queue := (bd_queue d)\<lparr>vq_used := u\<rparr>\<rparr>"
  show ?case
  proof (cases ?c)
    case Nil
    then show ?thesis using u inv by (simp add: handle_interrupt.simps [of d] sent_since_def)
  next
    case (Cons e es)
    then obtain d1 rs where d1: "complete_used ?d e = Some (True, d1)" "block_inv taken flight (owned @ sent_since ?d d1) d1"
        "bd_sent d1 = bd_sent d @ rs"
      using complete_used_ok [of taken e flight owned ?d] inv by auto
    moreover have "used_pop (vq_used (bd_queue d)) = Some (Some e, u)" using u Cons by simp
    ultimately obtain d2 rs' where d2: "handle_interrupt d1 = Some d2"
        "block_inv taken flight ((owned @ sent_since ?d d1) @ sent_since d1 d2) d2" "bd_sent d2 = bd_sent d1 @ rs'"
      using "1.IH" [of "(Some e, u)" "Some e" u e "(True, d1)" True d1 "owned @ sent_since ?d d1"] by auto
    have "sent_since ?d d1 @ sent_since d1 d2 = sent_since d d2" using d1(3) d2(3) by (simp add: sent_since_def)
    then show ?thesis using u Cons d1 d2 by (auto simp: handle_interrupt.simps [of d])
  qed
qed

section \<open>The driver, its clients and the device\<close>

text \<open>
  The device follows the addresses in the descriptors: it reads the header of the command, copies a sector from or to
  the data block if it succeeds, and writes the status byte.
\<close>

definition slot_at :: "usize \<Rightarrow> 'a Buffer \<Rightarrow> usize \<Rightarrow> nat" where
  "slot_at elem_size b addr = unat ((addr - buf_phys b) div elem_size)"

definition device_execute ::
  "(u64 \<Rightarrow> u8 list) \<Rightarrow> VirtIoBlockDeviceInner \<Rightarrow> u16 \<Rightarrow> u8 \<Rightarrow> (u64 \<Rightarrow> u8 list) \<times> VirtIoBlockDeviceInner" where
  "device_execute disk d h status =
     (let ds = vq_descriptors (bd_queue d); first = ds ! unat h; second = ds ! unat (vd_next first);
          third = ds ! unat (vd_next second); commands = buf_items (bd_commands d); blocks = buf_items (bd_data d);
          command = commands ! slot_at COMMAND_SIZE (bd_commands d) (vd_address first);
          block = slot_at BLOCK_SIZE (bd_data d) (vd_address second);
          reply = slot_at COMMAND_SIZE (bd_commands d) (vd_address third - 16);
          disk' = (if status = 0 \<and> cmd_kind command = CmdWrite then disk(cmd_sector command := blocks ! block) else disk);
          blocks' = (if status = 0 \<and> cmd_kind command = CmdRead then blocks[block := disk (cmd_sector command)] else blocks) in
      (disk', d\<lparr>bd_commands := (bd_commands d)\<lparr>buf_items := commands[reply := (commands ! reply)\<lparr>cmd_status := status\<rparr>]\<rparr>,
         bd_data := (bd_data d)\<lparr>buf_items := blocks'\<rparr>\<rparr>))"

text \<open>
  Blocks outside the driver are owned by clients, or dropped and on their way back through the channel that
  \<open>data_drop\<close> sends on.
\<close>

record BlockWorld =
  bw_driver :: VirtIoBlockDeviceInner
  bw_disk :: "u64 \<Rightarrow> u8 list"
  bw_taken :: u16
  bw_flight :: "u16 list"
  bw_owned :: "usize list"
  bw_dropped :: "usize list"

datatype BlockEvent =
    EvRead u64 | EvWrite u64 usize | EvAlloc | EvDrop usize | EvReclaim
  | EvTake | EvDone u16 u8 u32 | EvInterrupt

text \<open>
  Which events can happen: clients write and drop only blocks they own, and the device completes only requests it has
  taken, with one of the three status codes of the VirtIO specification.
\<close>

fun possible :: "BlockWorld \<Rightarrow> BlockEvent \<Rightarrow> bool" where
  "possible w (EvWrite _ block) = (block \<in> set (bw_owned w))"
| "possible w (EvDrop block) = (block \<in> set (bw_owned w))"
| "possible w EvReclaim = (bw_dropped w \<noteq> [])"
| "possible w EvTake = (device_take (vq_available (bd_queue (bw_driver w))) (bw_taken w) \<noteq> None)"
| "possible w (EvDone h status _) = (h \<in> set (bw_flight w) \<and> status \<le> 2)"
| "possible w _ = True"

fun happen :: "BlockWorld \<Rightarrow> BlockEvent \<Rightarrow> BlockWorld panics" where
  "happen w (EvRead sector) = do { (_, d) \<leftarrow> block_read (bw_driver w) sector; Some (w\<lparr>bw_driver := d\<rparr>) }"
| "happen w (EvWrite sector block) = do {
     (_, d) \<leftarrow> block_write (bw_driver w) sector block;
     Some (w\<lparr>bw_driver := d, bw_owned := remove1 block (bw_owned w)\<rparr>) }"
| "happen w EvAlloc = do {
     (f, d) \<leftarrow> alloc_data_block (bw_driver w);
     Some (w\<lparr>bw_driver := d, bw_owned := (case f of Ready i \<Rightarrow> i # bw_owned w | Recv _ \<Rightarrow> bw_owned w)\<rparr>) }"
| "happen w (EvDrop block) =
     Some (w\<lparr>bw_owned := remove1 block (bw_owned w), bw_dropped := bw_dropped w @ [block]\<rparr>)"
| "happen w EvReclaim = do {
     blocks \<leftarrow> buffer_dealloc (bd_data (bw_driver w)) (hd (bw_dropped w));
     Some (w\<lparr>bw_driver := (bw_driver w)\<lparr>bd_data := blocks\<rparr>, bw_dropped := tl (bw_dropped w)\<rparr>) }"
| "happen w EvTake =
     (case device_take (vq_available (bd_queue (bw_driver w))) (bw_taken w) of
        Some (h, taken) \<Rightarrow> Some (w\<lparr>bw_taken := taken, bw_flight := bw_flight w @ [h]\<rparr>)
      | None \<Rightarrow> Some w)"
| "happen w (EvDone h status len) =
     (let (disk, d) = device_execute (bw_disk w) (bw_driver w) h status;
          used = device_put (vq_used (bd_queue d)) \<lparr> ue_start_index = ucast h, ue_length = len \<rparr> in
      Some (w\<lparr>bw_driver := d\<lparr>bd_queue := (bd_queue d)\<lparr>vq_used := used\<rparr>\<rparr>, bw_disk := disk, bw_flight := remove1 h (bw_flight w)\<rparr>))"
| "happen w EvInterrupt = do {
     d \<leftarrow> handle_interrupt (bw_driver w);
     Some (w\<lparr>bw_driver := d, bw_owned := bw_owned w @ sent_since (bw_driver w) d\<rparr>) }"

fun run_events :: "BlockEvent list \<Rightarrow> BlockWorld \<Rightarrow> BlockWorld panics" where
  "run_events [] w = Some w"
| "run_events (e # es) w = (if possible w e then do { w' \<leftarrow> happen w e; run_events es w' } else run_events es w)"

definition world_inv :: "BlockWorld \<Rightarrow> bool" where
  "world_inv w \<longleftrightarrow> block_inv (bw_taken w) (bw_flight w) (bw_owned w @ bw_dropped w) (bw_driver w)"

lemma status_ok_le: "status_ok c \<longleftrightarrow> cmd_status c \<le> 2"
proof -
  have "(n :: u8) \<le> 2 \<longleftrightarrow> n = 0 \<or> n = 1 \<or> n = 2" for n
  proof
    assume "n \<le> 2"
    then have "unat n \<le> 2" by (simp add: word_le_nat_alt)
    then have "unat n = unat (0 :: u8) \<or> unat n = unat (1 :: u8) \<or> unat n = unat (2 :: u8)" by auto
    then show "n = 0 \<or> n = 1 \<or> n = 2" by (simp only: word_unat_eq_iff)
  qed auto
  then show ?thesis by (simp add: status_ok_def command_status_from_u8_def)
qed

lemma device_execute_ok:
  assumes "block_inv taken flight owned d" "status \<le> 2"
  shows "block_inv taken flight owned (snd (device_execute disk d h status))"
proof -
  have "\<forall>c \<in> set (xs[i := (xs ! i)\<lparr>cmd_status := status\<rparr>]). status_ok c" if "\<forall>c \<in> set xs. status_ok c" for xs i
    using that assms(2) set_update_subset_insert [of xs i "(xs ! i)\<lparr>cmd_status := status\<rparr>"] by (auto simp: status_ok_le)
  then show ?thesis
    using assms by (auto simp: block_inv_def device_execute_def Let_def slots_ok_def request_ok_def)
qed

lemma take_ok:
  assumes inv: "block_inv taken flight owned d" and "device_take (vq_available (bd_queue d)) taken = Some (h, taken')"
  shows "block_inv taken' (flight @ [h]) owned d"
proof -
  have "avail_get (vq_available (bd_queue d), taken) = Some (Some h, vq_available (bd_queue d), taken')"
    using assms(2) by (simp add: avail_get_def)
  moreover have "ring_ok (av_ring (vq_available (bd_queue d)))" using inv by (simp add: block_inv_def rings_ok_def)
  ultimately have "avail_contents (vq_available (bd_queue d), taken) = h # avail_contents (vq_available (bd_queue d), taken')"
    using avail.get [of "(vq_available (bd_queue d), taken)"] by (auto split: list.splits)
  then show ?thesis using inv by (simp add: block_inv_def rings_ok_def)
qed

lemma ucast_head: "(ucast (ucast (h :: u16) :: u32) :: u16) = h"
  by (rule bit_word_eqI) (auto simp: bit_simps)

lemma put_ok:
  assumes inv: "block_inv taken flight owned d" and h: "h \<in> set flight"
  shows "block_inv taken (remove1 h flight) owned
    (d\<lparr>bd_queue := (bd_queue d)\<lparr>vq_used := device_put (vq_used (bd_queue d)) \<lparr> ue_start_index = ucast h, ue_length = len \<rparr>\<rparr>\<rparr>)"
proof -
  let ?u = "device_put (vq_used (bd_queue d)) \<lparr> ue_start_index = ucast h, ue_length = len \<rparr>"
  have "rings_ok taken flight (bd_queue d) (map fst (bd_queued d))" "descriptors_ok (bd_queue d) (map fst (bd_queued d))"
    using inv by (simp_all add: block_inv_def)
  from avail_room(2) [OF this] have "length (used_contents (vq_used (bd_queue d))) < 64" by simp
  then have u: "ring_ok (us_ring ?u)" "length (us_ring ?u) = 64"
      "used_contents ?u = used_contents (vq_used (bd_queue d)) @ [\<lparr> ue_start_index = ucast h, ue_length = len \<rparr>]"
    using inv used.put [of "vq_used (bd_queue d)"] by (simp_all add: block_inv_def rings_ok_def)
  obtain f1 f2 where "flight = f1 @ h # f2" "h \<notin> set f1" using split_list_first [OF h] by blast
  then have "flight = f1 @ h # f2" "remove1 h flight = f1 @ f2" by (simp_all add: remove1_append)
  then show ?thesis using inv u
    by (simp add: block_inv_def rings_ok_def descriptors_ok_def request_ok_def used_heads_def ucast_head)
qed

lemma remove1_mset: "x \<in> set xs \<Longrightarrow> mset xs = add_mset x (mset (remove1 x xs))"
  by simp

lemma happen_ok:
  assumes inv: "world_inv w" and poss: "possible w e"
  shows "\<exists>w'. happen w e = Some w' \<and> world_inv w'"
proof (cases e)
  case (EvRead sector)
  then show ?thesis
    using block_read_ok [of "bw_taken w" "bw_flight w" "bw_owned w @ bw_dropped w" "bw_driver w" sector] inv
    by (auto simp: world_inv_def)
next
  case (EvWrite sector block)
  have "block_inv (bw_taken w) (bw_flight w) (block # remove1 block (bw_owned w) @ bw_dropped w) (bw_driver w)"
    using inv poss EvWrite inv_owned_perm [of "bw_owned w @ bw_dropped w" "block # remove1 block (bw_owned w) @ bw_dropped w"]
    by (simp add: world_inv_def)
  from block_write_ok [OF this, of sector] show ?thesis using EvWrite by (auto simp: world_inv_def)
next
  case EvAlloc
  obtain f d' where "alloc_data_block (bw_driver w) = Some (f, d')"
      "block_inv (bw_taken w) (bw_flight w) (case f of Ready i \<Rightarrow> i # bw_owned w @ bw_dropped w | Recv _ \<Rightarrow> bw_owned w @ bw_dropped w) d'"
    using alloc_data_block_ok inv unfolding world_inv_def by blast
  then show ?thesis using EvAlloc by (cases f) (simp_all add: world_inv_def)
next
  case (EvDrop block)
  then show ?thesis
    using inv poss inv_owned_perm [of "bw_owned w @ bw_dropped w" "remove1 block (bw_owned w) @ bw_dropped w @ [block]"]
    by (simp add: world_inv_def)
next
  case EvReclaim
  then obtain i ds where ds: "bw_dropped w = i # ds" using poss by (cases "bw_dropped w") auto
  then show ?thesis using EvReclaim reclaim_ok [of "bw_taken w" "bw_flight w" "bw_owned w" i ds "bw_driver w"] inv by (auto simp: world_inv_def)
next
  case EvTake
  then show ?thesis using poss take_ok inv by (fastforce simp: world_inv_def)
next
  case (EvDone h status len)
  have "block_inv (bw_taken w) (bw_flight w) (bw_owned w @ bw_dropped w) (snd (device_execute (bw_disk w) (bw_driver w) h status))"
    using device_execute_ok inv poss EvDone by (simp add: world_inv_def)
  from put_ok [OF this] show ?thesis using EvDone poss by (simp add: world_inv_def split_beta Let_def)
next
  case EvInterrupt
  obtain d' where d': "handle_interrupt (bw_driver w) = Some d'"
      "block_inv (bw_taken w) (bw_flight w) ((bw_owned w @ bw_dropped w) @ sent_since (bw_driver w) d') d'"
    using handle_interrupt_ok inv unfolding world_inv_def by blast
  then have "block_inv (bw_taken w) (bw_flight w) (bw_owned w @ sent_since (bw_driver w) d' @ bw_dropped w) d'"
    by (elim inv_owned_perm [THEN iffD1, rotated]) simp
  then show ?thesis using EvInterrupt d'(1) by (simp add: world_inv_def)
qed

lemma run_events_ok: "world_inv w \<Longrightarrow> \<exists>w'. run_events es w = Some w' \<and> world_inv w'"
proof (induction es arbitrary: w)
  case (Cons e es)
  show ?case
  proof (cases "possible w e")
    case True
    then obtain w1 where "happen w e = Some w1" "world_inv w1" using happen_ok Cons.prems by blast
    then show ?thesis using True Cons.IH by simp
  next
    case False
    then show ?thesis using Cons by simp
  qed
qed simp

definition block_start :: "(u64 \<Rightarrow> u8 list) \<Rightarrow> VirtIoBlockDeviceInner \<Rightarrow> BlockWorld" where
  "block_start disk d = \<lparr> bw_driver = d, bw_disk = disk, bw_taken = 0, bw_flight = [], bw_owned = [], bw_dropped = [] \<rparr>"

lemma distinct_map_inverse: "distinct xs \<Longrightarrow> (\<And>i. i \<in> set xs \<Longrightarrow> h (g i) = i) \<Longrightarrow> distinct (map g xs)"
  by (auto simp: distinct_map intro: inj_on_inverseI [of _ h])

lemma unat_index: "i < 65536 \<Longrightarrow> unat (of_nat i :: u16) = i" "i < 65536 \<Longrightarrow> unat (ucast (of_nat i :: u16) :: usize) = i"
  by (simp_all add: unat_of_nat unsigned_ucast_eq unsigned_take_bit_eq take_bit_nat_eq_self)

lemma ring_ok_64: "ring_ok (replicate 64 x)"
  unfolding ring_ok_def by (rule exI [of _ 6]) simp

lemma splitqueue_64: "splitqueue_new 64 = Inr \<lparr> vq_size = 64, vq_freelist = map of_nat [0..<64],
    vq_descriptors = replicate 64 descriptor_default,
    vq_available = \<lparr> av_flags = 0, av_index = 0, av_ring = replicate 64 0 \<rparr>,
    vq_used = \<lparr> us_flags = 0, us_index = 0, us_ring = replicate 64 \<lparr> ue_start_index = 0, ue_length = 0 \<rparr>, us_last_seen = 0 \<rparr> \<rparr>"
proof -
  have "is_power_of_two 64" unfolding is_power_of_two_iff by (rule exI [of _ 6]) simp
  then show ?thesis by (simp add: splitqueue_new_def)
qed

lemma slots_new: "slots_ok (buffer_new phys zero 512) []"
proof -
  have "distinct (map (ucast \<circ> (of_nat :: nat \<Rightarrow> u16)) [0..<512] :: usize list)"
    by (rule distinct_map_inverse [of _ unat]) (simp_all add: unat_index)
  then show ?thesis by (auto simp: slots_ok_def buffer_new_def word_less_nat_alt unat_index)
qed

lemma block_start_inv:
  assumes "block_device_new status pd pa pu pc pb = Some (Inr d)"
  shows "world_inv (block_start disk d)" "buf_phys (bd_commands d) = pc" "buf_phys (bd_data d) = pb"
proof -
  let ?zero = "\<lparr> cmd_kind = CmdRead, cmd_reserved = 0, cmd_sector = 0, cmd_status = 0 \<rparr>"
  obtain q writes where "splitqueue_new 64 = Inr q"
    and d: "d = \<lparr> bd_queue = q, bd_commands = buffer_new pc ?zero 512, bd_data = buffer_new pb (replicate 512 0) 512,
      bd_queued = [], bd_waiting = [], bd_channel_id = 0, bd_sent = [], bd_mmio = writes \<rparr>"
    using assms by (auto simp: block_device_new_def Let_def panic_simps split: if_splits sum.splits)
  then have q: "vq_freelist q = map of_nat [0..<64]" "vq_descriptors q = replicate 64 descriptor_default"
      "vq_available q = \<lparr> av_flags = 0, av_index = 0, av_ring = replicate 64 0 \<rparr>"
      "vq_used q = \<lparr> us_flags = 0, us_index = 0, us_ring = replicate 64 \<lparr> ue_start_index = 0, ue_length = 0 \<rparr>, us_last_seen = 0 \<rparr>"
    by (auto simp: splitqueue_64)
  have "rings_ok 0 [] q []" by (simp add: rings_ok_def q avail_contents_def used_heads_def used_contents_def ring_ok_64)
  moreover have "distinct (map of_nat [0..<64] :: u16 list)"
    by (rule distinct_map_inverse [of _ unat]) (simp_all add: unat_index)
  then have "descriptors_ok q []" by (auto simp: descriptors_ok_def q unat_index)
  moreover have "\<forall>c \<in> set (buf_items (buffer_new pc ?zero 512)). status_ok c" by (simp add: buffer_new_def status_ok_new)
  ultimately have "block_inv 0 [] [] d" by (simp add: block_inv_def d slots_new)
  then show "world_inv (block_start disk d)" by (simp add: world_inv_def block_start_def)
  show "buf_phys (bd_commands d) = pc" "buf_phys (bd_data d) = pb" by (simp_all add: d buffer_new_def)
qed

section \<open>What holds of every history\<close>

definition same_regions :: "VirtIoBlockDeviceInner \<Rightarrow> VirtIoBlockDeviceInner \<Rightarrow> bool" where
  "same_regions d d' \<longleftrightarrow> buf_phys (bd_commands d') = buf_phys (bd_commands d) \<and> buf_phys (bd_data d') = buf_phys (bd_data d)"

lemma buffer_phys:
  "buffer_alloc sz b = Some (r, b') \<Longrightarrow> buf_phys b' = buf_phys b" "buffer_dealloc b i = Some b' \<Longrightarrow> buf_phys b' = buf_phys b"
  by (auto simp: buffer_alloc_def buffer_dealloc_def Let_def panic_simps split: list.splits)

lemma submit_regions: "submit d ch request data cmd flags kind = Some (f, d') \<Longrightarrow> same_regions d d'"
  by (auto simp: submit_def same_regions_def oneshot_def Let_def panic_simps split: prod.splits)

lemma wait_for_regions: "wait_for d request = (f, d') \<Longrightarrow> same_regions d d'"
  by (auto simp: wait_for_def oneshot_def same_regions_def)

lemmas regions_dest = submit_regions wait_for_regions [OF sym] wait_for_regions buffer_phys

lemma requests_regions:
  "block_read d sector = Some (f, d') \<Longrightarrow> same_regions d d'"
  "block_write d sector block = Some (f', d') \<Longrightarrow> same_regions d d'"
  "alloc_data_block d = Some (f'', d') \<Longrightarrow> same_regions d d'"
  by (auto simp: block_read_def block_write_def alloc_data_block_def panic_simps same_regions_def
      split: prod.splits option.splits dest!: regions_dest)

lemma finish_command_regions: "finish_command d qc st = Some d' \<Longrightarrow> same_regions d d'"
  by (auto simp: finish_command_def oneshot_send_def same_regions_def panic_simps
      split: QueuedCommandKind.splits dest!: buffer_phys(2))

lemma complete_used_regions: "complete_used d used = Some (go, d') \<Longrightarrow> same_regions d d'"
  by (auto simp: complete_used_def same_regions_def panic_simps Let_def
      split: option.splits dest!: buffer_phys(2) finish_command_regions)

lemma handle_interrupt_regions: "handle_interrupt d = Some d' \<Longrightarrow> same_regions d d'"
proof (induction d rule: handle_interrupt.induct)
  case (1 d)
  obtain r u where pop: "used_pop (vq_used (bd_queue d)) = Some (r, u)"
    using "1.prems" by (auto simp: handle_interrupt.simps [of d] panic_simps)
  show ?case
  proof (cases r)
    case None
    then show ?thesis using "1.prems" pop by (auto simp: handle_interrupt.simps [of d] same_regions_def)
  next
    case (Some e)
    then obtain go d1 where c: "complete_used (d\<lparr>bd_queue := (bd_queue d)\<lparr>vq_used := u\<rparr>\<rparr>) e = Some (go, d1)"
      and rest: "(if go then handle_interrupt d1 else Some d1) = Some d'"
      using "1.prems" pop by (auto simp: handle_interrupt.simps [of d] panic_simps)
    have "same_regions d1 d'"
      using rest "1.IH" [OF pop refl Some c refl] by (cases go) (auto simp: same_regions_def)
    then show ?thesis using complete_used_regions [OF c] by (simp add: same_regions_def)
  qed
qed

lemma happen_regions: "happen w e = Some w' \<Longrightarrow> same_regions (bw_driver w) (bw_driver w')"
  by (cases e)
    (auto simp: panic_simps same_regions_def Let_def device_execute_def split: option.splits prod.splits
      dest!: requests_regions handle_interrupt_regions buffer_phys(2))

lemma run_events_regions: "run_events es w = Some w' \<Longrightarrow> same_regions (bw_driver w) (bw_driver w')"
  by (induction es arbitrary: w)
    (auto simp: panic_simps same_regions_def split: if_splits dest!: happen_regions)

lemma slot_address:
  assumes "i < (512 :: usize)" "unat base + 512 * unat sz \<le> 2 ^ 64" "0 < unat sz"
  shows "unat (base + sz * i) = unat base + unat sz * unat i"
proof -
  have "unat i \<le> 511" using assms(1) by (simp add: word_less_nat_alt)
  then have "unat sz * unat i \<le> unat sz * 511" by (rule mult_le_mono2)
  then have b: "unat base + unat sz * unat i < 2 ^ 64" using assms(2,3) by linarith
  then have "unat (sz * i) = unat sz * unat i" using unat_word_ariths(2) [of sz i] by simp
  then show ?thesis using unat_word_ariths(1) [of base "sz * i"] b by simp
qed

text \<open>Two memory areas of the same length do not overlap.\<close>

definition apart_by :: "nat \<Rightarrow> usize \<Rightarrow> usize \<Rightarrow> bool" where
  "apart_by n a b \<longleftrightarrow> unat a + n \<le> unat b \<or> unat b + n \<le> unat a"

lemma slots_apart:
  assumes "i < 512" "j < 512" "i \<noteq> j" "unat base + 512 * unat sz \<le> 2 ^ 64" "0 < unat sz"
  shows "apart_by (unat sz) (base + sz * i) (base + sz * j)"
proof -
  consider "unat i + 1 \<le> unat j" | "unat j + 1 \<le> unat i" using assms(3) by (metis Suc_eq_plus1 Suc_leI linorder_neqE_nat word_unat_eq_iff)
  then show ?thesis
  proof cases
    case 1
    then have "unat sz * (unat i + 1) \<le> unat sz * unat j" by (rule mult_le_mono2)
    then show ?thesis using assms by (simp add: apart_by_def slot_address)
  next
    case 2
    then have "unat sz * (unat j + 1) \<le> unat sz * unat i" by (rule mult_le_mono2)
    then show ?thesis using assms by (simp add: apart_by_def slot_address)
  qed
qed

lemma queued_slots:
  assumes "block_inv taken flight owned d" "(h, qc) \<in> set (bd_queued d)"
  shows "qc_command qc < 512" "qc_data qc < 512" "\<And>i. i \<in> set owned \<Longrightarrow> i < 512 \<and> i \<noteq> qc_data qc"
    and "\<And>h' qc'. (h', qc') \<in> set (bd_queued d) \<Longrightarrow> h' \<noteq> h \<Longrightarrow> qc_command qc' \<noteq> qc_command qc \<and> qc_data qc' \<noteq> qc_data qc"
proof -
  let ?m = "bd_queued d"
  have c: "distinct (map (qc_command \<circ> snd) ?m)" "\<forall>i \<in> set (map (qc_command \<circ> snd) ?m). i < 512"
    and b: "distinct (map (qc_data \<circ> snd) ?m @ concat (map waiting_block (bd_waiting d)) @ owned)"
      "\<forall>i \<in> set (map (qc_data \<circ> snd) ?m @ concat (map waiting_block (bd_waiting d)) @ owned). i < 512"
    using assms(1) by (auto simp: block_inv_def slots_ok_def)
  have in_c: "qc_command (snd r) \<in> set (map (qc_command \<circ> snd) ?m)" and in_b: "qc_data (snd r) \<in> set (map (qc_data \<circ> snd) ?m)"
    if "r \<in> set ?m" for r using that by auto
  show "qc_command qc < 512" "qc_data qc < 512" using c(2) b(2) in_c [OF assms(2)] in_b [OF assms(2)] by auto
  show "i < 512 \<and> i \<noteq> qc_data qc" if "i \<in> set owned" for i
    using that b in_b [OF assms(2)] by (auto simp del: set_map)
  show "qc_command qc' \<noteq> qc_command qc \<and> qc_data qc' \<noteq> qc_data qc" if "(h', qc') \<in> set ?m" "h' \<noteq> h" for h' qc'
  proof -
    have "inj_on (qc_command \<circ> snd) (set ?m)" "inj_on (qc_data \<circ> snd) (set ?m)" using c(1) b(1) by (auto simp: distinct_map)
    from this [THEN inj_onD, OF _ that(1) assms(2)] show ?thesis using that(2) by auto
  qed
qed

lemma queued_request:
  assumes inv: "block_inv taken flight owned d" and r: "(h, qc) \<in> set (bd_queued d)"
  defines "ds \<equiv> vq_descriptors (bd_queue d)"
  defines "second \<equiv> vd_next (ds ! unat h)"
  defines "third \<equiv> vd_next (ds ! unat second)"
  shows "vd_address (ds ! unat h) = buf_phys (bd_commands d) + 24 * qc_command qc" "vd_length (ds ! unat h) = 16"
    and "vd_address (ds ! unat second) = buf_phys (bd_data d) + 512 * qc_data qc" "vd_length (ds ! unat second) = 512"
    and "vd_address (ds ! unat third) = buf_phys (bd_commands d) + 24 * qc_command qc + 16" "vd_length (ds ! unat third) = 1"
    and "unat h < 64 \<and> unat second < 64 \<and> unat third < 64"
proof -
  have "request_ok d (h, qc)" using inv r by (simp add: block_inv_def)
  note R = this [unfolded request_ok_def Let_def COMMAND_SIZE_def BLOCK_SIZE_def fst_conv snd_conv, folded ds_def,
      folded second_def, folded third_def]
  show "vd_address (ds ! unat h) = buf_phys (bd_commands d) + 24 * qc_command qc" "vd_length (ds ! unat h) = 16"
    by (subst R [THEN conjunct1], simp)+
  show "vd_address (ds ! unat second) = buf_phys (bd_data d) + 512 * qc_data qc" "vd_length (ds ! unat second) = 512"
    by (subst R [THEN conjunct2, THEN conjunct1], simp)+
  show "vd_address (ds ! unat third) = buf_phys (bd_commands d) + 24 * qc_command qc + 16" "vd_length (ds ! unat third) = 1"
    by (subst R [THEN conjunct2, THEN conjunct2], simp)+
  have "\<forall>x \<in> set (desc_chain ds h). unat x < 64" using inv r by (force simp: block_inv_def descriptors_ok_def ds_def)
  then show "unat h < 64 \<and> unat second < 64 \<and> unat third < 64"
    using desc_chain_parts [where ds = ds and h = h] unfolding second_def third_def by blast
qed

text \<open>
  C38. Whatever clients and the device do, in whatever order, the driver never panics, and nothing is handed out twice:
  every descriptor is free or belongs to one queued request, every command slot is free or belongs to one queued
  request, every data block is free or is with one queued request, one waiting write, one client or on its way back.
  A queued request is in the available ring, with the device, or in the used ring, exactly once.
\<close>

theorem block_driver_no_sharing:
  assumes "block_device_new status pd pa pu pc pb = Some (Inr d)"
  shows "\<exists>w. run_events es (block_start disk d) = Some w \<and>
    (let dr = bw_driver w; q = bd_queue dr; m = bd_queued dr in
     distinct (vq_freelist q @ concat (map (desc_chain (vq_descriptors q)) (map fst m))) \<and>
     distinct (map ucast (buf_free (bd_commands dr)) @ map (qc_command \<circ> snd) m) \<and>
     distinct (map ucast (buf_free (bd_data dr)) @ map (qc_data \<circ> snd) m @ concat (map waiting_block (bd_waiting dr)) @
       bw_owned w @ bw_dropped w) \<and>
     mset (avail_contents (vq_available q, bw_taken w) @ bw_flight w @ used_heads (vq_used q)) = mset (map fst m))"
proof -
  obtain w where "run_events es (block_start disk d) = Some w" "world_inv w"
    using run_events_ok [OF block_start_inv(1) [OF assms]] by blast
  then show ?thesis unfolding world_inv_def block_inv_def descriptors_ok_def slots_ok_def rings_ok_def Let_def by blast
qed

text \<open>
  C39. The device only ever gets addresses inside the two buffers: the header and the status byte of a queued request
  lie in the command buffer, its block in the data buffer, none of it wraps around, and all of it is apart from the
  memory of every other queued request and from every block a client holds.
\<close>

theorem block_dma_bounds:
  assumes "block_device_new status pd pa pu pc pb = Some (Inr d)" "run_events es (block_start disk d) = Some w"
    and "unat pc + 512 * 24 \<le> 2 ^ 64" "unat pb + 512 * 512 \<le> 2 ^ 64"
    and "(h, qc) \<in> set (bd_queued (bw_driver w))"
  shows "let ds = vq_descriptors (bd_queue (bw_driver w)); first = ds ! unat h;
      second = ds ! unat (vd_next first); third = ds ! unat (vd_next second);
      header_of = (\<lambda>h'. vd_address (ds ! unat h')); block_of = (\<lambda>h'. vd_address (ds ! unat (vd_next (ds ! unat h')))) in
    unat h < 64 \<and> unat (vd_next first) < 64 \<and> unat (vd_next second) < 64 \<and>
    vd_length first = 16 \<and> vd_length second = 512 \<and> vd_length third = 1 \<and>
    unat pc \<le> unat (vd_address first) \<and> unat (vd_address third) = unat (vd_address first) + 16 \<and>
    unat (vd_address third) < unat pc + 512 * 24 \<and>
    unat pb \<le> unat (vd_address second) \<and> unat (vd_address second) + 512 \<le> unat pb + 512 * 512 \<and>
    (\<forall>i \<in> set (bw_owned w). apart_by 512 (pb + 512 * i) (vd_address second)) \<and>
    (\<forall>(h', qc') \<in> set (bd_queued (bw_driver w)). h' \<noteq> h \<longrightarrow>
      apart_by 24 (header_of h') (vd_address first) \<and> apart_by 512 (block_of h') (vd_address second))"
proof -
  let ?d = "bw_driver w"
  let ?ds = "vq_descriptors (bd_queue ?d)"
  have inv: "block_inv (bw_taken w) (bw_flight w) (bw_owned w @ bw_dropped w) ?d"
    using run_events_ok [OF block_start_inv(1) [OF assms(1)], of es disk] assms(2) by (simp add: world_inv_def)
  have phys: "buf_phys (bd_commands ?d) = pc" "buf_phys (bd_data ?d) = pb"
    using run_events_regions [OF assms(2)] block_start_inv(2,3) [OF assms(1)] by (simp_all add: same_regions_def block_start_def)
  note addr = queued_request [OF inv, unfolded phys]
  note slots = queued_slots [OF inv assms(5)]
  have first: "unat (pc + 24 * qc_command qc) = unat pc + 24 * unat (qc_command qc)"
    using slot_address [of "qc_command qc" pc 24] slots(1) assms(3) by simp
  have second: "unat (pb + 512 * qc_data qc) = unat pb + 512 * unat (qc_data qc)"
    using slot_address [of "qc_data qc" pb 512] slots(2) assms(4) by simp
  have lt: "unat (qc_command qc) < 512" "unat (qc_data qc) < 512" using slots(1,2) by (simp_all add: word_less_nat_alt)
  have "unat (pc + 24 * qc_command qc) + 16 < 2 ^ 64" using first lt(1) assms(3) by linarith
  then have t: "unat (pc + 24 * qc_command qc + 16) = unat (pc + 24 * qc_command qc) + 16"
    using unat_word_ariths(1) [of "pc + 24 * qc_command qc" 16] by simp
  have own: "\<forall>i \<in> set (bw_owned w). apart_by 512 (pb + 512 * i) (pb + 512 * qc_data qc)"
    using slots(2,3) slots_apart [of _ "qc_data qc" pb 512] assms(4) by auto
  have other: "apart_by 24 (pc + 24 * qc_command c) (pc + 24 * qc_command qc) \<and> apart_by 512 (pb + 512 * qc_data c) (pb + 512 * qc_data qc)"
    if "(k, c) \<in> set (bd_queued ?d)" "k \<noteq> h" for k c
    using slots(4) [OF that] queued_slots(1,2) [OF inv that(1)] slots(1,2)
      slots_apart [of "qc_command c" "qc_command qc" pc 24] slots_apart [of "qc_data c" "qc_data qc" pb 512] assms(3,4) by auto
  show ?thesis
    unfolding Let_def using own other addr(1,3) addr [OF assms(5)] t first second lt by auto
qed

abbreviation (input) demo_queue :: SplitVirtqueue where
  "demo_queue \<equiv> \<lparr> vq_size = 64, vq_freelist = map of_nat [0..<64], vq_descriptors = replicate 64 descriptor_default,
    vq_available = \<lparr> av_flags = 0, av_index = 0, av_ring = replicate 64 0 \<rparr>,
    vq_used = \<lparr> us_flags = 0, us_index = 0, us_ring = replicate 64 \<lparr> ue_start_index = 0, ue_length = 0 \<rparr>, us_last_seen = 0 \<rparr> \<rparr>"

lemma demo_new:
  obtains d where "block_device_new (\<lambda>_. 8) 0x1000 0x2000 0x3000 0x4000 0x10000 = Some (Inr d)" "bd_queue d = demo_queue"
    "bd_queued d = []" "buf_free (bd_commands d) \<noteq> []" "buf_free (bd_data d) \<noteq> []"
proof -
  have "status_is_set 8 FeaturesOk" "\<not> status_is_set 8 Failed" by (simp_all add: status_is_set_def)
  then show thesis using that by (simp add: block_device_new_def splitqueue_64 Let_def buffer_new_def)
qed

lemma demo_read:
  assumes d: "block_device_new (\<lambda>_. 8) 0x1000 0x2000 0x3000 0x4000 0x10000 = Some (Inr d)" "bd_queue d = demo_queue" "bd_queued d = []"
    "buf_free (bd_commands d) \<noteq> []" "buf_free (bd_data d) \<noteq> []"
  obtains w qc where "run_events [EvRead 7] (block_start disk d) = Some w" "bd_queued (bw_driver w) = [(63, qc)]"
proof -
  have desc_chain: "get_descriptor_chain demo_queue = (Some (63, 62, 61), demo_queue\<lparr>vq_freelist := map of_nat [0..<61]\<rparr>)"
  proof -
    have "[0..<64] = [0..<61] @ [61, 62, 63]" using upt_add_eq_append [of 0 61 3] by (simp add: upt_rec)
    then have "map of_nat [0..<64] = map of_nat [0..<61] @ [61, 62, 63 :: u16]" by simp
    then show ?thesis by (simp add: get_descriptor_chain_def alloc_descriptor_def butlast_append)
  qed
  have inv: "block_inv 0 [] [] d" using block_start_inv(1) [OF d(1)] by (simp add: world_inv_def block_start_def)
  then obtain f d' where r: "block_read d 7 = Some (f, d')" using block_read_ok by blast
  then have "\<exists>qc. bd_queued d' = [(63, qc)]"
    using d(2-5) desc_chain by (auto simp: block_read_def submit_def oneshot_def Let_def panic_simps buffer_alloc_def
        split: list.splits option.splits prod.splits)
  then show thesis using that r by (auto simp: block_start_def)
qed

theorem block_driver_no_sharing_witness:
  "\<exists>d w. block_device_new (\<lambda>_. 8) 0x1000 0x2000 0x3000 0x4000 0x10000 = Some (Inr d) \<and>
    run_events [EvRead 7, EvTake, EvDone 63 0 512, EvInterrupt, EvAlloc] (block_start (\<lambda>_. []) d) = Some w \<and>
    distinct (vq_freelist (bd_queue (bw_driver w)) @
      concat (map (desc_chain (vq_descriptors (bd_queue (bw_driver w)))) (map fst (bd_queued (bw_driver w)))))"
proof -
  obtain d where d: "block_device_new (\<lambda>_. 8) 0x1000 0x2000 0x3000 0x4000 0x10000 = Some (Inr d)" using demo_new .
  from block_driver_no_sharing [OF d, of "[EvRead 7, EvTake, EvDone 63 0 512, EvInterrupt, EvAlloc]" "\<lambda>_. []"]
  show ?thesis using d unfolding Let_def by blast
qed

theorem block_dma_bounds_witness:
  "\<exists>d w qc. block_device_new (\<lambda>_. 8) 0x1000 0x2000 0x3000 0x4000 0x10000 = Some (Inr d) \<and>
    run_events [EvRead 7] (block_start (\<lambda>_. []) d) = Some w \<and> bd_queued (bw_driver w) = [(63, qc)] \<and>
    0x4000 \<le> unat (vd_address (vq_descriptors (bd_queue (bw_driver w)) ! 63))"
proof -
  obtain d where d: "block_device_new (\<lambda>_. 8) 0x1000 0x2000 0x3000 0x4000 0x10000 = Some (Inr d)" "bd_queue d = demo_queue"
      "bd_queued d = []" "buf_free (bd_commands d) \<noteq> []" "buf_free (bd_data d) \<noteq> []"
    using demo_new .
  obtain w qc where w: "run_events [EvRead 7] (block_start (\<lambda>_. []) d) = Some w" "bd_queued (bw_driver w) = [(63, qc)]"
    using demo_read [OF d] .
  have "0x4000 \<le> unat (vd_address (vq_descriptors (bd_queue (bw_driver w)) ! 63))"
    using block_dma_bounds [OF d(1) w(1), of 63 qc] w(2) by (simp add: Let_def)
  then show ?thesis using d(1) w by blast
qed

end
