(* ===== verification/Spec2Isabelle.thy ===== *)
theory Spec2Isabelle
  imports Syscall_Isolation Trap Riscv_Asm Sync Netstack Block_Driver
begin

text \<open>
  A verification library for vanadinite, a microkernel for RV64 with its userspace libraries. Paths are relative
  to \<open>src/src/\<close>; \<open>kernel/\<close> stands for \<open>kernel/vanadinite/src/\<close>, \<open>librust/\<close> for \<open>shared/librust/src/\<close>
  and \<open>libs/\<close> for \<open>userspace/libs/\<close>.

  \<^bold>\<open>The program.\<close> The kernel owns physical memory (a bitmap of 4 KiB pages), gives every task an address space
  (a three-level Sv39 page table plus a map of regions, kept in step by a memory manager), schedules tasks
  round-robin on every hart, and offers system calls: memory, devices, channels that carry messages and
  capabilities, and the creation of tasks. Traps enter through an assembly shim that saves all registers in a
  frame; context switches are assembly too. Userspace drivers talk to devices through virtqueues, and network
  code reads and writes packet headers.

  \<^bold>\<open>Conventions\<close> (theory \<open>Prelude\<close>). \<open>usize\<close> and \<open>u64\<close> are 64-bit words that wrap, as in the release build. A panic,
  a failed assertion and a lock that is never released are \<^term>\<open>None\<close> of \<open>'a panics\<close>; \<open>Result\<close> is a sum type with
  the error on the left. Rust's loops are recursive functions with termination proofs, \<open>for_loop\<close> over the list
  the iterator yields, or partial functions (see Bounds). Log output is left out, except where computing an argument
  of the log call can panic, as in the page-fault handler. Readings of the clock and of device registers are arguments. Critical
  sections of one lock are atomic, except in \<open>Sync\<close>, where every atomic access is a step of its own.

  \<^bold>\<open>Memory.\<close>
  \<^item> \<open>Kernel_Utils\<close>: \<open>kernel/utils.rs\<close>, rounding and unit conversion.
  \<^item> \<open>Paging_Repr\<close>: \<open>kernel/mem/paging/table/repr.rs\<close> and \<open>flags.rs\<close>, entries, flags and addresses with the laws of
    their accessors.
  \<^item> \<open>Frame_Allocator\<close>: the contract of the trait \<open>PhysicalMemoryAllocator\<close> as the locale \<open>frame_allocator\<close>;
    \<open>Phys_Bitmap\<close>: \<open>kernel/mem/phys/bitmap.rs\<close>, interpreted in it. The lemmas show which pages every operation
    takes and gives back, and that no page is handed out twice.
  \<^item> \<open>Page_Table\<close>: \<open>kernel/mem/paging/table.rs\<close> over a store of table frames. An invariant (the tables form a tree of
    depth three with frames of their own) is kept by every operation; \<open>map\<close>, \<open>unmap\<close> and \<open>resolve\<close> are
    described as changes of one translation function, and separate address spaces do not influence each other.
    The table frames and the bytes of data pages are two stores; a write to a data page does not reach a page table.
    In the machine they are one memory: this agrees with it as long as no frame is both, which the allocation lemmas
    give for every request except contiguous runs of more than 64 pages, where the bitmap may hand out used pages.
  \<^item> \<open>Btree_Map\<close>: the part of \<open>BTreeMap\<close> the kernel uses, with its laws as the locale \<open>ordered_map\<close>.
    \<open>Address_Map\<close>: \<open>kernel/mem/manager/address_map.rs\<close>; the regions tile the address space, and it is shown exactly
    when freeing one keeps this so.
  \<^item> \<open>Memory_Region\<close>: \<open>kernel/mem/region.rs\<close>; \<open>Memory_Manager\<close>: \<open>kernel/mem/manager/mod.rs\<close>, where page table,
    address map and page bitmap change together. The offset of the direct map is part of the machine state, so
    that the overflow check of \<open>phys2virt\<close> is made for every page that is filled.
  \<^item> \<open>User_Ptr\<close>: \<open>kernel/mem/user.rs\<close>, validation of what tasks pass in: what an accepted slice guarantees, and the two
    ways around the check, a slice in the last page of the address space and a length whose byte count wraps.
  \<^item> \<open>Heap_Free_List\<close>: \<open>kernel/mem/heap/free_list.rs\<close>; blocks stay disjoint, for a heap anywhere below the top of memory.

  \<^bold>\<open>Tasks and system calls.\<close>
  \<^item> \<open>Syscall_Abi\<close>: \<open>librust/syscalls.rs\<close>, \<open>error.rs\<close> and the option words of the wrappers.
  \<^item> \<open>Capability_Space\<close>: \<open>kernel/capabilities.rs\<close>. \<open>Plic_Driver\<close>: \<open>kernel/drivers/generic/plic.rs\<close>.
  \<^item> \<open>Kernel_State\<close>: the state all handlers share. Tasks are a function from identifiers to records, channels are
    queues in a store, so that two ends of a channel are two names of one queue.
  \<^item> \<open>Task\<close>: \<open>kernel/task.rs\<close>. \<open>Scheduler\<close>: \<open>kernel/scheduler/\<close>; every ready task is chosen within one round.
  \<^item> \<open>Channel\<close>: \<open>kernel/syscall/channel.rs\<close>. The blocking read is split where the task gives up the hart. The
    invariant on waiting tasks is proved over every order of sends, blocking and non-blocking receives, messages that
    a receiver puts back, switches by the timer, and steps that do not touch the queues. Which channels have one
    receiver only is a parameter of the relation; only on these is a message put back.
  \<^item> \<open>Syscalls\<close>: the other handlers and the dispatcher of \<open>kernel/syscall/mod.rs\<close>. \<open>Syscall_Isolation\<close>: what a
    system call cannot change, and that failing calls have no effect.
  \<^item> \<open>Trap\<close>: \<open>kernel/trap.rs\<close>, all causes. A page fault is resolved, kills the task, or panics the kernel; the last is what
    happens on every guard page.

  \<^bold>\<open>Machine level.\<close>
  \<^item> \<open>Riscv_Asm\<close>: the instructions the kernel's assembly uses, over registers and a byte memory, and the assembly of
    \<open>kernel/scheduler/mod.rs\<close> and \<open>kernel/trap.rs\<close> as lists of instructions.
  \<^item> \<open>Sync\<close>: \<open>kernel/sync/\<close>, one step per atomic access, any number of harts, every interleaving.

  \<^bold>\<open>Userspace.\<close>
  \<^item> \<open>Byte_Order\<close>: \<open>libs/endian\<close>. \<open>Netstack\<close>: \<open>libs/checksum\<close> and \<open>libs/netstack\<close>; table-driven and bitwise CRC32
    agree.
  \<^item> \<open>Virtqueue\<close>: \<open>libs/virtio/src/splitqueue.rs\<close>. Both rings meet the contract \<open>shared_ring\<close> of a queue, with the
    device on the other side.
  \<^item> \<open>Block_Driver\<close>: \<open>userspace/servers/filesystem/src/block_devices/virtio.rs\<close> on top of it, with clients, the channel
    that brings dropped blocks back, and the device as an environment that may act at any time. An invariant over all
    these parties shows that nothing is shared and that DMA stays inside the buffers.

  \<^bold>\<open>Bounds.\<close> There is no fuel. The loops of the model are structural or have a measure (the search of the page bitmap:
  the entries that are left; the used ring: the elements not seen), except two, which need not end for every state
  and are partial functions with \<^term>\<open>None\<close> for not ending: the walk along the free list of the heap, which ends on
  every list the invariant allows, and \<open>Sender::send\<close>, which calls itself for the kernel channel of the receiving
  task and on a cycle of such channels waits for a lock it holds. Lists of readings (clock values for the random
  placement of regions) may be shorter than the source's hundred attempts; the model then goes on to the linear search.

  \<^bold>\<open>Not modelled.\<close> Boot code and device-tree parsing (firmware, linker symbols, a third-party crate); consoles and
  logging (output only); TLB and cache maintenance, because the model has no TLB; Sv48 and Sv57, which are switched off
  by default; the asynchronous runtime (a request returns the identifier of the channel its
  answer is sent on) and the other servers written with it; the interface generator and the serialisation
  crates, which work at build time or on unsafe casts; the firmware stub and the build tool.
\<close>

end
